(* ===== verification/Go_Base.thy ===== *)
theory Go_Base
  imports Main "HOL-Library.Word" "HOL-Library.Code_Target_Nat"
begin

section \<open>Go values shared by every component\<close>

text \<open>
  The prelude of the development. It fixes the types that stand for Go's machine
  integers and strings, models the parts of the Go standard library the sources call
  on strings (\<open>range\<close> over a string, \<open>unicode/utf8\<close>, \<open>strings\<close>, \<open>io/fs.ValidPath\<close>,
  bounded reads through \<open>io.LimitReader\<close>), and proves the generic facts on them that the
  components share.

  A Go string is a sequence of bytes: it is a \<open>string\<close>, one \<open>char\<close> per byte. A rune is
  the \<open>nat\<close> that is its code point. Fallible operations return a sum whose left
  injection is the error. A slice is a list; where the code tells a nil slice from an
  empty one the slice is a \<open>list option\<close> with \<open>None\<close> for nil.
\<close>

type_synonym u8 = "8 word"
type_synonym u16 = "16 word"
type_synonym u32 = "32 word"
type_synonym u64 = "64 word"

named_theorems go_defs \<open>definitions that unfold to plain list and string facts\<close>

subsection \<open>Sums as results\<close>

definition is_ok :: "'e + 'a \<Rightarrow> bool" where
  "is_ok r \<longleftrightarrow> (case r of Inl _ \<Rightarrow> False | Inr _ \<Rightarrow> True)"

lemma is_ok_simps [simp]: "is_ok (Inr a)" "\<not> is_ok (Inl e)"
  by (simp_all add: is_ok_def)

lemma is_ok_iff: "is_ok r \<longleftrightarrow> (\<exists>a. r = Inr a)"
  by (cases r) simp_all

lemma not_is_ok_iff: "\<not> is_ok r \<longleftrightarrow> (\<exists>e. r = Inl e)"
  by (cases r) simp_all

lemma is_ok_unit: "is_ok (r :: 'e + unit) \<longleftrightarrow> r = Inr ()"
  by (cases r) simp_all

subsection \<open>Bytes and runes\<close>

definition bytes_of :: "string \<Rightarrow> nat list" where
  "bytes_of s = map of_char s"

lemma length_bytes_of [simp]: "length (bytes_of s) = length s"
  by (simp add: bytes_of_def)

lemma bytes_of_Nil [simp]: "bytes_of [] = []"
  by (simp add: bytes_of_def)

lemma bytes_of_Cons [simp]: "bytes_of (c # s) = of_char c # bytes_of s"
  by (simp add: bytes_of_def)

lemma bytes_of_append [simp]: "bytes_of (s @ t) = bytes_of s @ bytes_of t"
  by (simp add: bytes_of_def)

text \<open>
  \<open>utf8.DecodeRune\<close>: the rune at the front of a non-empty byte sequence, whether the
  encoding is valid, and the bytes that follow. An invalid encoding yields
  \<open>RuneError\<close> and consumes one byte.
\<close>

definition rune_error :: nat where
  "rune_error = 65533"

definition cont :: "nat \<Rightarrow> bool" where
  "cont b \<longleftrightarrow> 128 \<le> b \<and> b \<le> 191"

fun rune2 :: "nat \<Rightarrow> nat list \<Rightarrow> (nat \<times> nat list) option" where
  "rune2 b (c # r) = (if cont c then Some ((b - 192) * 64 + (c - 128), r) else None)"
| "rune2 b _ = None"

fun rune3 :: "nat \<Rightarrow> nat list \<Rightarrow> (nat \<times> nat list) option" where
  "rune3 b (c # d # r) =
     (if (if b = 224 then 160 else 128) \<le> c \<and> c \<le> (if b = 237 then 159 else 191) \<and> cont d
      then Some ((b - 224) * 4096 + (c - 128) * 64 + (d - 128), r) else None)"
| "rune3 b _ = None"

fun rune4 :: "nat \<Rightarrow> nat list \<Rightarrow> (nat \<times> nat list) option" where
  "rune4 b (c # d # e # r) =
     (if (if b = 240 then 144 else 128) \<le> c \<and> c \<le> (if b = 244 then 143 else 191) \<and>
         cont d \<and> cont e
      then Some ((b - 240) * 262144 + (c - 128) * 4096 + (d - 128) * 64 + (e - 128), r)
      else None)"
| "rune4 b _ = None"

definition multi_rune :: "nat \<Rightarrow> nat list \<Rightarrow> (nat \<times> nat list) option" where
  "multi_rune b rest =
     (if 194 \<le> b \<and> b \<le> 223 then rune2 b rest
      else if 224 \<le> b \<and> b \<le> 239 then rune3 b rest
      else if 240 \<le> b \<and> b \<le> 244 then rune4 b rest
      else None)"

definition decode_rune :: "nat \<Rightarrow> nat list \<Rightarrow> nat \<times> bool \<times> nat list" where
  "decode_rune b rest =
     (if b < 128 then (b, True, rest)
      else case multi_rune b rest of
        Some (r, suf) \<Rightarrow> (r, True, suf)
      | None \<Rightarrow> (rune_error, False, rest))"

lemma rune2_Some:
  "rune2 b rest = Some (r, suf) \<Longrightarrow> 194 \<le> b \<Longrightarrow>
   128 \<le> r \<and> (\<exists>pre. rest = pre @ suf \<and> (\<forall>c \<in> set pre. 128 \<le> c))"
  by (cases rest) (auto simp: cont_def split: if_splits intro!: exI [of _ "[_]"])

lemma rune3_Some:
  assumes "rune3 b rest = Some (r, suf)" "224 \<le> b"
  shows "128 \<le> r \<and> (\<exists>pre. rest = pre @ suf \<and> (\<forall>c \<in> set pre. 128 \<le> c))"
proof -
  obtain c d where rest: "rest = c # d # suf" and c: "(if b = 224 then 160 else 128) \<le> c" "cont d"
    and r: "r = (b - 224) * 4096 + (c - 128) * 64 + (d - 128)"
    using assms(1) by (induction b rest rule: rune3.induct) (auto split: if_splits)
  have "128 \<le> (b - 224) * 4096 + (c - 128) * 64"
    using c(1) assms(2) by (cases "b = 224") (simp, linarith)
  then have "128 \<le> r" using r by linarith
  moreover have "rest = [c, d] @ suf" "\<forall>x \<in> set [c, d]. 128 \<le> x"
    using rest c by (auto simp: cont_def split: if_splits)
  ultimately show ?thesis by blast
qed

lemma rune4_Some:
  assumes "rune4 b rest = Some (r, suf)" "240 \<le> b"
  shows "128 \<le> r \<and> (\<exists>pre. rest = pre @ suf \<and> (\<forall>c \<in> set pre. 128 \<le> c))"
proof -
  obtain c d e where rest: "rest = c # d # e # suf"
    and c: "(if b = 240 then 144 else 128) \<le> c" "cont d" "cont e"
    and r: "r = (b - 240) * 262144 + (c - 128) * 4096 + (d - 128) * 64 + (e - 128)"
    using assms(1) by (induction b rest rule: rune4.induct) (auto split: if_splits)
  have "128 \<le> (b - 240) * 262144 + (c - 128) * 4096"
    using c(1) assms(2) by (cases "b = 240") (simp, linarith)
  then have "128 \<le> r" using r by linarith
  moreover have "rest = [c, d, e] @ suf" "\<forall>x \<in> set [c, d, e]. 128 \<le> x"
    using rest c by (auto simp: cont_def split: if_splits)
  ultimately show ?thesis by blast
qed

lemma multi_rune_Some:
  assumes "multi_rune b rest = Some (r, suf)"
  shows "128 \<le> r \<and> (\<exists>pre. rest = pre @ suf \<and> (\<forall>c \<in> set pre. 128 \<le> c))"
proof -
  consider "rune2 b rest = Some (r, suf)" "194 \<le> b" | "rune3 b rest = Some (r, suf)" "224 \<le> b"
    | "rune4 b rest = Some (r, suf)" "240 \<le> b"
    using assms by (auto simp: multi_rune_def split: if_splits)
  then show ?thesis
    by cases (fact rune2_Some rune3_Some rune4_Some)+
qed

lemma decode_rune_ascii [simp]: "b < 128 \<Longrightarrow> decode_rune b rest = (b, True, rest)"
  by (simp add: decode_rune_def)

lemma decode_rune_cases:
  obtains (ascii) "b < 128" "decode_rune b rest = (b, True, rest)"
  | (bad) "128 \<le> b" "decode_rune b rest = (rune_error, False, rest)"
  | (multi) r pre suf where "128 \<le> b" "128 \<le> r" "rest = pre @ suf" "\<forall>c \<in> set pre. 128 \<le> c"
      "decode_rune b rest = (r, True, suf)"
proof (cases "b < 128")
  case True
  then show ?thesis using ascii by simp
next
  case False
  show ?thesis
  proof (cases "multi_rune b rest")
    case None
    then show ?thesis using bad False by (simp add: decode_rune_def)
  next
    case (Some p)
    then obtain r suf where p: "multi_rune b rest = Some (r, suf)" by (cases p) auto
    then show ?thesis
      using multi_rune_Some [OF p] multi False by (auto simp: decode_rune_def)
  qed
qed

lemma decode_rune_shorter:
  "length (snd (snd (decode_rune b rest))) \<le> length rest"
  by (cases b rest rule: decode_rune_cases) auto

function rune_list :: "nat list \<Rightarrow> nat list" where
  "rune_list [] = []"
| "rune_list (b # rest) =
     fst (decode_rune b rest) # rune_list (snd (snd (decode_rune b rest)))"
  by pat_completeness auto
termination
  by (relation "measure length") (auto simp: decode_rune_shorter le_imp_less_Suc)

function utf8_valid :: "nat list \<Rightarrow> bool" where
  "utf8_valid [] = True"
| "utf8_valid (b # rest) =
     (fst (snd (decode_rune b rest)) \<and> utf8_valid (snd (snd (decode_rune b rest))))"
  by pat_completeness auto
termination
  by (relation "measure length") (auto simp: decode_rune_shorter le_imp_less_Suc)

text \<open>The runes of \<open>for _, ch := range s\<close>, and \<open>utf8.ValidString\<close>.\<close>

definition runes :: "string \<Rightarrow> nat list" where
  "runes s = rune_list (bytes_of s)"

definition valid_string :: "string \<Rightarrow> bool" where
  "valid_string s \<longleftrightarrow> utf8_valid (bytes_of s)"

text \<open>
  The loops of the sources test every rune of a string. A test that only ASCII runes
  pass, and a test that every non-ASCII rune passes, can be read byte by byte.
\<close>

lemma rune_list_all_ascii:
  assumes "\<And>r. P r \<Longrightarrow> r < 128"
  shows "list_all P (rune_list bs) \<longleftrightarrow> list_all P bs"
proof (induction bs rule: rune_list.induct)
  case 1
  then show ?case by simp
next
  case (2 b rest)
  show ?case
  proof (cases b rest rule: decode_rune_cases)
    case ascii
    then show ?thesis using 2 by simp
  next
    case bad
    then show ?thesis using assms [of rune_error] assms [of b] by (auto simp: rune_error_def)
  next
    case (multi r pre suf)
    then show ?thesis using assms [of r] assms [of b] by auto
  qed
qed

lemma rune_list_all_high:
  assumes "\<And>r. 128 \<le> r \<Longrightarrow> P r"
  shows "list_all P (rune_list bs) \<longleftrightarrow> list_all P bs"
proof (induction bs rule: rune_list.induct)
  case 1
  then show ?case by simp
next
  case (2 b rest)
  show ?case
  proof (cases b rest rule: decode_rune_cases)
    case ascii
    then show ?thesis using 2 by simp
  next
    case bad
    then show ?thesis using assms 2 by (auto simp: rune_error_def)
  next
    case (multi r pre suf)
    moreover have "list_all P pre" using multi assms by (auto simp: list_all_iff)
    ultimately show ?thesis using assms 2 by auto
  qed
qed

lemma runes_all_ascii:
  assumes "\<And>r. P r \<Longrightarrow> r < 128"
  shows "list_all P (runes s) \<longleftrightarrow> list_all (\<lambda>c. P (of_char c)) s"
  using rune_list_all_ascii [of P "bytes_of s"] assms
  by (simp add: runes_def bytes_of_def list_all_iff)

lemma runes_all_high:
  assumes "\<And>r. 128 \<le> r \<Longrightarrow> P r"
  shows "list_all P (runes s) \<longleftrightarrow> list_all (\<lambda>c. P (of_char c)) s"
  using rune_list_all_high [of P "bytes_of s"] assms
  by (simp add: runes_def bytes_of_def list_all_iff)

lemma rune_list_ascii: "list_all (\<lambda>b. b < 128) bs \<Longrightarrow> rune_list bs = bs"
  by (induction bs rule: rune_list.induct) auto

lemma utf8_valid_ascii: "list_all (\<lambda>b. b < 128) bs \<Longrightarrow> utf8_valid bs"
  by (induction bs rule: utf8_valid.induct) auto

definition ascii_string :: "string \<Rightarrow> bool" where
  "ascii_string s \<longleftrightarrow> list_all (\<lambda>c. of_char c < (128::nat)) s"

lemma runes_ascii: "ascii_string s \<Longrightarrow> runes s = bytes_of s"
  by (simp add: ascii_string_def runes_def bytes_of_def rune_list_ascii list_all_iff)

lemma valid_string_ascii: "ascii_string s \<Longrightarrow> valid_string s"
  by (simp add: ascii_string_def valid_string_def bytes_of_def utf8_valid_ascii list_all_iff)

subsection \<open>The string functions the sources call\<close>

text \<open>\<open>strings.HasPrefix\<close>, \<open>strings.HasSuffix\<close>, and \<open>strings.Split\<close> on a one-byte separator.\<close>

definition has_prefix :: "string \<Rightarrow> string \<Rightarrow> bool" where
  "has_prefix s p \<longleftrightarrow> length p \<le> length s \<and> take (length p) s = p"

definition has_suffix :: "string \<Rightarrow> string \<Rightarrow> bool" where
  "has_suffix s p \<longleftrightarrow> length p \<le> length s \<and> drop (length s - length p) s = p"

lemma has_prefix_iff: "has_prefix s p \<longleftrightarrow> (\<exists>t. s = p @ t)"
  by (auto simp: has_prefix_def) (metis append_take_drop_id)

lemma has_suffix_iff: "has_suffix s p \<longleftrightarrow> (\<exists>t. s = t @ p)"
  by (auto simp: has_suffix_def) (metis append_take_drop_id)

fun split_on :: "char \<Rightarrow> string \<Rightarrow> string list" where
  "split_on d [] = [[]]"
| "split_on d (c # s) =
     (if c = d then [] # split_on d s
      else (case split_on d s of [] \<Rightarrow> [[c]] | w # ws \<Rightarrow> (c # w) # ws))"

lemma split_on_not_Nil [simp]: "split_on d s \<noteq> []"
  by (cases s) (auto split: list.splits)

fun join_with :: "char \<Rightarrow> string list \<Rightarrow> string" where
  "join_with d [] = []"
| "join_with d [w] = w"
| "join_with d (w # ws) = w @ d # join_with d ws"

lemma join_split: "join_with d (split_on d s) = s"
proof (induction s)
  case Nil
  then show ?case by simp
next
  case (Cons c s)
  obtain w ws where ws: "split_on d s = w # ws"
    by (cases "split_on d s") auto
  with Cons show ?case
    by (cases ws) (auto split: if_splits)
qed

lemma split_on_no_sep: "w \<in> set (split_on d s) \<Longrightarrow> d \<notin> set w"
proof (induction s arbitrary: w)
  case Nil
  then show ?case by simp
next
  case (Cons c s)
  obtain v vs where vs: "split_on d s = v # vs"
    by (cases "split_on d s") auto
  with Cons show ?case
    by (auto split: if_splits)
qed

lemma split_on_append:
  "split_on d (s @ d # t) = split_on d s @ split_on d t"
proof (induction s)
  case Nil
  then show ?case by simp
next
  case (Cons c s)
  obtain v vs where vs: "split_on d s = v # vs"
    by (cases "split_on d s") auto
  with Cons show ?case
    by (cases "split_on d t") auto
qed

lemma split_on_single: "d \<notin> set w \<Longrightarrow> split_on d w = [w]"
  by (induction w) auto

text \<open>
  \<open>strings.ToLower\<close> on its ASCII path. Where the sources lower a string that may hold other
  runes they reject such a string in the same condition, as each use notes.
\<close>

definition lower_char :: "char \<Rightarrow> char" where
  "lower_char c = (if 65 \<le> (of_char c :: nat) \<and> (of_char c :: nat) \<le> 90
                   then char_of ((of_char c :: nat) + 32) else c)"

definition to_lower :: "string \<Rightarrow> string" where
  "to_lower s = map lower_char s"

lemma length_to_lower [simp]: "length (to_lower s) = length s"
  by (simp add: to_lower_def)

text \<open>
  \<open>unicode.IsSpace\<close>, and whether \<open>strings.TrimSpace s == s\<close>: the first and the last rune
  are no white space.
\<close>

definition is_space :: "nat \<Rightarrow> bool" where
  "is_space r \<longleftrightarrow> (9 \<le> r \<and> r \<le> 13) \<or> r = 32 \<or> r = 133 \<or> r = 160 \<or> r = 5760 \<or>
     (8192 \<le> r \<and> r \<le> 8202) \<or> r = 8232 \<or> r = 8233 \<or> r = 8239 \<or> r = 8287 \<or> r = 12288"

definition trimmed :: "string \<Rightarrow> bool" where
  "trimmed s \<longleftrightarrow> s = [] \<or> (\<not> is_space (hd (runes s)) \<and> \<not> is_space (last (runes s)))"

text \<open>\<open>fs.ValidPath\<close>: \<open>.\<close>, or slash-separated elements none of which is empty, \<open>.\<close> or \<open>..\<close>.\<close>

definition path_elem :: "string \<Rightarrow> bool" where
  "path_elem e \<longleftrightarrow> e \<noteq> [] \<and> e \<noteq> ''.'' \<and> e \<noteq> ''..''"

definition valid_path :: "string \<Rightarrow> bool" where
  "valid_path s \<longleftrightarrow> valid_string s \<and>
     (s = ''.'' \<or> list_all path_elem (split_on CHR ''/'' s))"

text \<open>
  \<open>filepath.Base\<close>, and \<open>path.Clean\<close> (which \<open>filepath.Clean\<close> is on the target): the elements
  of the path are read left to right, empty ones and \<open>.\<close> are dropped and \<open>..\<close> removes the
  element before it, at the root of an absolute path without effect.
\<close>

definition path_base :: "string \<Rightarrow> string" where
  "path_base p =
     (if p = [] then ''.''
      else let q = rev (dropWhile (\<lambda>c. c = CHR ''/'') (rev p));
               r = rev (takeWhile (\<lambda>c. c \<noteq> CHR ''/'') (rev q))
           in if r = [] then ''/'' else r)"

fun clean_elems :: "bool \<Rightarrow> string list \<Rightarrow> string list \<Rightarrow> string list" where
  "clean_elems rooted out [] = rev out"
| "clean_elems rooted out (e # es) =
     (if e = [] \<or> e = ''.'' then clean_elems rooted out es
      else if e = ''..'' then
        (case out of
           [] \<Rightarrow> clean_elems rooted (if rooted then [] else [''..'']) es
         | x # xs \<Rightarrow> clean_elems rooted (if x = ''..'' then ''..'' # out else xs) es)
      else clean_elems rooted (e # out) es)"

definition path_clean :: "string \<Rightarrow> string" where
  "path_clean p =
     (if p = [] then ''.''
      else let rooted = (hd p = CHR ''/'');
               out = join_with CHR ''/'' (clean_elems rooted [] (split_on CHR ''/'' p))
           in if rooted then CHR ''/'' # out else if out = [] then ''.'' else out)"

definition lower_rune :: "nat \<Rightarrow> bool" where
  "lower_rune r \<longleftrightarrow> 97 \<le> r \<and> r \<le> 122"

definition upper_rune :: "nat \<Rightarrow> bool" where
  "upper_rune r \<longleftrightarrow> 65 \<le> r \<and> r \<le> 90"

definition digit_rune :: "nat \<Rightarrow> bool" where
  "digit_rune r \<longleftrightarrow> 48 \<le> r \<and> r \<le> 57"

lemmas rune_class_defs [go_defs] = lower_rune_def upper_rune_def digit_rune_def

subsection \<open>Bounded reads\<close>

text \<open>
  A reader delivers some bytes and then either ends or fails.
  \<open>io.ReadAll(io.LimitReader(r, n))\<close> reads at most \<open>n\<close> of them and meets the failure only
  when fewer than \<open>n\<close> bytes come before it.
\<close>

type_synonym reader = "string \<times> bool"

definition read_limited :: "nat \<Rightarrow> reader \<Rightarrow> string option" where
  "read_limited n r =
     (if n \<le> length (fst r) then Some (take n (fst r))
      else if snd r then None else Some (fst r))"

definition reader_of :: "string \<Rightarrow> reader" where
  "reader_of s = (s, False)"

lemma read_limited_whole: "length s < n \<Longrightarrow> read_limited n (reader_of s) = Some s"
  by (simp add: read_limited_def reader_of_def)

subsection \<open>Membership in a Go map used as a set\<close>

text \<open>
  A loop that rejects an element whose key is already in a map and then adds it accepts
  exactly the lists whose keys are new and pairwise distinct.
\<close>

lemma distinct_seen_Cons:
  "(x \<notin> seen \<and> distinct xs \<and> set xs \<inter> insert x seen = {}) \<longleftrightarrow>
   (distinct (x # xs) \<and> set (x # xs) \<inter> seen = {})"
  by auto

subsection \<open>Revisioned documents\<close>

text \<open>
  Every durable document of the program carries a 64-bit revision that an accepted change
  raises by exactly one and never from the largest value. The locale states that contract
  for a validity predicate, a revision and a step relation; a run of steps then keeps
  validity and raises the revision by the number of steps, with no wrap-around.
\<close>

lemma unat_Suc_u64: "(w :: u64) \<noteq> - 1 \<Longrightarrow> unat (w + 1) = Suc (unat w)"
  using unatSuc [of w] by (simp add: add_eq_0_iff add.commute)

locale revisioned =
  fixes valid :: "'d \<Rightarrow> bool" and revision :: "'d \<Rightarrow> u64" and step :: "'d \<Rightarrow> 'd \<Rightarrow> bool"
  assumes step_valid: "valid d \<Longrightarrow> step d d' \<Longrightarrow> valid d'"
    and step_revision: "valid d \<Longrightarrow> step d d' \<Longrightarrow> revision d \<noteq> - 1 \<and> revision d' = revision d + 1"
begin

lemma steps_valid: "step\<^sup>*\<^sup>* d d' \<Longrightarrow> valid d \<Longrightarrow> valid d'"
  by (induction rule: rtranclp_induct) (auto intro: step_valid)

lemma relpow_valid: "(step ^^ n) d d' \<Longrightarrow> valid d \<Longrightarrow> valid d'"
  by (induction n arbitrary: d') (auto intro: step_valid)

lemma relpow_revision:
  "(step ^^ n) d d' \<Longrightarrow> valid d \<Longrightarrow> unat (revision d') = unat (revision d) + n"
proof (induction n arbitrary: d')
  case 0
  then show ?case by simp
next
  case (Suc n)
  then obtain m where m: "(step ^^ n) d m" "step m d'" by auto
  then have "valid m" using Suc.prems relpow_valid by blast
  with m show ?case using Suc step_revision [of m d'] by (simp add: unat_Suc_u64)
qed

lemma step_increases: "valid d \<Longrightarrow> step d d' \<Longrightarrow> revision d < revision d'"
  using step_revision [of d d'] unat_Suc_u64 [of "revision d"] by (simp add: word_less_nat_alt)

end

subsection \<open>Decimal numbers\<close>

text \<open>\<open>strconv.ParseUint\<close> in base 10 at a bit size, and \<open>strconv.FormatUint\<close>.\<close>

definition dec_digit :: "char \<Rightarrow> bool" where
  "dec_digit c \<longleftrightarrow> 48 \<le> (of_char c :: nat) \<and> (of_char c :: nat) \<le> 57"

definition dec_value :: "string \<Rightarrow> nat" where
  "dec_value s = foldl (\<lambda>n c. 10 * n + (of_char c - 48)) 0 s"

definition parse_uint :: "nat \<Rightarrow> string \<Rightarrow> nat option" where
  "parse_uint bits s =
     (if s = [] \<or> \<not> list_all dec_digit s then None
      else if dec_value s < 2 ^ bits then Some (dec_value s) else None)"

fun format_uint :: "nat \<Rightarrow> string" where
  "format_uint n = (if n < 10 then [char_of (48 + n)] else format_uint (n div 10) @ [char_of (48 + n mod 10)])"

declare format_uint.simps [simp del]

lemma dec_value_snoc: "dec_value (s @ [c]) = 10 * dec_value s + (of_char c - 48)"
  by (simp add: dec_value_def)

lemma dec_value_format [simp]: "dec_value (format_uint n) = n"
proof (induction n rule: format_uint.induct)
  case (1 n)
  show ?case
  proof (cases "n < 10")
    case True
    then show ?thesis by (subst format_uint.simps) (simp add: dec_value_def)
  next
    case False
    moreover have "48 + n mod 10 < 256" using mod_less_divisor [of 10 n] by linarith
    ultimately show ?thesis using 1 by (subst format_uint.simps) (simp add: dec_value_snoc)
  qed
qed

lemma format_uint_digits: "format_uint n \<noteq> [] \<and> list_all dec_digit (format_uint n)"
proof (induction n rule: format_uint.induct)
  case (1 n)
  have "48 + n mod 10 \<le> 57" using mod_less_divisor [of 10 n] by linarith
  then have "dec_digit (char_of (48 + n mod 10))" by (simp add: dec_digit_def)
  moreover have "n < 10 \<Longrightarrow> dec_digit (char_of (48 + n))" by (simp add: dec_digit_def)
  ultimately show ?case using 1
    by (cases "n < 10"; subst (1 2) format_uint.simps) simp_all
qed

lemma parse_format_uint: "n < 2 ^ bits \<Longrightarrow> parse_uint bits (format_uint n) = Some n"
  using format_uint_digits [of n] by (simp add: parse_uint_def)

end
