(* ===== verification/Revision_Store.thy ===== *)
theory Revision_Store
  imports Go_Base
begin

section \<open>Single-document transactions\<close>

text \<open>
  The model of \<open>internal/revisionstore/store_linux.go\<close>: a store keeps one JSON document in one file of a private directory, replaces it by
  writing a pending file, syncing it and renaming it over the current one, and refuses
  every replacement whose expected revision is not the one on disk.

  The kernel is not part of the sources. It is the parameter \<open>K\<close>: a record with one function
  per system call the code makes, each taking and returning the state of the world, so that
  any call may fail and anything may happen between two calls. The document type and its
  codec are parameters as they are in the Go code (\<open>Codec[T]\<close>), together with
  \<open>json.Marshal\<close> at that type. The locale \<open>posix_dir\<close> states what POSIX and the local
  filesystem promise about these calls, power cuts included, and the locale \<open>doc_codec\<close> what
  the comment on \<open>Codec\<close> demands of a codec. The lemmas on \<open>load\<close>, \<open>commit\<close> and sequences of
  commits are proved from these two contracts.
\<close>

unbundle bit_operations_syntax

subsection \<open>System calls\<close>

datatype errno = ENOENT | EWOULDBLOCK | EOTHER

record stat_t =
  st_dev :: u64
  st_ino :: u64
  st_nlink :: u64
  st_mode :: u32
  st_uid :: u32
  st_gid :: u32
  st_size :: int
  st_mtim :: "int \<times> int"
  st_ctim :: "int \<times> int"

definition S_IFMT :: u32 where "S_IFMT = 0xF000"
definition S_IFREG :: u32 where "S_IFREG = 0x8000"
definition S_IFDIR :: u32 where "S_IFDIR = 0x4000"
definition perm_mask :: u32 where "perm_mask = 0xFFF"
definition mode_0600 :: u32 where "mode_0600 = 0x180"
definition mode_0700 :: u32 where "mode_0700 = 0x1C0"

text \<open>
  The calls on the retained directory descriptor and on the files opened below it. A file
  descriptor is a number. A call that returns only success or failure returns a \<open>bool\<close>;
  \<open>k_write\<close> returns the count and whether there was an error; \<open>k_read\<close> is the reader the
  open file is for \<open>Decode\<close>.
\<close>

record 'w kernel =
  k_geteuid :: u32
  k_open_dir :: "string \<Rightarrow> 'w \<Rightarrow> bool \<times> 'w"
  k_fstat_dir :: "'w \<Rightarrow> stat_t option \<times> 'w"
  k_flock :: "'w \<Rightarrow> errno option \<times> 'w"
  k_close_dir :: "'w \<Rightarrow> bool \<times> 'w"
  k_fsync_dir :: "'w \<Rightarrow> bool \<times> 'w"
  k_fstatat :: "string \<Rightarrow> 'w \<Rightarrow> (errno + stat_t) \<times> 'w"
  k_openat :: "bool \<Rightarrow> string \<Rightarrow> 'w \<Rightarrow> (errno + nat) \<times> 'w"
  k_fstat :: "nat \<Rightarrow> 'w \<Rightarrow> stat_t option \<times> 'w"
  k_read :: "nat \<Rightarrow> 'w \<Rightarrow> reader \<times> 'w"
  k_fsync :: "nat \<Rightarrow> 'w \<Rightarrow> bool \<times> 'w"
  k_close :: "nat \<Rightarrow> 'w \<Rightarrow> bool \<times> 'w"
  k_unlinkat :: "string \<Rightarrow> 'w \<Rightarrow> bool \<times> 'w"
  k_create :: "string \<Rightarrow> 'w \<Rightarrow> nat option \<times> 'w"
  k_write :: "nat \<Rightarrow> string \<Rightarrow> 'w \<Rightarrow> (nat \<times> bool) \<times> 'w"
  k_rename :: "string \<Rightarrow> string \<Rightarrow> 'w \<Rightarrow> bool \<times> 'w"

subsection \<open>Codec and store\<close>

datatype ctx_error = Canceled | DeadlineExceeded

datatype store_error =
    ErrNotInitialized | ErrConflict | ErrInvalid | ErrUnsafe | ErrBusy | ErrIO | ErrUncertain | ErrClosed

text \<open>
  \<open>codec_complete\<close> says that the three function fields are not nil; an absent
  \<open>ValidateTransition\<close> is \<open>None\<close>. A function of the codec that returns an error is an
  \<open>option\<close> or a \<open>bool\<close>: the store only asks whether there was one.
\<close>

record 'd codec =
  codec_current_name :: string
  codec_pending_name :: string
  codec_max_bytes :: int
  codec_complete :: bool
  codec_decode :: "reader \<Rightarrow> 'd option"
  codec_validate :: "'d \<Rightarrow> bool"
  codec_revision :: "'d \<Rightarrow> u64"
  codec_transition :: "('d \<Rightarrow> 'd \<Rightarrow> bool) option"
  codec_marshal :: "'d \<Rightarrow> string option"

definition valid_name :: "string \<Rightarrow> bool" where
  "valid_name name \<longleftrightarrow> length name > 0 \<and> length name \<le> 64 \<and> name \<noteq> ''.'' \<and> name \<noteq> ''..'' \<and>
     path_base name = name"

definition codec_valid :: "'d codec \<Rightarrow> bool" where
  "codec_valid c \<longleftrightarrow> valid_name (codec_current_name c) \<and> valid_name (codec_pending_name c) \<and>
     codec_current_name c \<noteq> codec_pending_name c \<and>
     codec_max_bytes c > 0 \<and> codec_max_bytes c \<le> 1048576 \<and> codec_complete c"

record 'd store =
  store_ready :: bool
  store_closed :: bool
  store_uncertain :: bool
  store_noatime :: bool
  store_codec :: "'d codec"

subsection \<open>Operations\<close>

definition store_check :: "'d store \<Rightarrow> store_error option" where
  "store_check s =
     (if \<not> store_ready s \<or> store_closed s then Some ErrClosed
      else if store_uncertain s then Some ErrUncertain
      else None)"

definition not_found :: "errno \<Rightarrow> store_error" where
  "not_found e = (if e = ENOENT then ErrNotInitialized else ErrUnsafe)"

definition current_stat_ok :: "'w kernel \<Rightarrow> 'd store \<Rightarrow> stat_t \<Rightarrow> stat_t \<Rightarrow> bool" where
  "current_stat_ok K s st0 st \<longleftrightarrow>
     st_mode st AND S_IFMT = S_IFREG \<and> st_mode st AND perm_mask = mode_0600 \<and>
     st_uid st = k_geteuid K \<and> st_nlink st = 1 \<and>
     st_size st \<le> codec_max_bytes (store_codec s) \<and>
     st_dev st = st_dev st0 \<and> st_ino st = st_ino st0"

definition open_current :: "'w kernel \<Rightarrow> 'd store \<Rightarrow> 'w \<Rightarrow> (store_error + nat) \<times> 'w" where
  "open_current K s w =
     (let name = codec_current_name (store_codec s) in
      case k_fstatat K name w of
        (Inl e, w1) \<Rightarrow> (Inl (not_found e), w1)
      | (Inr st0, w1) \<Rightarrow>
          if st_mode st0 AND S_IFMT \<noteq> S_IFREG then (Inl ErrUnsafe, w1)
          else (case k_openat K (store_noatime s) name w1 of
            (Inl e, w2) \<Rightarrow> (Inl (not_found e), w2)
          | (Inr fd, w2) \<Rightarrow> (case k_fstat K fd w2 of
              (None, w3) \<Rightarrow> (Inl ErrUnsafe, snd (k_close K fd w3))
            | (Some st, w3) \<Rightarrow>
                if current_stat_ok K s st0 st then (Inr fd, w3)
                else (Inl ErrUnsafe, snd (k_close K fd w3)))))"

definition sync_current :: "'w kernel \<Rightarrow> 'd store \<Rightarrow> 'w \<Rightarrow> store_error option \<times> 'w" where
  "sync_current K s w =
     (let sync_dir = (\<lambda>v. case k_fsync_dir K v of (ok, v') \<Rightarrow> (if ok then None else Some ErrIO, v')) in
      case open_current K s w of
        (Inl e, w1) \<Rightarrow> if e \<noteq> ErrNotInitialized then (Some e, w1) else sync_dir w1
      | (Inr fd, w1) \<Rightarrow> (case k_fsync K fd w1 of
          (sync_ok, w2) \<Rightarrow> (case k_close K fd w2 of
            (close_ok, w3) \<Rightarrow> if \<not> sync_ok \<or> \<not> close_ok then (Some ErrIO, w3) else sync_dir w3)))"

text \<open>The unexported \<open>load\<close>, then \<open>Load\<close>.\<close>

definition load_current :: "'w kernel \<Rightarrow> 'd store \<Rightarrow> 'w \<Rightarrow> (store_error + 'd) \<times> 'w" where
  "load_current K s w =
     (case open_current K s w of
        (Inl e, w1) \<Rightarrow> (Inl e, w1)
      | (Inr fd, w1) \<Rightarrow> (case k_read K fd w1 of
          (r, w2) \<Rightarrow> (case k_close K fd w2 of
            (close_ok, w3) \<Rightarrow> (case codec_decode (store_codec s) r of
              None \<Rightarrow> (Inl ErrInvalid, w3)
            | Some d \<Rightarrow> if close_ok then (Inr d, w3) else (Inl ErrIO, w3)))))"

definition store_load :: "'w kernel \<Rightarrow> 'd store \<Rightarrow> 'w \<Rightarrow> (store_error + 'd) \<times> 'w" where
  "store_load K s w =
     (case store_check s of Some e \<Rightarrow> (Inl e, w) | None \<Rightarrow> load_current K s w)"

text \<open>
  \<open>Commit\<close> in three parts: the checks on the argument and on the document on disk
  (lines 236 to 267), the pending file (268 to 298), and its publication (299 to 307).
\<close>

definition commit_input :: "'d store \<Rightarrow> u64 \<Rightarrow> 'd \<Rightarrow> store_error + string \<times> 'd" where
  "commit_input s expected next =
     (let c = store_codec s in
      if expected = - 1 \<or> codec_revision c next \<noteq> expected + 1 then Inl ErrConflict
      else if \<not> codec_validate c next then Inl ErrInvalid
      else case codec_marshal c next of
        None \<Rightarrow> Inl ErrInvalid
      | Some data \<Rightarrow>
          if int (length data) > codec_max_bytes c then Inl ErrInvalid
          else (case codec_decode c (reader_of data) of
            None \<Rightarrow> Inl ErrInvalid
          | Some persisted \<Rightarrow> Inr (data, persisted)))"

definition commit_current ::
  "'w kernel \<Rightarrow> 'd store \<Rightarrow> u64 \<Rightarrow> 'd \<Rightarrow> 'w \<Rightarrow> store_error option \<times> 'w" where
  "commit_current K s expected persisted w =
     (let c = store_codec s in
      case load_current K s w of
        (Inl e, w1) \<Rightarrow>
          (if e \<noteq> ErrNotInitialized then Some e
           else if 0 \<noteq> expected then Some ErrConflict else None, w1)
      | (Inr current, w1) \<Rightarrow>
          (if codec_revision c current \<noteq> expected then Some ErrConflict
           else if codec_revision c current \<noteq> 0 \<and>
             (case codec_transition c of None \<Rightarrow> False | Some t \<Rightarrow> \<not> t current persisted)
           then Some ErrInvalid else None, w1))"

definition pending_stat_ok :: "'w kernel \<Rightarrow> stat_t \<Rightarrow> bool" where
  "pending_stat_ok K st \<longleftrightarrow>
     st_mode st AND S_IFMT = S_IFREG \<and> st_mode st AND perm_mask = mode_0600 \<and>
     st_uid st = k_geteuid K \<and> st_nlink st = 1"

definition discard_pending :: "'w kernel \<Rightarrow> 'd store \<Rightarrow> 'w \<Rightarrow> store_error option \<times> 'w" where
  "discard_pending K s w =
     (let name = codec_pending_name (store_codec s) in
      case k_fstatat K name w of
        (Inl e, w1) \<Rightarrow> (if e \<noteq> ENOENT then Some ErrIO else None, w1)
      | (Inr st, w1) \<Rightarrow>
          if \<not> pending_stat_ok K st then (Some ErrUnsafe, w1)
          else (case k_unlinkat K name w1 of (ok, w2) \<Rightarrow> (if ok then None else Some ErrIO, w2)))"

definition write_pending :: "'w kernel \<Rightarrow> 'd store \<Rightarrow> string \<Rightarrow> 'w \<Rightarrow> store_error option \<times> 'w" where
  "write_pending K s data w =
     (case k_create K (codec_pending_name (store_codec s)) w of
        (None, w1) \<Rightarrow> (Some ErrIO, w1)
      | (Some fd, w1) \<Rightarrow> (case k_write K fd data w1 of
          ((n, write_err), w2) \<Rightarrow>
            (case (if \<not> write_err \<and> n = length data then k_fsync K fd w2 else (True, w2)) of
              (sync_ok, w3) \<Rightarrow> (case k_close K fd w3 of
                (close_ok, w4) \<Rightarrow>
                  (if write_err \<or> n \<noteq> length data \<or> \<not> sync_ok \<or> \<not> close_ok then Some ErrIO else None,
                   w4)))))"

definition publish :: "'w kernel \<Rightarrow> 'd store \<Rightarrow> 'w \<Rightarrow> store_error option \<times> 'd store \<times> 'w" where
  "publish K s w =
     (case k_rename K (codec_pending_name (store_codec s)) (codec_current_name (store_codec s)) w of
        (ok, w1) \<Rightarrow>
          if \<not> ok then (Some ErrUncertain, s\<lparr>store_uncertain := True\<rparr>, w1)
          else (case k_fsync_dir K w1 of
            (ok, w2) \<Rightarrow> if \<not> ok then (Some ErrUncertain, s\<lparr>store_uncertain := True\<rparr>, w2)
                       else (None, s, w2)))"

definition replace_current ::
  "'w kernel \<Rightarrow> 'd store \<Rightarrow> string \<Rightarrow> 'w \<Rightarrow> store_error option \<times> 'd store \<times> 'w" where
  "replace_current K s data w =
     (case discard_pending K s w of
        (Some e, w1) \<Rightarrow> (Some e, s, w1)
      | (None, w1) \<Rightarrow> (case write_pending K s data w1 of
          (Some e, w2) \<Rightarrow> (Some e, s, w2)
        | (None, w2) \<Rightarrow> publish K s w2))"

definition store_commit ::
  "'w kernel \<Rightarrow> 'd store \<Rightarrow> u64 \<Rightarrow> 'd \<Rightarrow> 'w \<Rightarrow> store_error option \<times> 'd store \<times> 'w" where
  "store_commit K s expected next w =
     (case store_check s of
        Some e \<Rightarrow> (Some e, s, w)
      | None \<Rightarrow> (case commit_input s expected next of
          Inl e \<Rightarrow> (Some e, s, w)
        | Inr (data, persisted) \<Rightarrow> (case commit_current K s expected persisted w of
            (Some e, w1) \<Rightarrow> (Some e, s, w1)
          | (None, w1) \<Rightarrow> replace_current K s data w1)))"

definition store_close :: "'w kernel \<Rightarrow> 'd store \<Rightarrow> 'w \<Rightarrow> store_error option \<times> 'd store \<times> 'w" where
  "store_close K s w =
     (if \<not> store_ready s \<or> store_closed s then (None, s, w)
      else (case k_close_dir K w of
        (ok, w1) \<Rightarrow> (if ok then None else Some ErrIO, s\<lparr>store_closed := True\<rparr>, w1)))"

text \<open>The constructors. A failed one returns no store; the descriptor is closed.\<close>

definition open_descriptor_with_codec ::
  "'w kernel \<Rightarrow> 'd codec \<Rightarrow> 'w \<Rightarrow> (store_error + 'd store) \<times> 'w" where
  "open_descriptor_with_codec K codec w =
     (let s = \<lparr>store_ready = True, store_closed = False, store_uncertain = False,
               store_noatime = False, store_codec = codec\<rparr>;
          fail = (\<lambda>e v. (Inl e, snd (k_close_dir K v))) in
      case k_fstat_dir K w of
        (None, w1) \<Rightarrow> fail ErrUnsafe w1
      | (Some st, w1) \<Rightarrow>
          if st_mode st AND perm_mask \<noteq> mode_0700 \<or> st_uid st \<noteq> k_geteuid K then fail ErrUnsafe w1
          else (case k_flock K w1 of
            (Some e, w2) \<Rightarrow> fail (if e = EWOULDBLOCK then ErrBusy else ErrIO) w2
          | (None, w2) \<Rightarrow> (case load_current K s w2 of
              (r, w3) \<Rightarrow>
                if (case r of Inl e \<Rightarrow> e \<noteq> ErrNotInitialized | Inr _ \<Rightarrow> False)
                then fail (case r of Inl e \<Rightarrow> e | Inr _ \<Rightarrow> ErrIO) w3
                else (case sync_current K s w3 of
                  (Some e, w4) \<Rightarrow> fail e w4
                | (None, w4) \<Rightarrow> (Inr s, w4)))))"

definition open_with_codec ::
  "'w kernel \<Rightarrow> string \<Rightarrow> 'd codec \<Rightarrow> 'w \<Rightarrow> (store_error + 'd store) \<times> 'w" where
  "open_with_codec K directory codec w =
     (if \<not> codec_valid codec then (Inl ErrUnsafe, w)
      else if \<not> has_prefix directory ''/'' \<or> path_clean directory \<noteq> directory then (Inl ErrUnsafe, w)
      else (case k_open_dir K directory w of
        (False, w1) \<Rightarrow> (Inl ErrUnsafe, w1)
      | (True, w1) \<Rightarrow> open_descriptor_with_codec K codec w1))"

subsection \<open>What the kernel promises\<close>

text \<open>
  Four views of a world: \<open>dv w n\<close> is the content of the entry \<open>n\<close> of the directory as a
  reader sees it, \<open>fv w fd\<close> the entry an open descriptor is on, \<open>syn w n\<close> says that the
  content of \<open>n\<close> is on stable storage, and \<open>cr w n\<close> are the contents \<open>n\<close> may have after a
  power cut in \<open>w\<close> (\<open>None\<close>: no such entry). The system may write data back at any time, so
  \<open>syn\<close> may grow and \<open>cr\<close> may shrink without a call.
\<close>

definition keeps ::
  "('w \<Rightarrow> string \<Rightarrow> string option) \<Rightarrow> ('w \<Rightarrow> string \<Rightarrow> bool) \<Rightarrow> ('w \<Rightarrow> string \<Rightarrow> string option set) \<Rightarrow>
   string set \<Rightarrow> 'w \<Rightarrow> 'w \<Rightarrow> bool" where
  "keeps dv syn cr X w w' \<longleftrightarrow>
     (\<forall>n. n \<notin> X \<longrightarrow> dv w' n = dv w n \<and> (syn w n \<longrightarrow> syn w' n) \<and> cr w' n \<subseteq> cr w n)"

lemma keeps_refl [simp]: "keeps dv syn cr X w w"
  by (simp add: keeps_def)

lemma keeps_trans: "keeps dv syn cr X w w' \<Longrightarrow> keeps dv syn cr X w' w'' \<Longrightarrow> keeps dv syn cr X w w''"
  unfolding keeps_def by (metis order_trans)

lemma keeps_mono: "keeps dv syn cr X w w' \<Longrightarrow> X \<subseteq> Y \<Longrightarrow> keeps dv syn cr Y w w'"
  by (auto simp: keeps_def)

locale posix_dir =
  fixes K :: "'w kernel"
    and dv :: "'w \<Rightarrow> string \<Rightarrow> string option"
    and fv :: "'w \<Rightarrow> nat \<Rightarrow> string option"
    and syn :: "'w \<Rightarrow> string \<Rightarrow> bool"
    and cr :: "'w \<Rightarrow> string \<Rightarrow> string option set"
  assumes open_dir: "k_open_dir K d w = (ok, w') \<Longrightarrow> keeps dv syn cr {} w w'"
    and fstat_dir: "k_fstat_dir K w = (st, w') \<Longrightarrow> keeps dv syn cr {} w w'"
    and flock: "k_flock K w = (e, w') \<Longrightarrow> keeps dv syn cr {} w w'"
    and close_dir: "k_close_dir K w = (ok, w') \<Longrightarrow> keeps dv syn cr {} w w'"
    and fsync_dir: "k_fsync_dir K w = (ok, w') \<Longrightarrow> keeps dv syn cr {} w w' \<and>
      (ok \<longrightarrow> (\<forall>n. dv w n = None \<or> syn w n \<longrightarrow> cr w' n \<subseteq> {dv w n}))"
    and fstatat: "k_fstatat K n w = (rs, w') \<Longrightarrow> keeps dv syn cr {} w w' \<and>
      (rs = Inl ENOENT \<longrightarrow> dv w n = None)"
    and openat: "k_openat K b n w = (ro, w') \<Longrightarrow> keeps dv syn cr {} w w' \<and>
      (ro = Inl ENOENT \<longrightarrow> dv w n = None) \<and>
      (\<forall>fd. ro = Inr fd \<longrightarrow> dv w n \<noteq> None \<and> fv w' fd = Some n)"
    and fstat: "k_fstat K fd w = (st, w') \<Longrightarrow> keeps dv syn cr {} w w' \<and> fv w' fd = fv w fd"
    and read: "k_read K fd w = (rr, w') \<Longrightarrow> keeps dv syn cr {} w w' \<and> fv w' fd = fv w fd \<and>
      (\<forall>n. fv w fd = Some n \<and> \<not> snd rr \<longrightarrow> dv w n = Some (fst rr))"
    and fsync: "k_fsync K fd w = (ok, w') \<Longrightarrow> keeps dv syn cr {} w w' \<and> fv w' fd = fv w fd \<and>
      (ok \<longrightarrow> (\<forall>n. fv w fd = Some n \<longrightarrow> syn w' n))"
    and close: "k_close K fd w = (ok, w') \<Longrightarrow> keeps dv syn cr {} w w'"
    and unlinkat: "k_unlinkat K n w = (ok, w') \<Longrightarrow> keeps dv syn cr {n} w w'"
    and create: "k_create K n w = (rc, w') \<Longrightarrow> keeps dv syn cr {n} w w' \<and>
      (\<forall>fd. rc = Some fd \<longrightarrow> dv w' n = Some [] \<and> fv w' fd = Some n)"
    and write_data: "k_write K fd data w = ((m, err), w') \<Longrightarrow> fv w fd = Some n \<Longrightarrow> dv w n = Some c \<Longrightarrow>
      keeps dv syn cr {n} w w' \<and> fv w' fd = Some n \<and>
      (\<not> err \<and> m = length data \<longrightarrow> dv w' n = Some (c @ data))"
    and rename: "k_rename K p q w = (ok, w') \<Longrightarrow> p \<noteq> q \<Longrightarrow>
      (keeps dv syn cr {p, q} w w' \<and> dv w' q = dv w p \<and> (syn w p \<longrightarrow> syn w' q) \<and>
       (syn w p \<longrightarrow> cr w' q \<subseteq> cr w q \<union> {dv w p})) \<or>
      (\<not> ok \<and> keeps dv syn cr {} w w')"

text \<open>
  What the comment on \<open>Codec\<close> demands: decoding fails on a failing reader and enforces the
  schema, in which a revision is never 0; what \<open>json.Marshal\<close> writes for a valid document, if
  it decodes at all, decodes to that document.
\<close>

locale doc_codec =
  fixes C :: "'d codec"
  assumes codec_ok: "codec_valid C"
    and decode_fails: "codec_decode C (bs, True) = None"
    and decode_valid: "codec_decode C r = Some d \<Longrightarrow> codec_validate C d \<and> codec_revision C d \<noteq> 0"
    and decode_marshal: "codec_validate C d \<Longrightarrow> codec_marshal C d = Some bs \<Longrightarrow>
      codec_decode C (reader_of bs) = Some d' \<Longrightarrow> d' = d"

text \<open>The document a reader of the current file would decode.\<close>

definition doc_at :: "('w \<Rightarrow> string \<Rightarrow> string option) \<Rightarrow> 'd codec \<Rightarrow> 'w \<Rightarrow> 'd option" where
  "doc_at dv C w = (case dv w (codec_current_name C) of
     None \<Rightarrow> None | Some bs \<Rightarrow> codec_decode C (reader_of bs))"

definition crash_docs ::
  "('w \<Rightarrow> string \<Rightarrow> string option set) \<Rightarrow> 'd codec \<Rightarrow> 'w \<Rightarrow> 'd option set" where
  "crash_docs cr C w = (\<lambda>c. case c of None \<Rightarrow> None | Some bs \<Rightarrow> codec_decode C (reader_of bs)) `
     cr w (codec_current_name C)"

definition settled ::
  "('w \<Rightarrow> string \<Rightarrow> string option) \<Rightarrow> ('w \<Rightarrow> string \<Rightarrow> string option set) \<Rightarrow> 'd codec \<Rightarrow> 'w \<Rightarrow> bool" where
  "settled dv cr C w \<longleftrightarrow> cr w (codec_current_name C) \<subseteq> {dv w (codec_current_name C)}"

lemma settled_crash_docs: "settled dv cr C w \<Longrightarrow> crash_docs cr C w \<subseteq> {doc_at dv C w}"
  by (auto simp: settled_def crash_docs_def doc_at_def)

lemma crash_docs_mono:
  "cr w' (codec_current_name C) \<subseteq> cr w (codec_current_name C) \<union> {Some bs} \<Longrightarrow>
   crash_docs cr C w' \<subseteq> crash_docs cr C w \<union> {codec_decode C (reader_of bs)}"
  by (force simp: crash_docs_def)

text \<open>A sequence of \<open>Commit\<close> calls on one store, with their results, and the document of the
  last call that returned without error.\<close>

fun commit_run :: "'w kernel \<Rightarrow> 'd store \<Rightarrow> (u64 \<times> 'd) list \<Rightarrow> 'w \<Rightarrow>
    store_error option list \<times> 'd store \<times> 'w" where
  "commit_run K s [] w = ([], s, w)"
| "commit_run K s ((expected, d) # ops) w =
     (case store_commit K s expected d w of
        (r, s1, w1) \<Rightarrow> (case commit_run K s1 ops w1 of (rs, s2, w2) \<Rightarrow> (r # rs, s2, w2)))"

fun last_acked :: "'d option \<Rightarrow> (u64 \<times> 'd) list \<Rightarrow> store_error option list \<Rightarrow> 'd option" where
  "last_acked d0 ((expected, d) # ops) (r # rs) = last_acked (if r = None then Some d else d0) ops rs"
| "last_acked d0 _ _ = d0"

definition doc_revision :: "'d codec \<Rightarrow> 'd option \<Rightarrow> u64" where
  "doc_revision C x = (case x of None \<Rightarrow> 0 | Some d \<Rightarrow> codec_revision C d)"

locale store_env = posix_dir K dv fv syn cr + doc_codec C
  for K :: "'w kernel" and dv fv syn cr and C :: "'d codec"
begin

lemma keep_trans: "keeps dv syn cr X w w' \<Longrightarrow> keeps dv syn cr X w' w'' \<Longrightarrow> keeps dv syn cr X w w''"
  by (rule keeps_trans)

lemma names_differ: "codec_current_name C \<noteq> codec_pending_name C"
  using codec_ok by (simp add: codec_valid_def)

lemma open_current_spec:
  assumes "open_current K s w = (r, w')" "store_codec s = C"
  shows "keeps dv syn cr {} w w' \<and>
    (r = Inl ErrNotInitialized \<longrightarrow> dv w (codec_current_name C) = None) \<and>
    (\<forall>fd. r = Inr fd \<longrightarrow> fv w' fd = Some (codec_current_name C))"
proof -
  let ?n = "codec_current_name C"
  obtain r1 w1 where 1: "k_fstatat K ?n w = (r1, w1)" by fastforce
  note k1 = fstatat [OF 1]
  show ?thesis
  proof (cases r1)
    case (Inl e)
    then show ?thesis using assms 1 k1 by (auto simp: open_current_def not_found_def)
  next
    case st: (Inr st0)
    obtain r2 w2 where 2: "k_openat K (store_noatime s) ?n w1 = (r2, w2)" by fastforce
    note k2 = openat [OF 2]
    have k12: "keeps dv syn cr {} w w2" using k1 k2 by (iprover intro: keep_trans)
    show ?thesis
    proof (cases "st_mode st0 AND S_IFMT \<noteq> S_IFREG")
      case True
      then show ?thesis using assms 1 k1 st by (auto simp: open_current_def)
    next
      case reg: False
      show ?thesis
      proof (cases r2)
        case (Inl e)
        then show ?thesis using assms 1 2 k1 k2 k12 st reg
          by (auto simp: open_current_def not_found_def keeps_def)
      next
        case fd: (Inr fd)
        obtain r3 w3 where 3: "k_fstat K fd w2 = (r3, w3)" by fastforce
        obtain ok w4 where 4: "k_close K fd w3 = (ok, w4)" by fastforce
        note k3 = fstat [OF 3] and k4 = close [OF 4]
        have k13: "keeps dv syn cr {} w w3" and k14: "keeps dv syn cr {} w w4"
          using k12 k3 k4 by (iprover intro: keep_trans)+
        show ?thesis using assms 1 2 3 4 st fd reg k2 k3 k13 k14
          by (cases r3) (auto simp: open_current_def split: if_splits)
      qed
    qed
  qed
qed

lemma load_current_spec:
  assumes "load_current K s w = (r, w')" "store_codec s = C"
  shows "keeps dv syn cr {} w w' \<and>
    (r = Inl ErrNotInitialized \<longrightarrow> dv w (codec_current_name C) = None) \<and>
    (\<forall>d. r = Inr d \<longrightarrow> doc_at dv C w = Some d)"
proof -
  let ?n = "codec_current_name C"
  obtain r1 w1 where 1: "open_current K s w = (r1, w1)" by fastforce
  note k1 = open_current_spec [OF 1 assms(2)]
  show ?thesis
  proof (cases r1)
    case (Inl e)
    then show ?thesis using assms 1 k1 by (auto simp: load_current_def)
  next
    case fd: (Inr fd)
    obtain rd w2 where 2: "k_read K fd w1 = (rd, w2)" by fastforce
    obtain ok w3 where 3: "k_close K fd w2 = (ok, w3)" by fastforce
    note k2 = read [OF 2] and k3 = close [OF 3]
    have k: "keeps dv syn cr {} w w3" using k1 k2 k3 by (iprover intro: keep_trans)
    show ?thesis
    proof (cases "codec_decode C rd")
      case None
      then show ?thesis using assms 1 2 3 fd k by (auto simp: load_current_def)
    next
      case (Some d)
      then have ok: "\<not> snd rd" using decode_fails [of "fst rd"] by (cases rd) auto
      then have "dv w1 ?n = Some (fst rd)" using k1 k2 fd by simp
      then have "dv w ?n = Some (fst rd)" using k1 by (auto simp: keeps_def)
      then have "doc_at dv C w = Some d"
        using Some ok by (cases rd) (simp add: doc_at_def reader_of_def)
      then show ?thesis using assms 1 2 3 fd k Some by (auto simp: load_current_def split: if_splits)
    qed
  qed
qed

lemma discard_pending_spec:
  assumes "discard_pending K s w = (r, w')" "store_codec s = C"
  shows "keeps dv syn cr {codec_pending_name C} w w' \<and> r \<noteq> Some ErrUncertain"
proof -
  let ?n = "codec_pending_name C"
  obtain r1 w1 where 1: "k_fstatat K ?n w = (r1, w1)" by fastforce
  obtain ok w2 where 2: "k_unlinkat K ?n w1 = (ok, w2)" by fastforce
  have k1: "keeps dv syn cr {?n} w w1"
    by (rule keeps_mono [OF conjunct1 [OF fstatat [OF 1]]]) simp
  have k2: "keeps dv syn cr {?n} w w2" by (rule keep_trans [OF k1 unlinkat [OF 2]])
  show ?thesis using assms 1 2 k1 k2
    by (cases r1) (auto simp: discard_pending_def split: if_splits)
qed

lemma write_pending_spec:
  assumes "write_pending K s data w = (r, w')" "store_codec s = C"
  shows "keeps dv syn cr {codec_pending_name C} w w' \<and> r \<noteq> Some ErrUncertain \<and>
    (r = None \<longrightarrow> dv w' (codec_pending_name C) = Some data \<and> syn w' (codec_pending_name C))"
proof -
  let ?n = "codec_pending_name C"
  obtain r1 w1 where 1: "k_create K ?n w = (r1, w1)" by fastforce
  note k1 = create [OF 1]
  show ?thesis
  proof (cases r1)
    case None
    then show ?thesis using assms 1 k1 by (auto simp: write_pending_def)
  next
    case fd: (Some fd)
    obtain m err w2 where 2: "k_write K fd data w1 = ((m, err), w2)" by (metis prod.collapse)
    have k2: "keeps dv syn cr {?n} w1 w2" "fv w2 fd = Some ?n"
      "\<not> err \<and> m = length data \<longrightarrow> dv w2 ?n = Some data"
      using write_data [OF 2, of ?n "[]"] k1 fd by simp_all
    obtain so w3 where 3: "(if \<not> err \<and> m = length data then k_fsync K fd w2 else (True, w2)) = (so, w3)"
      by fastforce
    have k3: "keeps dv syn cr {} w2 w3" "\<not> err \<and> m = length data \<longrightarrow> so \<longrightarrow> syn w3 ?n"
      using 3 fsync [of fd w2 so w3] k2(2) by (auto split: if_splits)
    obtain co w4 where 4: "k_close K fd w3 = (co, w4)" by fastforce
    note k4 = close [OF 4]
    have "keeps dv syn cr {} w2 w4" by (rule keep_trans [OF k3(1) k4])
    then have "keeps dv syn cr {?n} w2 w4" and d4: "dv w4 ?n = dv w2 ?n"
      by (auto simp: keeps_def)
    then have k: "keeps dv syn cr {?n} w w4"
      using k1 k2(1) by (iprover intro: keep_trans)
    have "syn w3 ?n \<longrightarrow> syn w4 ?n" using k4 by (simp add: keeps_def)
    then show ?thesis using assms 1 2 3 4 fd k d4 k2(3) k3(2)
      by (auto simp: write_pending_def split: if_splits)
  qed
qed

lemma publish_spec:
  assumes "publish K s w = (r, s', w')" "store_codec s = C"
    "dv w (codec_pending_name C) = Some data" "syn w (codec_pending_name C)"
  shows "(r = None \<longrightarrow> s' = s \<and> dv w' (codec_current_name C) = Some data \<and>
       syn w' (codec_current_name C) \<and> cr w' (codec_current_name C) \<subseteq> {Some data}) \<and>
    (r \<noteq> None \<longrightarrow> r = Some ErrUncertain \<and> s' = s\<lparr>store_uncertain := True\<rparr>) \<and>
    dv w' (codec_current_name C) \<in> {dv w (codec_current_name C), Some data} \<and>
    cr w' (codec_current_name C) \<subseteq> cr w (codec_current_name C) \<union> {Some data}"
proof -
  let ?p = "codec_pending_name C" and ?n = "codec_current_name C"
  obtain ok w1 where 1: "k_rename K ?p ?n w = (ok, w1)" by fastforce
  obtain ok2 w2 where 2: "k_fsync_dir K w1 = (ok2, w2)" by fastforce
  have k1: "(ok \<longrightarrow> dv w1 ?n = Some data \<and> syn w1 ?n) \<and> dv w1 ?n \<in> {dv w ?n, Some data} \<and>
    cr w1 ?n \<subseteq> cr w ?n \<union> {Some data}"
    using rename [OF 1] names_differ assms(3,4) by (auto simp: keeps_def)
  have k2: "dv w2 ?n = dv w1 ?n \<and> (syn w1 ?n \<longrightarrow> syn w2 ?n) \<and> cr w2 ?n \<subseteq> cr w1 ?n \<and>
    (ok2 \<and> syn w1 ?n \<longrightarrow> cr w2 ?n \<subseteq> {dv w1 ?n})"
    using fsync_dir [OF 2] by (auto simp: keeps_def)
  show ?thesis
  proof (cases ok)
    case False
    then show ?thesis using assms 1 k1 by (auto simp: publish_def)
  next
    case True
    have c: "cr w2 ?n \<subseteq> cr w ?n \<union> {Some data}" using k1 k2 by (meson order_trans)
    show ?thesis using assms 1 2 k1 k2 c True by (cases ok2) (auto simp: publish_def)
  qed
qed

lemma load_current_errors:
  "load_current K s w = (Inl e, w') \<Longrightarrow> e \<noteq> ErrUncertain \<and> e \<noteq> ErrClosed"
  by (auto simp: load_current_def open_current_def not_found_def Let_def
      split: prod.splits sum.splits option.splits if_splits)

lemma commit_input_spec:
  assumes "commit_input s expected next = Inr (data, persisted)" "store_codec s = C"
  shows "expected \<noteq> - 1 \<and> codec_revision C next = expected + 1 \<and> codec_validate C next \<and>
    persisted = next \<and> codec_decode C (reader_of data) = Some next"
  using assms decode_marshal [of "next" data persisted]
  by (auto simp: commit_input_def Let_def split: if_splits option.splits)

text \<open>What a commit requires of the document it replaces.\<close>

lemma commit_current_spec:
  assumes "commit_current K s expected persisted w = (r, w')" "store_codec s = C"
  shows "keeps dv syn cr {} w w' \<and> r \<noteq> Some ErrUncertain \<and>
    (r = None \<longrightarrow> (expected = 0 \<and> dv w (codec_current_name C) = None) \<or>
       (\<exists>d. doc_at dv C w = Some d \<and> codec_revision C d = expected \<and>
         (\<forall>t. codec_transition C = Some t \<longrightarrow> t d persisted)))"
proof -
  obtain l w1 where 1: "load_current K s w = (l, w1)" by fastforce
  note k1 = load_current_spec [OF 1 assms(2)]
  show ?thesis
  proof (cases l)
    case (Inl e)
    then show ?thesis using assms 1 k1 load_current_errors [of s w e w1]
      by (auto simp: commit_current_def split: if_splits)
  next
    case (Inr d)
    then have d: "doc_at dv C w = Some d" using k1 by simp
    then have "codec_revision C d \<noteq> 0"
      using decode_valid by (auto simp: doc_at_def split: option.splits)
    then show ?thesis using assms 1 k1 Inr d
      by (auto simp: commit_current_def split: if_splits option.splits)
  qed
qed

text \<open>The part of \<open>Commit\<close> that changes the directory.\<close>

lemma replace_current_spec:
  assumes c: "replace_current K s data w1 = (r, s', w')"
    and s: "store_codec s = C" and d: "codec_decode C (reader_of data) = Some next"
    and k: "keeps dv syn cr {codec_pending_name C} w w1"
  shows "(r = None \<and> s' = s \<and> doc_at dv C w' = Some next \<and> settled dv cr C w') \<or>
    (r = Some ErrUncertain \<and> s' = s\<lparr>store_uncertain := True\<rparr> \<and>
      doc_at dv C w' \<in> {doc_at dv C w, Some next} \<and>
      crash_docs cr C w' \<subseteq> crash_docs cr C w \<union> {Some next}) \<or>
    (r \<noteq> None \<and> r \<noteq> Some ErrUncertain \<and> s' = s \<and> keeps dv syn cr {codec_pending_name C} w w')"
proof -
  let ?p = "codec_pending_name C" and ?n = "codec_current_name C"
  obtain r2 w2 where 2: "discard_pending K s w1 = (r2, w2)" by fastforce
  obtain r3 w3 where 3: "write_pending K s data w2 = (r3, w3)" by fastforce
  note d2 = discard_pending_spec [OF 2 s]
  note k2 = keep_trans [OF k conjunct1 [OF d2]]
  note w3 = write_pending_spec [OF 3 s]
  note k3 = keep_trans [OF k2 conjunct1 [OF w3]]
  show ?thesis
  proof (cases "r2 = None \<and> r3 = None")
    case False
    then show ?thesis using c 2 3 k2 k3 d2 w3
      by (cases r2; cases r3) (auto simp: replace_current_def)
  next
    case True
    then have p: "publish K s w3 = (r, s', w')" using c 2 3 by (simp add: replace_current_def)
    have n: "dv w3 ?n = dv w ?n" "cr w3 ?n \<subseteq> cr w ?n"
      using k3 names_differ by (auto simp: keeps_def)
    note pub = publish_spec [OF p s, of data]
    have pr: "r = None \<longrightarrow> s' = s \<and> dv w' ?n = Some data \<and> cr w' ?n \<subseteq> {Some data}"
      "r \<noteq> None \<longrightarrow> r = Some ErrUncertain \<and> s' = s\<lparr>store_uncertain := True\<rparr>"
      "dv w' ?n \<in> {dv w ?n, Some data}" "cr w' ?n \<subseteq> cr w ?n \<union> {Some data}"
      using pub w3 True n by auto
    show ?thesis
    proof (cases r)
      case None
      then show ?thesis using pr(1) d by (simp add: doc_at_def settled_def)
    next
      case (Some e)
      have "doc_at dv C w' \<in> {doc_at dv C w, Some next}" using pr(3) d by (auto simp: doc_at_def)
      then show ?thesis using Some pr(2) crash_docs_mono [of cr w' C w data, OF pr(4)] d by simp
    qed
  qed
qed

lemma store_commit_spec:
  assumes c: "store_commit K s expected next w = (r, s', w')" and s: "store_codec s = C"
  shows "(r = None \<and> s' = s \<and> store_check s = None \<and> expected \<noteq> - 1 \<and>
      codec_revision C next = expected + 1 \<and>
      (doc_at dv C w = None \<and> expected = 0 \<or>
       (\<exists>d. doc_at dv C w = Some d \<and> codec_revision C d = expected \<and>
         (\<forall>t. codec_transition C = Some t \<longrightarrow> t d next))) \<and>
      doc_at dv C w' = Some next \<and> settled dv cr C w') \<or>
    (r = Some ErrUncertain \<and> s' = s\<lparr>store_uncertain := True\<rparr> \<and> store_check s = None \<and> expected \<noteq> - 1 \<and>
      codec_revision C next = expected + 1 \<and>
      (doc_at dv C w = None \<and> expected = 0 \<or>
       (\<exists>d. doc_at dv C w = Some d \<and> codec_revision C d = expected \<and>
         (\<forall>t. codec_transition C = Some t \<longrightarrow> t d next))) \<and>
      doc_at dv C w' \<in> {doc_at dv C w, Some next} \<and>
      crash_docs cr C w' \<subseteq> crash_docs cr C w \<union> {Some next}) \<or>
    (r \<noteq> None \<and> (r = Some ErrUncertain \<longrightarrow> store_check s = Some ErrUncertain) \<and> s' = s \<and>
      keeps dv syn cr {codec_pending_name C} w w')"
    (is "?ok \<or> ?unc \<or> ?err")
proof (cases "store_check s")
  case (Some e)
  then have "r = Some e" "s' = s" "w' = w" using c by (simp_all add: store_commit_def)
  then have ?err using Some by simp
  then show ?thesis by simp
next
  case chk: None
  let ?p = "codec_pending_name C"
  show ?thesis
  proof (cases "commit_input s expected next")
    case (Inl e)
    then have "e \<noteq> ErrUncertain"
      by (auto simp: commit_input_def Let_def split: if_splits option.splits)
    then have ?err using c chk Inl by (auto simp: store_commit_def)
    then show ?thesis by simp
  next
    case inp: (Inr dp)
    obtain data persisted where dp: "dp = (data, persisted)" by fastforce
    have i: "expected \<noteq> - 1" "codec_revision C next = expected + 1" "persisted = next"
      "codec_decode C (reader_of data) = Some next"
      using commit_input_spec [OF _ s] inp dp by simp_all
    obtain r1 w1 where 1: "commit_current K s expected persisted w = (r1, w1)" by fastforce
    note k1 = commit_current_spec [OF 1 s]
    have p1: "keeps dv syn cr {?p} w w1" by (rule keeps_mono [OF conjunct1 [OF k1]]) simp
    show ?thesis
    proof (cases r1)
      case (Some e)
      then have ?err using c chk inp dp 1 k1 p1 by (auto simp: store_commit_def)
      then show ?thesis by simp
    next
      case None
      then have "replace_current K s data w1 = (r, s', w')"
        using c chk inp dp 1 by (simp add: store_commit_def)
      from replace_current_spec [OF this s i(4) p1] show ?thesis
        using k1 None chk i by (auto simp: doc_at_def)
    qed
  qed
qed

lemma sync_current_spec:
  assumes "sync_current K s w = (r, w')" "store_codec s = C"
  shows "keeps dv syn cr {} w w' \<and> (r = None \<longrightarrow> settled dv cr C w')"
proof -
  let ?n = "codec_current_name C"
  obtain r1 w1 where 1: "open_current K s w = (r1, w1)" by fastforce
  note k1 = open_current_spec [OF 1 assms(2)]
  have dir: "settled dv cr C v' \<and> keeps dv syn cr {} v v'"
    if "k_fsync_dir K v = (True, v')" "dv v ?n = None \<or> syn v ?n" for v v'
    using that(2) fsync_dir [OF that(1)] by (elim disjE; simp add: settled_def keeps_def)
  show ?thesis
  proof (cases r1)
    case (Inl e)
    obtain ok w2 where 2: "k_fsync_dir K w1 = (ok, w2)" by fastforce
    have k2: "keeps dv syn cr {} w w2"
      by (rule keep_trans [OF conjunct1 [OF k1] conjunct1 [OF fsync_dir [OF 2]]])
    have "e = ErrNotInitialized \<longrightarrow> dv w1 ?n = None" using k1 Inl by (simp add: keeps_def)
    then show ?thesis using assms 1 2 k1 k2 Inl dir [of w1 w2]
      by (auto simp: sync_current_def Let_def split: if_splits)
  next
    case fd: (Inr fd)
    obtain so w2 where 2: "k_fsync K fd w1 = (so, w2)" by fastforce
    obtain co w3 where 3: "k_close K fd w2 = (co, w3)" by fastforce
    obtain ok w4 where 4: "k_fsync_dir K w3 = (ok, w4)" by fastforce
    have k3: "keeps dv syn cr {} w w3"
      using k1 fsync [OF 2] close [OF 3] by (iprover intro: keep_trans)
    have k4: "keeps dv syn cr {} w w4"
      by (rule keep_trans [OF k3 conjunct1 [OF fsync_dir [OF 4]]])
    have "so \<longrightarrow> syn w3 ?n" using k1 fd fsync [OF 2] close [OF 3] by (simp add: keeps_def)
    then show ?thesis using assms 1 2 3 4 k3 k4 fd dir [of w3 w4]
      by (auto simp: sync_current_def Let_def split: if_splits)
  qed
qed

lemma open_descriptor_spec:
  assumes "open_descriptor_with_codec K C w = (r, w')"
  shows "keeps dv syn cr {} w w' \<and>
    (\<forall>s. r = Inr s \<longrightarrow> store_codec s = C \<and> store_check s = None \<and> settled dv cr C w' \<and>
       (dv w' (codec_current_name C) = None \<or> doc_at dv C w' \<noteq> None))"
proof -
  let ?n = "codec_current_name C"
  define s0 where "s0 = \<lparr>store_ready = True, store_closed = False, store_uncertain = False,
    store_noatime = False, store_codec = C\<rparr>"
  have s0: "store_codec s0 = C" "store_check s0 = None" by (simp_all add: s0_def store_check_def)
  obtain st w1 where 1: "k_fstat_dir K w = (st, w1)" by fastforce
  obtain e w2 where 2: "k_flock K w1 = (e, w2)" by fastforce
  obtain l w3 where 3: "load_current K s0 w2 = (l, w3)" by fastforce
  obtain y w4 where 4: "sync_current K s0 w3 = (y, w4)" by fastforce
  note k1 = fstat_dir [OF 1]
  note k2 = keep_trans [OF k1 flock [OF 2]]
  note l3 = load_current_spec [OF 3 s0(1)]
  note k3 = keep_trans [OF k2 conjunct1 [OF l3]]
  note y4 = sync_current_spec [OF 4 s0(1)]
  note k4 = keep_trans [OF k3 conjunct1 [OF y4]]
  have cl: "keeps dv syn cr {} w v \<Longrightarrow> keeps dv syn cr {} w (snd (k_close_dir K v))" for v
    using keep_trans close_dir [of v] by (metis prod.collapse)
  have d4: "dv w4 ?n = dv w2 ?n" using l3 y4 by (simp add: keeps_def)
  have l4: "dv w4 ?n = None \<or> doc_at dv C w4 \<noteq> None" if "l = Inl ErrNotInitialized \<or> (\<exists>d. l = Inr d)"
    using that l3 d4 by (auto simp: doc_at_def)
  note o = assms [unfolded open_descriptor_with_codec_def Let_def, folded s0_def]
  show ?thesis
  proof (cases "\<exists>s. r = Inr s")
    case True
    then have "r = Inr s0 \<and> w' = w4 \<and> y = None \<and> (l = Inl ErrNotInitialized \<or> (\<exists>d. l = Inr d))"
      using o 1 2 3 4 by (auto split: option.splits if_splits sum.splits)
    then show ?thesis using s0 k4 y4 l4 by simp
  next
    case False
    then have "w' \<in> {snd (k_close_dir K w1), snd (k_close_dir K w2), snd (k_close_dir K w3),
      snd (k_close_dir K w4)}"
      using o 1 2 3 4 by (auto split: option.splits if_splits sum.splits)
    then have "keeps dv syn cr {} w w'" using cl [OF k1] cl [OF k2] cl [OF k3] cl [OF k4] by auto
    then show ?thesis using False by simp
  qed
qed

text \<open>
  What holds between two calls: unless the store is uncertain, the directory holds the last
  acknowledged document and every power cut leaves it; an uncertain store leaves that document
  or the one whose publication failed.
\<close>

definition run_inv :: "'d store \<Rightarrow> 'w \<Rightarrow> 'd option \<Rightarrow> 'd set \<Rightarrow> bool" where
  "run_inv s w d U \<longleftrightarrow> store_codec s = C \<and>
     (if store_uncertain s
      then \<exists>u\<in>U. insert (doc_at dv C w) (crash_docs cr C w) \<subseteq> {d, Some u}
      else settled dv cr C w \<and> doc_at dv C w = d)"

lemma run_inv_commit:
  assumes i: "run_inv s w d U" and c: "store_commit K s expected next w = (r, s', w')"
  shows "run_inv s' w' (if r = None then Some next else d) (insert next U) \<and>
    (r = None \<longrightarrow> unat (codec_revision C next) = unat (doc_revision C d) + 1)"
proof -
  have s: "store_codec s = C" using i by (simp add: run_inv_def)
  have chk: "store_check s = None \<Longrightarrow> \<not> store_uncertain s" by (auto simp: store_check_def split: if_splits)
  consider (ok) "r = None" "s' = s" "store_check s = None" "expected \<noteq> - 1"
      "codec_revision C next = expected + 1" "doc_revision C (doc_at dv C w) = expected"
      "doc_at dv C w' = Some next" "settled dv cr C w'"
    | (unc) "r = Some ErrUncertain" "s' = s\<lparr>store_uncertain := True\<rparr>" "store_check s = None"
      "doc_at dv C w' \<in> {doc_at dv C w, Some next}"
      "crash_docs cr C w' \<subseteq> crash_docs cr C w \<union> {Some next}"
    | (err) "r \<noteq> None" "s' = s" "keeps dv syn cr {codec_pending_name C} w w'"
    using store_commit_spec [OF c s] by (auto simp: doc_revision_def)
  then show ?thesis
  proof cases
    case ok
    then have "unat (codec_revision C next) = unat expected + 1" by (simp add: unat_Suc_u64)
    then show ?thesis using ok i chk [OF ok(3)] by (simp add: run_inv_def)
  next
    case unc
    then have "settled dv cr C w" "doc_at dv C w = d" using i chk by (simp_all add: run_inv_def)
    then have "insert (doc_at dv C w') (crash_docs cr C w') \<subseteq> {d, Some next}"
      using unc settled_crash_docs [of dv cr C w] by auto
    then show ?thesis using unc s by (simp add: run_inv_def)
  next
    case err
    have k: "dv w' (codec_current_name C) = dv w (codec_current_name C)"
      "cr w' (codec_current_name C) \<subseteq> cr w (codec_current_name C)"
      using err(3) names_differ by (auto simp: keeps_def)
    then have m: "doc_at dv C w' = doc_at dv C w" "settled dv cr C w \<longrightarrow> settled dv cr C w'"
      "insert (doc_at dv C w') (crash_docs cr C w') \<subseteq> insert (doc_at dv C w) (crash_docs cr C w)"
      by (auto simp: doc_at_def crash_docs_def settled_def)
    have "run_inv s w' d (insert next U)"
    proof (cases "store_uncertain s")
      case True
      then obtain u where "u \<in> U" "insert (doc_at dv C w) (crash_docs cr C w) \<subseteq> {d, Some u}"
        using i by (auto simp only: run_inv_def if_True)
      then show ?thesis using True s subset_trans [OF m(3)]
        unfolding run_inv_def by (simp only: if_True) blast
    qed (use m i in \<open>simp add: run_inv_def\<close>)
    then show ?thesis using err by auto
  qed
qed

lemma commit_run_inv:
  assumes "commit_run K s ops w = (rs, s', w')" "run_inv s w d U"
  shows "run_inv s' w' (last_acked d ops rs) (U \<union> snd ` set ops) \<and>
    unat (doc_revision C (last_acked d ops rs)) =
      unat (doc_revision C d) + length (filter (\<lambda>r. r = None) rs)"
  using assms
proof (induction ops arbitrary: s w rs s' w' d U)
  case (Cons op ops)
  obtain e x where op: "op = (e, x)" by fastforce
  obtain r s1 w1 where 1: "store_commit K s e x w = (r, s1, w1)" by (metis prod.collapse)
  obtain rs1 s2 w2 where 2: "commit_run K s1 ops w1 = (rs1, s2, w2)" by (metis prod.collapse)
  have out: "rs = r # rs1" "s' = s2" "w' = w2" using Cons.prems(1) 1 2 op by simp_all
  note step = run_inv_commit [OF Cons.prems(2) 1]
  note ih = Cons.IH [OF 2 conjunct1 [OF step]]
  then show ?case using out step op by (auto simp: doc_revision_def insert_commute)
qed (auto simp: doc_revision_def)

end

subsection \<open>A disk that satisfies the contract\<close>

text \<open>
  A directory with injected faults: every call that can fail takes one flag from
  \<open>dk_faults\<close>, and fails when it is set. What a power cut leaves is as bad as POSIX allows:
  a file that is not synced may have any content, and a rename may be lost until the
  directory is synced.
\<close>

record disk =
  dk_files :: "string \<Rightarrow> string option"
  dk_synced :: "string \<Rightarrow> bool"
  dk_crash :: "string \<Rightarrow> string option set"
  dk_fds :: "nat \<Rightarrow> string option"
  dk_next :: nat
  dk_faults :: "bool list"

definition faulty :: "disk \<Rightarrow> bool \<times> disk" where
  "faulty w = (case dk_faults w of [] \<Rightarrow> (False, w) | f # fs \<Rightarrow> (f, w\<lparr>dk_faults := fs\<rparr>))"

definition disk_stat :: "string \<Rightarrow> stat_t" where
  "disk_stat c = \<lparr>st_dev = 1, st_ino = 1, st_nlink = 1, st_mode = S_IFREG OR mode_0600, st_uid = 0,
     st_gid = 0, st_size = int (length c), st_mtim = (0, 0), st_ctim = (0, 0)\<rparr>"

definition disk_dir_stat :: stat_t where
  "disk_dir_stat = \<lparr>st_dev = 1, st_ino = 2, st_nlink = 2, st_mode = S_IFDIR OR mode_0700, st_uid = 0,
     st_gid = 0, st_size = 0, st_mtim = (0, 0), st_ctim = (0, 0)\<rparr>"

definition disk_open :: "string \<Rightarrow> disk \<Rightarrow> nat \<times> disk" where
  "disk_open n w = (dk_next w, w\<lparr>dk_fds := (dk_fds w)(dk_next w := Some n), dk_next := dk_next w + 1\<rparr>)"

definition disk_put :: "string \<Rightarrow> string \<Rightarrow> disk \<Rightarrow> disk" where
  "disk_put n c w = w\<lparr>dk_files := (dk_files w)(n := Some c), dk_synced := (dk_synced w)(n := False),
     dk_crash := (dk_crash w)(n := UNIV)\<rparr>"

definition disk_sync_dir :: "disk \<Rightarrow> disk" where
  "disk_sync_dir w = w\<lparr>dk_crash := (\<lambda>n. if dk_files w n = None \<or> dk_synced w n
     then dk_crash w n \<inter> {dk_files w n} else dk_crash w n)\<rparr>"

definition disk_rename :: "string \<Rightarrow> string \<Rightarrow> disk \<Rightarrow> disk" where
  "disk_rename p q w = w\<lparr>dk_files := (dk_files w)(q := dk_files w p, p := None),
     dk_synced := (dk_synced w)(q := dk_synced w p, p := False),
     dk_crash := (dk_crash w)(q := if dk_synced w p then dk_crash w q \<union> {dk_files w p} else UNIV, p := UNIV)\<rparr>"

text \<open>The calls.\<close>

definition disk_call :: "'a \<Rightarrow> 'a \<Rightarrow> disk \<Rightarrow> 'a \<times> disk" where
  "disk_call good bad w = (case faulty w of (f, w1) \<Rightarrow> (if f then bad else good, w1))"

definition disk_fsync_dir :: "disk \<Rightarrow> bool \<times> disk" where
  "disk_fsync_dir w = (case faulty w of (f, w1) \<Rightarrow> if f then (False, w1) else (True, disk_sync_dir w1))"

definition disk_fstatat :: "string \<Rightarrow> disk \<Rightarrow> (errno + stat_t) \<times> disk" where
  "disk_fstatat n w = (case faulty w of (f, w1) \<Rightarrow>
     (if f then Inl EOTHER else case dk_files w1 n of None \<Rightarrow> Inl ENOENT | Some c \<Rightarrow> Inr (disk_stat c), w1))"

definition disk_openat :: "bool \<Rightarrow> string \<Rightarrow> disk \<Rightarrow> (errno + nat) \<times> disk" where
  "disk_openat b n w = (case faulty w of (f, w1) \<Rightarrow>
     if f then (Inl EOTHER, w1) else case dk_files w1 n of
       None \<Rightarrow> (Inl ENOENT, w1) | Some c \<Rightarrow> (case disk_open n w1 of (fd, w2) \<Rightarrow> (Inr fd, w2)))"

definition disk_fstat :: "nat \<Rightarrow> disk \<Rightarrow> stat_t option \<times> disk" where
  "disk_fstat fd w = (case faulty w of (f, w1) \<Rightarrow>
     (if f then None else map_option disk_stat (Option.bind (dk_fds w1 fd) (dk_files w1)), w1))"

definition disk_read :: "nat \<Rightarrow> disk \<Rightarrow> reader \<times> disk" where
  "disk_read fd w = (case faulty w of (f, w1) \<Rightarrow>
     (case Option.bind (dk_fds w1 fd) (dk_files w1) of None \<Rightarrow> ([], True) | Some c \<Rightarrow> (c, f), w1))"

definition disk_fsync :: "nat \<Rightarrow> disk \<Rightarrow> bool \<times> disk" where
  "disk_fsync fd w = (case faulty w of (f, w1) \<Rightarrow> (case dk_fds w1 fd of None \<Rightarrow> (False, w1) | Some n \<Rightarrow>
     if f then (False, w1) else (True, w1\<lparr>dk_synced := (dk_synced w1)(n := True)\<rparr>)))"

definition disk_close :: "nat \<Rightarrow> disk \<Rightarrow> bool \<times> disk" where
  "disk_close fd w = (case faulty w of (f, w1) \<Rightarrow> (\<not> f, w1\<lparr>dk_fds := (dk_fds w1)(fd := None)\<rparr>))"

definition disk_unlinkat :: "string \<Rightarrow> disk \<Rightarrow> bool \<times> disk" where
  "disk_unlinkat n w = (case faulty w of (f, w1) \<Rightarrow> if f then (False, w1)
     else (True, w1\<lparr>dk_files := (dk_files w1)(n := None), dk_crash := (dk_crash w1)(n := UNIV)\<rparr>))"

definition disk_create :: "string \<Rightarrow> disk \<Rightarrow> nat option \<times> disk" where
  "disk_create n w = (case faulty w of (f, w1) \<Rightarrow>
     if f then (None, w1) else (case disk_open n (disk_put n [] w1) of (fd, w2) \<Rightarrow> (Some fd, w2)))"

definition disk_write :: "nat \<Rightarrow> string \<Rightarrow> disk \<Rightarrow> (nat \<times> bool) \<times> disk" where
  "disk_write fd data w = (case faulty w of (f, w1) \<Rightarrow>
     (case dk_fds w1 fd of None \<Rightarrow> ((0, True), w1) | Some n \<Rightarrow> (case dk_files w1 n of
        None \<Rightarrow> ((0, True), w1)
      | Some c \<Rightarrow> if f then ((length data div 2, True), disk_put n (c @ take (length data div 2) data) w1)
                else ((length data, False), disk_put n (c @ data) w1))))"

definition disk_renameat :: "string \<Rightarrow> string \<Rightarrow> disk \<Rightarrow> bool \<times> disk" where
  "disk_renameat p q w = (case faulty w of (f, w1) \<Rightarrow> (\<not> f, disk_rename p q w1))"

definition disk_kernel :: "disk kernel" where
  "disk_kernel = \<lparr>k_geteuid = 0,
     k_open_dir = (\<lambda>d. disk_call True False), k_fstat_dir = disk_call (Some disk_dir_stat) None,
     k_flock = disk_call None (Some EWOULDBLOCK), k_close_dir = disk_call True False,
     k_fsync_dir = disk_fsync_dir, k_fstatat = disk_fstatat, k_openat = disk_openat,
     k_fstat = disk_fstat, k_read = disk_read, k_fsync = disk_fsync, k_close = disk_close,
     k_unlinkat = disk_unlinkat, k_create = disk_create, k_write = disk_write,
     k_rename = disk_renameat\<rparr>"

lemma faulty_same:
  "faulty w = (f, w1) \<Longrightarrow> dk_files w1 = dk_files w \<and> dk_synced w1 = dk_synced w \<and>
     dk_crash w1 = dk_crash w \<and> dk_fds w1 = dk_fds w \<and> dk_next w1 = dk_next w"
  by (auto simp: faulty_def split: list.splits)

lemmas disk_defs = keeps_def disk_open_def disk_put_def disk_sync_dir_def disk_rename_def
  disk_call_def disk_fsync_dir_def disk_fstatat_def disk_openat_def disk_fstat_def disk_read_def
  disk_fsync_def disk_close_def disk_unlinkat_def disk_create_def disk_write_def disk_renameat_def

interpretation disk_sim: posix_dir disk_kernel dk_files dk_fds dk_synced dk_crash
  by (unfold_locales, simp_all only: disk_kernel_def kernel.simps)
    (auto simp: disk_defs dest!: faulty_same split: prod.splits if_splits option.splits)

text \<open>A codec for the examples: revision \<open>n\<close> is written as \<open>n\<close> strokes.\<close>

definition tally_codec :: "nat codec" where
  "tally_codec = \<lparr>codec_current_name = ''state.json'', codec_pending_name = ''.state.pending'',
     codec_max_bytes = 64, codec_complete = True,
     codec_decode = (\<lambda>(bs, failing). if failing \<or> bs = [] \<or> length bs > 64 \<or> (\<exists>c \<in> set bs. c \<noteq> CHR ''I'')
       then None else Some (length bs)),
     codec_validate = (\<lambda>n. 0 < n \<and> n \<le> 64), codec_revision = of_nat, codec_transition = None,
     codec_marshal = (\<lambda>n. Some (replicate n (CHR ''I'')))\<rparr>"

lemma unat_tally: "n \<le> 64 \<Longrightarrow> unat (of_nat n :: u64) = n"
  by (simp add: unat_of_nat take_bit_nat_eq_self)

interpretation tally: doc_codec tally_codec
proof
  show "codec_valid tally_codec" by code_simp
  show "codec_validate tally_codec d \<and> codec_revision tally_codec d \<noteq> 0"
    if "codec_decode tally_codec r = Some d" for r d
  proof -
    have "0 < d \<and> d \<le> 64" using that by (cases r) (auto simp: tally_codec_def split: if_splits)
    moreover then have "(of_nat d :: u64) \<noteq> 0" using unat_tally [of d] by (auto simp del: of_nat_eq_0_iff)
    ultimately show ?thesis by (simp add: tally_codec_def)
  qed
  show "d' = d" if "codec_marshal tally_codec d = Some bs"
    "codec_decode tally_codec (reader_of bs) = Some d'" for d d' :: nat and bs
  proof -
    have "bs = replicate d (CHR ''I'')" using that(1) by (simp add: tally_codec_def)
    then show ?thesis using that(2) by (simp add: tally_codec_def reader_of_def split: if_splits)
  qed
qed (simp add: tally_codec_def)

definition empty_disk :: "bool list \<Rightarrow> disk" where
  "empty_disk faults = \<lparr>dk_files = (\<lambda>_. None), dk_synced = (\<lambda>_. False), dk_crash = (\<lambda>_. {None}),
     dk_fds = (\<lambda>_. None), dk_next = 3, dk_faults = faults\<rparr>"

definition tally_store :: "nat store" where
  "tally_store = \<lparr>store_ready = True, store_closed = False, store_uncertain = False,
     store_noatime = False, store_codec = tally_codec\<rparr>"

subsection \<open>Properties\<close>

text \<open>
  C1: the revision store never loses an acknowledged commit. Take any sequence of \<open>Commit\<close>
  calls with any arguments, any of whose system calls may fail, on a store that \<open>Open\<close> has
  settled. If the store is not uncertain at the end, the file holds the document of the last
  call that returned without error and every power cut leaves that document. If it is
  uncertain, the file holds, now and after any power cut, that document or the one document
  whose publication failed. The acknowledged revisions are consecutive.
\<close>

theorem commits_durable:
  assumes "posix_dir K dv fv syn cr" and "doc_codec C"
    and "store_codec s = C" and "\<not> store_uncertain s" and "settled dv cr C w"
    and "commit_run K s ops w = (rs, s', w')"
  shows "(if store_uncertain s'
      then \<exists>op \<in> set ops. insert (doc_at dv C w') (crash_docs cr C w') \<subseteq>
        {last_acked (doc_at dv C w) ops rs, Some (snd op)}
      else doc_at dv C w' = last_acked (doc_at dv C w) ops rs \<and>
        crash_docs cr C w' \<subseteq> {last_acked (doc_at dv C w) ops rs}) \<and>
    unat (doc_revision C (last_acked (doc_at dv C w) ops rs)) =
      unat (doc_revision C (doc_at dv C w)) + length (filter (\<lambda>r. r = None) rs)"
proof -
  have env: "store_env K dv fv syn cr C" using assms(1,2) by (rule store_env.intro)
  have "store_env.run_inv dv cr C s w (doc_at dv C w) {}"
    using assms(3-5) by (simp add: store_env.run_inv_def [OF env])
  from store_env.commit_run_inv [OF env assms(6) this] show ?thesis
    using settled_crash_docs [of dv cr C w'] by (auto simp: store_env.run_inv_def [OF env] split: if_splits)
qed

text \<open>Two commits on a fresh disk whose 19th call, the second \<open>Renameat\<close>, fails.\<close>

definition sample_ops :: "(u64 \<times> nat) list" where
  "sample_ops = [(0, 1), (1, 2)]"

definition sample_disk :: disk where
  "sample_disk = empty_disk (replicate 18 False @ [True])"

lemmas run_simps = store_commit_def store_check_def commit_input_def commit_current_def
  load_current_def open_current_def current_stat_ok_def not_found_def replace_current_def
  discard_pending_def pending_stat_ok_def write_pending_def publish_def reader_of_def Let_def
  S_IFMT_def S_IFREG_def perm_mask_def mode_0600_def tally_store_def tally_codec_def
  empty_disk_def disk_kernel_def disk_stat_def faulty_def disk_open_def disk_put_def
  disk_sync_dir_def disk_rename_def disk_call_def disk_fsync_dir_def disk_fstatat_def
  disk_openat_def disk_fstat_def disk_read_def disk_fsync_def disk_close_def disk_unlinkat_def
  disk_create_def disk_write_def disk_renameat_def

lemma sample_run: "(case commit_run disk_kernel tally_store sample_ops sample_disk of
    (rs, s, w) \<Rightarrow> rs = [None, Some ErrUncertain] \<and> store_uncertain s)"
  by (simp add: run_simps sample_ops_def sample_disk_def numeral_eq_Suc)

lemma sample_start:
  "store_codec tally_store = tally_codec" "\<not> store_uncertain tally_store"
  "settled dk_files dk_crash tally_codec sample_disk" "doc_at dk_files tally_codec sample_disk = None"
  by (simp_all add: tally_store_def sample_disk_def empty_disk_def settled_def doc_at_def)

theorem commits_durable_witness:
  "\<exists>s' w'. commit_run disk_kernel tally_store sample_ops sample_disk =
      ([None, Some ErrUncertain], s', w') \<and> store_uncertain s' \<and>
    (\<exists>n \<in> {1, 2}. crash_docs dk_crash tally_codec w' \<subseteq> {Some 1, Some n})"
proof -
  obtain rs s' w' where run: "commit_run disk_kernel tally_store sample_ops sample_disk = (rs, s', w')"
    by (metis prod.collapse)
  have out: "rs = [None, Some ErrUncertain]" "store_uncertain s'"
    using sample_run run by simp_all
  have "\<exists>op \<in> set sample_ops. insert (doc_at dk_files tally_codec w') (crash_docs dk_crash tally_codec w') \<subseteq>
      {last_acked None sample_ops rs, Some (snd op)}"
    using commits_durable [OF disk_sim.posix_dir_axioms tally.doc_codec_axioms sample_start(1-3) run] out
    by (simp add: sample_start(4))
  then show ?thesis using run out by (simp add: sample_ops_def) blast
qed

text \<open>
  C2: the outcome of one \<open>Commit\<close>. Without error, the document on disk had the expected revision
  (or there was none and 0 was expected) and the codec accepts the transition, the new document
  is the one a reader finds and the one every power cut leaves. With \<open>ErrUncertain\<close> on a usable
  store, the store is marked and a reader finds the old or the new document. With any other
  error the current file, and what a power cut may leave of it, is as before.
\<close>

theorem commit_outcome:
  assumes "posix_dir K dv fv syn cr" and "doc_codec C" and "store_codec s = C"
    and "store_commit K s expected next w = (r, s', w')"
  shows "case r of
      None \<Rightarrow> s' = s \<and> codec_revision C next = expected + 1 \<and> expected \<noteq> - 1 \<and>
        (doc_at dv C w = None \<and> expected = 0 \<or>
         (\<exists>d. doc_at dv C w = Some d \<and> codec_revision C d = expected \<and>
           (case codec_transition C of None \<Rightarrow> True | Some t \<Rightarrow> t d next))) \<and>
        doc_at dv C w' = Some next \<and> crash_docs cr C w' \<subseteq> {Some next}
    | Some e \<Rightarrow>
        if e = ErrUncertain \<and> store_check s = None
        then s' = s\<lparr>store_uncertain := True\<rparr> \<and> doc_at dv C w' \<in> {doc_at dv C w, Some next} \<and>
          crash_docs cr C w' \<subseteq> crash_docs cr C w \<union> {Some next}
        else s' = s \<and> dv w' (codec_current_name C) = dv w (codec_current_name C) \<and>
          cr w' (codec_current_name C) \<subseteq> cr w (codec_current_name C)"
proof -
  have env: "store_env K dv fv syn cr C" using assms(1,2) by (rule store_env.intro)
  have n: "codec_current_name C \<noteq> codec_pending_name C" by (rule store_env.names_differ [OF env])
  note spec = store_env.store_commit_spec [OF env assms(4,3)]
  show ?thesis
  proof (cases r)
    case None
    then show ?thesis using spec settled_crash_docs [of dv cr C w']
      by (auto split: option.splits)
  next
    case (Some e)
    then show ?thesis using spec n by (auto simp: keeps_def)
  qed
qed

theorem commit_outcome_witness:
  "case store_commit disk_kernel tally_store 0 1 sample_disk of
     (r, s', w') \<Rightarrow> r = None \<and> doc_at dk_files tally_codec w' = Some 1 \<and>
       crash_docs dk_crash tally_codec w' \<subseteq> {Some 1}"
proof -
  obtain r s' w' where c: "store_commit disk_kernel tally_store 0 1 sample_disk = (r, s', w')"
    by (metis prod.collapse)
  have "fst (store_commit disk_kernel tally_store 0 1 sample_disk) = None" by code_simp
  then show ?thesis
    using commit_outcome [OF disk_sim.posix_dir_axioms tally.doc_codec_axioms sample_start(1) c] c
    by simp
qed

text \<open>
  C12: opening a store changes no document, and when it succeeds the store is usable and the
  document on disk is settled: the current file is absent or decodes, and what a power cut
  leaves of it is what it holds. So reopening after \<open>ErrUncertain\<close> or after a power cut
  decides between the two documents once and for all.
\<close>

theorem open_settles:
  assumes "posix_dir K dv fv syn cr" and "doc_codec C"
    and "open_with_codec K directory C w = (r, w')"
  shows "dv w' (codec_current_name C) = dv w (codec_current_name C) \<and>
    (case r of Inl e \<Rightarrow> True
     | Inr s \<Rightarrow> store_codec s = C \<and> store_check s = None \<and> crash_docs cr C w' \<subseteq> {doc_at dv C w} \<and>
         (dv w (codec_current_name C) = None \<or> doc_at dv C w \<noteq> None))"
proof -
  have env: "store_env K dv fv syn cr C" using assms(1,2) by (rule store_env.intro)
  obtain ok w1 where 1: "k_open_dir K directory w = (ok, w1)" by fastforce
  obtain r2 w2 where 2: "open_descriptor_with_codec K C w1 = (r2, w2)" by fastforce
  note k1 = posix_dir.open_dir [OF assms(1) 1] and k2 = store_env.open_descriptor_spec [OF env 2]
  have d: "dv w1 = dv w" "dv w2 = dv w" using k1 k2 by (auto simp: keeps_def)
  then have "doc_at dv C w2 = doc_at dv C w" by (simp add: doc_at_def)
  then have *: "\<forall>s. r2 = Inr s \<longrightarrow> store_codec s = C \<and> store_check s = None \<and>
      crash_docs cr C w2 \<subseteq> {doc_at dv C w} \<and> (dv w (codec_current_name C) = None \<or> doc_at dv C w \<noteq> None)"
    using k2 d settled_crash_docs [of dv cr C w2] by auto
  show ?thesis
  proof (cases "(r, w') = (r2, w2)")
    case True
    then show ?thesis using * d by (auto split: sum.splits)
  next
    case False
    then have "r = Inl ErrUnsafe" "w' = w \<or> w' = w1"
      using assms(3) 1 2 by (auto simp: open_with_codec_def split: if_splits bool.splits)
    then show ?thesis using d by auto
  qed
qed

theorem open_settles_witness:
  "case open_with_codec disk_kernel ''/var/lib/state'' tally_codec sample_disk of
     (r, w') \<Rightarrow> is_ok r \<and> crash_docs dk_crash tally_codec w' \<subseteq> {None}"
proof -
  obtain r w' where c: "open_with_codec disk_kernel ''/var/lib/state'' tally_codec sample_disk = (r, w')"
    by fastforce
  have "is_ok (fst (open_with_codec disk_kernel ''/var/lib/state'' tally_codec sample_disk))" by code_simp
  then have "is_ok r" using c by simp
  then show ?thesis
    using open_settles [OF disk_sim.posix_dir_axioms tally.doc_codec_axioms c] c
    by (auto simp: sample_start(4) is_ok_iff)
qed

end
