(* ===== verification/Sha256.thy ===== *)
theory Sha256
  imports Go_Base
begin

section \<open>SHA-256\<close>

text \<open>
  \<open>crypto/sha256\<close> as the sources use it: \<open>Sum256\<close> of a byte string, after FIPS 180-4. Words are
  \<open>u32\<close>, so every addition wraps; a digest is a string of 32 bytes. The lemmas show that the
  padded message is a whole number of blocks and that a digest has 32 bytes.
\<close>

unbundle bit_operations_syntax

text \<open>
  The constants are the first 32 bits of the fractional parts of the cube roots of the first 64
  primes and of the square roots of the first eight: bits \<open>0\<close> to \<open>31\<close> of the integer root
  of \<open>p * 2 ^ 96\<close> and of \<open>p * 2 ^ 64\<close>.
\<close>

fun int_root :: "nat \<Rightarrow> nat \<Rightarrow> nat \<Rightarrow> nat \<Rightarrow> nat" where
  "int_root k n 0 r = r"
| "int_root k n (Suc i) r = int_root k n i (if (r + 2 ^ i) ^ k \<le> n then r + 2 ^ i else r)"

definition prime_list :: "nat list" where
  "prime_list = filter (\<lambda>p. \<forall>d \<in> set [2..<18]. d < p \<longrightarrow> p mod d \<noteq> 0) [2..<312]"

definition sha_k :: "u32 list" where
  "sha_k = map (\<lambda>p. of_nat (int_root 3 (p * 2 ^ 96) 36 0)) prime_list"

definition sha_init :: "u32 list" where
  "sha_init = map (\<lambda>p. of_nat (int_root 2 (p * 2 ^ 64) 36 0)) [2, 3, 5, 7, 11, 13, 17, 19]"

definition rotr :: "nat \<Rightarrow> u32 \<Rightarrow> u32" where
  "rotr n x = drop_bit n x OR push_bit (32 - n) x"

definition small0 :: "u32 \<Rightarrow> u32" where
  "small0 x = rotr 7 x XOR rotr 18 x XOR drop_bit 3 x"

definition small1 :: "u32 \<Rightarrow> u32" where
  "small1 x = rotr 17 x XOR rotr 19 x XOR drop_bit 10 x"

definition big0 :: "u32 \<Rightarrow> u32" where
  "big0 x = rotr 2 x XOR rotr 13 x XOR rotr 22 x"

definition big1 :: "u32 \<Rightarrow> u32" where
  "big1 x = rotr 6 x XOR rotr 11 x XOR rotr 25 x"

definition byte_word :: "char \<Rightarrow> u32" where
  "byte_word c = of_nat (of_char c)"

fun be_words :: "string \<Rightarrow> u32 list" where
  "be_words (a # b # c # d # xs) =
     (push_bit 24 (byte_word a) OR push_bit 16 (byte_word b) OR push_bit 8 (byte_word c) OR byte_word d)
     # be_words xs"
| "be_words _ = []"

definition word_be :: "u32 \<Rightarrow> string" where
  "word_be w = map (\<lambda>n. char_of (unat (drop_bit n w) mod 256)) [24, 16, 8, 0]"

text \<open>The message schedule is kept newest first: the head is the last word computed.\<close>

fun schedule :: "nat \<Rightarrow> u32 list \<Rightarrow> u32 list" where
  "schedule 0 ws = ws"
| "schedule (Suc n) ws = schedule n ((small1 (ws ! 1) + ws ! 6 + small0 (ws ! 14) + ws ! 15) # ws)"

definition sha_round :: "u32 list \<Rightarrow> u32 \<times> u32 \<Rightarrow> u32 list" where
  "sha_round s kw = (case s of
     [a, b, c, d, e, f, g, h] \<Rightarrow>
       (let t1 = h + big1 e + ((e AND f) XOR (NOT e AND g)) + fst kw + snd kw;
            t2 = big0 a + ((a AND b) XOR (a AND c) XOR (b AND c))
        in [t1 + t2, a, b, c, d + t1, e, f, g])
   | _ \<Rightarrow> s)"

definition sha_block :: "u32 list \<Rightarrow> string \<Rightarrow> u32 list" where
  "sha_block h block = map2 (+) h (foldl sha_round h (zip sha_k (rev (schedule 48 (rev (be_words block))))))"

function (sequential) sha_blocks :: "u32 list \<Rightarrow> string \<Rightarrow> u32 list" where
  "sha_blocks h [] = h"
| "sha_blocks h (x # xs) = sha_blocks (sha_block h (take 64 (x # xs))) (drop 64 (x # xs))"
  by pat_completeness auto
termination by (relation "measure (length \<circ> snd)") auto

definition sha_pad :: "string \<Rightarrow> string" where
  "sha_pad m = m @ [char_of (128 :: nat)] @ replicate (63 - (length m + 8) mod 64) (char_of (0 :: nat)) @
     map (\<lambda>n. char_of (8 * length m div 256 ^ n mod 256)) [7, 6, 5, 4, 3, 2, 1, 0]"

definition sha256 :: "string \<Rightarrow> string" where
  "sha256 m = concat (map word_be (sha_blocks sha_init (sha_pad m)))"

lemma length_sha_pad: "64 dvd length (sha_pad m)"
proof -
  have "length (sha_pad m) = length m + 1 + (63 - (length m + 8) mod 64) + 8"
    by (simp add: sha_pad_def)
  then show ?thesis by presburger
qed

lemma length_sha_round [simp]: "length s = 8 \<Longrightarrow> length (sha_round s kw) = 8"
  by (auto simp: sha_round_def Let_def split: list.splits)

lemma length_sha_rounds: "length s = 8 \<Longrightarrow> length (foldl sha_round s kws) = 8"
  by (induction kws arbitrary: s) simp_all

lemma length_sha_block: "length h = 8 \<Longrightarrow> length (sha_block h b) = 8"
  by (simp add: sha_block_def length_sha_rounds)

lemma length_sha_blocks: "length h = 8 \<Longrightarrow> length (sha_blocks h m) = 8"
  by (induction h m rule: sha_blocks.induct) (simp_all add: length_sha_block)

lemma length_sha256: "length (sha256 m) = 32"
proof -
  have "length (sha_blocks sha_init (sha_pad m)) = 8"
    by (rule length_sha_blocks) (simp add: sha_init_def)
  then show ?thesis
    by (simp add: sha256_def length_concat comp_def word_be_def map_replicate_const sum_list_replicate)
qed

end
