(* ===== verification/Owned_Store.thy ===== *)
theory Owned_Store
  imports Revision_Store Sha256
begin

section \<open>The owner of a desired policy\<close>

text \<open>
  The model of \<open>internal/revisionstore/owner_linux.go\<close>. An \<open>OwnedStore\<close> is the only writer of
  an initialized document. It hands out leases on the revision it observed, refuses to publish
  or close while a lease is held, and goes into a sticky review state as soon as an observation
  of the directory differs from the one it made itself.

  The inotify calls are the parameter \<open>W\<close>, next to the kernel \<open>K\<close> of the engine; a context is the
  function from the world to what \<open>ctx.Err()\<close> returns there. A \<open>PolicyLease\<close> is a record with a
  number for its address; the \<open>released\<close> flags and the lease map of the owner are lists of leases.
  The private backend of the NAS owner is a record of functions, as it is in the code. The mutex
  makes every method one step; the step relation below has one rule per exported method.
\<close>

subsection \<open>State\<close>

datatype owner_error = Store_Err store_error | ErrReview | Ctx_Err ctx_error

type_synonym 'w ctx = "'w \<Rightarrow> ctx_error option"

record 'w watcher =
  wk_proc :: "'w \<Rightarrow> bool \<times> 'w"
  wk_init :: "'w \<Rightarrow> int option \<times> 'w"
  wk_add :: "int \<Rightarrow> 'w \<Rightarrow> bool \<times> 'w"
  wk_close :: "int \<Rightarrow> 'w \<Rightarrow> bool \<times> 'w"
  wk_again :: "int \<Rightarrow> 'w \<Rightarrow> bool \<times> 'w"

record policy_metadata =
  pm_device :: u64
  pm_inode :: u64
  pm_links :: u64
  pm_mode :: u32
  pm_uid :: u32
  pm_gid :: u32
  pm_size :: int
  pm_modified :: int
  pm_m_nanos :: int
  pm_changed :: int
  pm_c_nanos :: int

record policy_observation =
  ob_directory :: policy_metadata
  ob_file :: policy_metadata
  ob_digest :: string
  ob_revision :: u64

record lease =
  lease_ref :: nat
  lease_self :: bool
  lease_revision :: u64

record ('d, 'w) backend =
  be_complete :: bool
  be_capture :: "'w ctx \<Rightarrow> 'w \<Rightarrow> (owner_error + 'd \<times> policy_observation) \<times> 'w"
  be_commit :: "'w ctx \<Rightarrow> u64 \<Rightarrow> 'd \<Rightarrow> 'w \<Rightarrow> owner_error option \<times> 'w"
  be_close :: "'w \<Rightarrow> bool \<times> 'w"

record ('d, 'w) owned =
  own_self :: bool
  own_store :: "'d store option"
  own_backend :: "('d, 'w) backend option"
  own_watch :: int
  own_baseline :: policy_observation
  own_leases :: "lease list"
  own_released :: "lease list"
  own_next :: nat
  own_review :: bool
  own_closed :: bool
  own_close_failed :: bool

definition maxPolicyLeases :: nat where
  "maxPolicyLeases = 256"

definition zero_metadata :: policy_metadata where
  "zero_metadata = \<lparr>pm_device = 0, pm_inode = 0, pm_links = 0, pm_mode = 0, pm_uid = 0, pm_gid = 0,
     pm_size = 0, pm_modified = 0, pm_m_nanos = 0, pm_changed = 0, pm_c_nanos = 0\<rparr>"

definition zero_observation :: policy_observation where
  "zero_observation = \<lparr>ob_directory = zero_metadata, ob_file = zero_metadata,
     ob_digest = replicate 32 (char_of (0 :: nat)), ob_revision = 0\<rparr>"

definition policyStamp :: "stat_t \<Rightarrow> policy_metadata" where
  "policyStamp st = \<lparr>pm_device = st_dev st, pm_inode = st_ino st, pm_links = st_nlink st,
     pm_mode = st_mode st, pm_uid = st_uid st, pm_gid = st_gid st, pm_size = st_size st,
     pm_modified = fst (st_mtim st), pm_m_nanos = snd (st_mtim st),
     pm_changed = fst (st_ctim st), pm_c_nanos = snd (st_ctim st)\<rparr>"

subsection \<open>Operations\<close>

definition owned_valid :: "('d, 'w) owned \<Rightarrow> bool" where
  "owned_valid ow \<longleftrightarrow> own_self ow \<and>
     (own_store ow \<noteq> None \<and> own_backend ow = None \<or>
      own_store ow = None \<and> (case own_backend ow of None \<Rightarrow> False | Some b \<Rightarrow> be_complete b))"

text \<open>A nil context is \<open>None\<close>.\<close>

definition check_locked :: "('d, 'w) owned \<Rightarrow> 'w ctx option \<Rightarrow> 'w \<Rightarrow> owner_error option" where
  "check_locked ow ctx w =
     (if own_review ow \<or> own_close_failed ow then Some ErrReview
      else if own_closed ow then Some (Store_Err ErrClosed)
      else case ctx of None \<Rightarrow> Some (Store_Err ErrInvalid) | Some c \<Rightarrow> map_option Ctx_Err (c w))"

definition quarantine :: "('d, 'w) owned \<Rightarrow> ('d, 'w) owned" where
  "quarantine ow = ow\<lparr>own_review := True\<rparr>"

definition quiet :: "'w watcher \<Rightarrow> ('d, 'w) owned \<Rightarrow> 'w \<Rightarrow> bool \<times> 'w" where
  "quiet W ow w = (if own_watch ow < 0 then (False, w) else wk_again W (own_watch ow) w)"

text \<open>The metadata conjunction of \<open>captureLocked\<close>, with the two stamps it leaves behind.\<close>

definition metadata_ok ::
  "'w kernel \<Rightarrow> 'd store \<Rightarrow> nat \<Rightarrow> stat_t \<Rightarrow> stat_t \<Rightarrow> 'w \<Rightarrow> (policy_metadata \<times> policy_metadata) option \<times> 'w" where
  "metadata_ok K s fd dir st0 w =
     (case k_fstat K fd w of
        (None, w1) \<Rightarrow> (None, w1)
      | (Some st1, w1) \<Rightarrow> (case k_fstatat K (codec_current_name (store_codec s)) w1 of
          (Inl e, w2) \<Rightarrow> (None, w2)
        | (Inr named, w2) \<Rightarrow> (case k_fstat_dir K w2 of
            (None, w3) \<Rightarrow> (None, w3)
          | (Some dir1, w3) \<Rightarrow>
              (if policyStamp st0 = policyStamp st1 \<and> policyStamp st1 = policyStamp named \<and>
                  policyStamp dir = policyStamp dir1
               then Some (policyStamp dir1, policyStamp st1) else None, w3))))"

definition capture_dir_ok :: "'w kernel \<Rightarrow> stat_t \<Rightarrow> bool" where
  "capture_dir_ok K dir \<longleftrightarrow> st_mode dir AND S_IFMT = S_IFDIR \<and> st_mode dir AND perm_mask = mode_0700 \<and>
     st_uid dir = k_geteuid K"

text \<open>
  \<open>captureLocked\<close> from the opened file on: \<open>None\<close> where the code quarantines.
\<close>

definition capture_file ::
  "'w kernel \<Rightarrow> 'w watcher \<Rightarrow> ('d, 'w) owned \<Rightarrow> 'd store \<Rightarrow> stat_t \<Rightarrow> nat \<Rightarrow> 'w \<Rightarrow>
     ('d \<times> policy_observation) option \<times> 'w" where
  "capture_file K W ow s dir fd w =
     (let c = store_codec s in
      case k_fstat K fd w of
        (None, w1) \<Rightarrow> (None, snd (k_close K fd w1))
      | (Some st0, w1) \<Rightarrow>
          if st_dev st0 \<noteq> st_dev dir then (None, snd (k_close K fd w1))
          else (case k_read K fd w1 of
            (r, w2) \<Rightarrow> (case metadata_ok K s fd dir st0 w2 of
              (m, w3) \<Rightarrow> (case k_close K fd w3 of
                (close_ok, w4) \<Rightarrow> (case (codec_decode c r, m) of
                  (Some d, Some (dir1, st1)) \<Rightarrow>
                    if \<not> close_ok then (None, w4)
                    else (case quiet W ow w4 of
                      (q, w5) \<Rightarrow>
                        if \<not> q \<or> \<not> codec_validate c d \<or> codec_revision c d = 0 then (None, w5)
                        else (case codec_marshal c d of
                          None \<Rightarrow> (None, w5)
                        | Some encoded \<Rightarrow>
                            if int (length encoded) > codec_max_bytes c then (None, w5)
                            else (Some (d, \<lparr>ob_directory = dir1, ob_file = st1,
                              ob_digest = sha256 encoded, ob_revision = codec_revision c d\<rparr>), w5)))
                | _ \<Rightarrow> (None, w4))))))"

definition capture_locked ::
  "'w kernel \<Rightarrow> 'w watcher \<Rightarrow> ('d, 'w) owned \<Rightarrow> 'd store \<Rightarrow> 'w \<Rightarrow>
     (owner_error + 'd \<times> policy_observation) \<times> ('d, 'w) owned \<times> 'w" where
  "capture_locked K W ow s w =
     (let review = (\<lambda>v. (Inl ErrReview, quarantine ow, v)) in
      case quiet W ow w of
        (q, w1) \<Rightarrow>
          if \<not> q \<or> store_check s \<noteq> None then review w1
          else (case k_fstat_dir K w1 of
            (None, w2) \<Rightarrow> review w2
          | (Some dir, w2) \<Rightarrow>
              if \<not> capture_dir_ok K dir then review w2
              else (case open_current K s w2 of
                (Inl e, w3) \<Rightarrow>
                  if e = ErrNotInitialized \<and> ob_revision (own_baseline ow) = 0
                  then (Inl (Store_Err ErrNotInitialized), ow, w3) else review w3
              | (Inr fd, w3) \<Rightarrow> (case capture_file K W ow s dir fd w3 of
                  (None, w4) \<Rightarrow> review w4
                | (Some x, w4) \<Rightarrow> (Inr x, ow, w4)))))"

definition new_epoch_locked ::
  "'w kernel \<Rightarrow> 'w watcher \<Rightarrow> ('d, 'w) owned \<Rightarrow> 'd store \<Rightarrow> 'w \<Rightarrow> owner_error option \<times> ('d, 'w) owned \<times> 'w" where
  "new_epoch_locked K W ow s w =
     (let review = (\<lambda>p v. (Some ErrReview, quarantine p, v)) in
      case wk_proc W w of
        (False, w1) \<Rightarrow> review ow w1
      | (True, w1) \<Rightarrow> (case wk_init W w1 of
          (None, w2) \<Rightarrow> review ow w2
        | (Some fd, w2) \<Rightarrow> (case wk_add W fd w2 of
            (False, w3) \<Rightarrow> review ow (snd (wk_close W fd w3))
          | (True, w3) \<Rightarrow>
              (case (if own_watch ow \<ge> 0 then wk_close W (own_watch ow) w3 else (True, w3)) of
                (ok, w4) \<Rightarrow>
                  (let p = ow\<lparr>own_watch := fd\<rparr> in
                   if \<not> ok then review p w4
                   else (case capture_locked K W p s w4 of
                     (Inl e, p1, w5) \<Rightarrow> (Some e, p1, w5)
                   | (Inr (d, observed), p1, w5) \<Rightarrow> (None, p1\<lparr>own_baseline := observed\<rparr>, w5)))))))"

definition observe_locked ::
  "'w kernel \<Rightarrow> 'w watcher \<Rightarrow> ('d, 'w) owned \<Rightarrow> 'w ctx \<Rightarrow> 'w \<Rightarrow> (owner_error + 'd) \<times> ('d, 'w) owned \<times> 'w" where
  "observe_locked K W ow ctx w =
     (case (case own_backend ow of
              Some b \<Rightarrow> (case be_capture b ctx w of (r, w1) \<Rightarrow> (r, ow, w1))
            | None \<Rightarrow> (case own_store ow of
                Some s \<Rightarrow> capture_locked K W ow s w
              | None \<Rightarrow> (Inl ErrReview, ow, w))) of
        (Inr (d, observed), p, w1) \<Rightarrow>
          if observed \<noteq> own_baseline p then (Inl ErrReview, quarantine p, w1) else (Inr d, p, w1)
      | (Inl e, p, w1) \<Rightarrow> (Inl ErrReview, quarantine p, w1))"

definition owned_snapshot ::
  "'w kernel \<Rightarrow> 'w watcher \<Rightarrow> ('d, 'w) owned \<Rightarrow> 'w ctx option \<Rightarrow> 'w \<Rightarrow>
     (owner_error + 'd) \<times> ('d, 'w) owned \<times> 'w" where
  "owned_snapshot K W ow ctx w =
     (if \<not> owned_valid ow then (Inl (Store_Err ErrInvalid), ow, w)
      else case check_locked ow ctx w of
        Some e \<Rightarrow> (Inl e, ow, w)
      | None \<Rightarrow> (case observe_locked K W ow (the ctx) w of
          (Inl e, p, w1) \<Rightarrow> (Inl e, p, w1)
        | (Inr d, p, w1) \<Rightarrow> (case the ctx w1 of
            Some c \<Rightarrow> (Inl (Ctx_Err c), p, w1) | None \<Rightarrow> (Inr d, p, w1))))"

definition owned_acquire ::
  "'w kernel \<Rightarrow> 'w watcher \<Rightarrow> ('d, 'w) owned \<Rightarrow> 'w ctx option \<Rightarrow> u64 \<Rightarrow> 'w \<Rightarrow>
     (owner_error + lease) \<times> ('d, 'w) owned \<times> 'w" where
  "owned_acquire K W ow ctx expected w =
     (if \<not> owned_valid ow then (Inl (Store_Err ErrInvalid), ow, w)
      else case check_locked ow ctx w of
        Some e \<Rightarrow> (Inl e, ow, w)
      | None \<Rightarrow> (case observe_locked K W ow (the ctx) w of
          (Inl e, p, w1) \<Rightarrow> (Inl e, p, w1)
        | (Inr d, p, w1) \<Rightarrow>
            if expected \<noteq> ob_revision (own_baseline p) then (Inl (Store_Err ErrConflict), p, w1)
            else if length (own_leases p) \<ge> maxPolicyLeases then (Inl (Store_Err ErrBusy), p, w1)
            else (case the ctx w1 of
              Some c \<Rightarrow> (Inl (Ctx_Err c), p, w1)
            | None \<Rightarrow>
                (let l = \<lparr>lease_ref = own_next p, lease_self = True, lease_revision = expected\<rparr> in
                 (Inr l, p\<lparr>own_leases := l # own_leases p, own_next := own_next p + 1\<rparr>, w1)))))"

definition commit_backend_locked ::
  "('d \<Rightarrow> string option) \<Rightarrow> ('d, 'w) owned \<Rightarrow> ('d, 'w) backend \<Rightarrow> 'w ctx \<Rightarrow> u64 \<Rightarrow> 'd \<Rightarrow> 'w \<Rightarrow>
     owner_error option \<times> ('d, 'w) owned \<times> 'w" where
  "commit_backend_locked marshal ow b ctx expected next w =
     (if expected \<noteq> ob_revision (own_baseline ow) then (Some (Store_Err ErrConflict), ow, w)
      else case be_commit b ctx expected next w of
        (Some e, w1) \<Rightarrow>
          if e = Store_Err ErrConflict \<or> e = Store_Err ErrInvalid then (Some e, ow, w1)
          else (Some ErrReview, quarantine ow, w1)
      | (None, w1) \<Rightarrow> (case be_capture b ctx w1 of
          (r, w2) \<Rightarrow> (case (r, marshal next) of
            (Inr (d, observed), Some encoded) \<Rightarrow>
              if ob_revision observed \<noteq> expected + 1 \<or> ob_digest observed \<noteq> sha256 encoded \<or> ctx w2 \<noteq> None
              then (Some ErrReview, quarantine ow, w2)
              else (None, ow\<lparr>own_baseline := observed\<rparr>, w2)
          | _ \<Rightarrow> (Some ErrReview, quarantine ow, w2))))"

text \<open>The part of \<open>Commit\<close> on the engine, from \<open>o.store.Commit\<close> on.\<close>

definition commit_store_locked ::
  "'w kernel \<Rightarrow> 'w watcher \<Rightarrow> ('d, 'w) owned \<Rightarrow> 'd store \<Rightarrow> 'w ctx \<Rightarrow> u64 \<Rightarrow> 'd \<Rightarrow> 'w \<Rightarrow>
     owner_error option \<times> ('d, 'w) owned \<times> 'w" where
  "commit_store_locked K W ow s ctx expected next w =
     (case store_commit K s expected next w of
        (Some e, s1, w1) \<Rightarrow>
          (let p = ow\<lparr>own_store := Some s1\<rparr> in
           if e = ErrConflict \<or> e = ErrInvalid then (Some (Store_Err e), p, w1)
           else (Some ErrReview, quarantine p, w1))
      | (None, s1, w1) \<Rightarrow> (case new_epoch_locked K W (ow\<lparr>own_store := Some s1\<rparr>) s1 w1 of
          (Some e, p, w2) \<Rightarrow> (Some ErrReview, quarantine p, w2)
        | (None, p, w2) \<Rightarrow> (case codec_marshal (store_codec s1) next of
            None \<Rightarrow> (Some ErrReview, quarantine p, w2)
          | Some encoded \<Rightarrow>
              if ob_revision (own_baseline p) \<noteq> codec_revision (store_codec s1) next \<or>
                 ob_digest (own_baseline p) \<noteq> sha256 encoded
              then (Some ErrReview, quarantine p, w2)
              else if ctx w2 \<noteq> None then (Some ErrReview, quarantine p, w2)
              else (None, p, w2))))"

text \<open>\<open>marshal\<close> is \<open>json.Marshal\<close> at the document type, for the backend path.\<close>

definition owned_commit ::
  "'w kernel \<Rightarrow> 'w watcher \<Rightarrow> ('d \<Rightarrow> string option) \<Rightarrow> ('d, 'w) owned \<Rightarrow> 'w ctx option \<Rightarrow> u64 \<Rightarrow> 'd \<Rightarrow> 'w \<Rightarrow>
     owner_error option \<times> ('d, 'w) owned \<times> 'w" where
  "owned_commit K W marshal ow ctx expected next w =
     (if \<not> owned_valid ow then (Some (Store_Err ErrInvalid), ow, w)
      else case check_locked ow ctx w of
        Some e \<Rightarrow> (Some e, ow, w)
      | None \<Rightarrow> (case observe_locked K W ow (the ctx) w of
          (Inl e, p, w1) \<Rightarrow> (Some e, p, w1)
        | (Inr d, p, w1) \<Rightarrow>
            if own_leases p \<noteq> [] then (Some (Store_Err ErrBusy), p, w1)
            else (case the ctx w1 of
              Some c \<Rightarrow> (Some (Ctx_Err c), p, w1)
            | None \<Rightarrow> (case own_backend p of
                Some b \<Rightarrow> commit_backend_locked marshal p b (the ctx) expected next w1
              | None \<Rightarrow> commit_store_locked K W p (the (own_store p)) (the ctx) expected next w1))))"

definition lease_valid :: "('d, 'w) owned \<Rightarrow> lease \<Rightarrow> bool" where
  "lease_valid ow l \<longleftrightarrow> lease_self l \<and> owned_valid ow"

definition lease_snapshot ::
  "'w kernel \<Rightarrow> 'w watcher \<Rightarrow> ('d, 'w) owned \<Rightarrow> lease \<Rightarrow> 'w ctx option \<Rightarrow> 'w \<Rightarrow>
     (owner_error + 'd) \<times> ('d, 'w) owned \<times> 'w" where
  "lease_snapshot K W ow l ctx w =
     (if \<not> lease_valid ow l then (Inl (Store_Err ErrInvalid), ow, w)
      else if l \<notin> set (own_leases ow) \<or> l \<in> set (own_released ow) then (Inl (Store_Err ErrClosed), ow, w)
      else case check_locked ow ctx w of
        Some e \<Rightarrow> (Inl e, ow, w)
      | None \<Rightarrow> (case observe_locked K W ow (the ctx) w of
          (Inl e, p, w1) \<Rightarrow> (Inl ErrReview, quarantine p, w1)
        | (Inr d, p, w1) \<Rightarrow>
            if lease_revision l \<noteq> ob_revision (own_baseline p) then (Inl ErrReview, quarantine p, w1)
            else (case the ctx w1 of
              Some c \<Rightarrow> (Inl (Ctx_Err c), p, w1) | None \<Rightarrow> (Inr d, p, w1))))"

definition lease_verify ::
  "'w kernel \<Rightarrow> 'w watcher \<Rightarrow> ('d, 'w) owned \<Rightarrow> lease \<Rightarrow> 'w ctx option \<Rightarrow> 'w \<Rightarrow>
     owner_error option \<times> ('d, 'w) owned \<times> 'w" where
  "lease_verify K W ow l ctx w =
     (case lease_snapshot K W ow l ctx w of
        (Inl e, p, w1) \<Rightarrow> (Some e, p, w1) | (Inr d, p, w1) \<Rightarrow> (None, p, w1))"

definition lease_release :: "('d, 'w) owned \<Rightarrow> lease \<Rightarrow> owner_error option \<times> ('d, 'w) owned" where
  "lease_release ow l =
     (if \<not> lease_valid ow l then (Some (Store_Err ErrInvalid), ow)
      else if l \<in> set (own_released ow) then (None, ow)
      else if l \<notin> set (own_leases ow) then (Some (Store_Err ErrInvalid), ow)
      else (None, ow\<lparr>own_leases := filter (\<lambda>x. x \<noteq> l) (own_leases ow),
                    own_released := l # own_released ow\<rparr>))"

definition owned_close ::
  "'w kernel \<Rightarrow> 'w watcher \<Rightarrow> ('d, 'w) owned \<Rightarrow> 'w \<Rightarrow> owner_error option \<times> ('d, 'w) owned \<times> 'w" where
  "owned_close K W ow w =
     (if \<not> owned_valid ow then (Some (Store_Err ErrInvalid), ow, w)
      else if own_close_failed ow then (Some ErrReview, ow, w)
      else if own_closed ow then (None, ow, w)
      else if own_leases ow \<noteq> [] then (Some (Store_Err ErrBusy), ow, w)
      else (case (if own_watch ow \<ge> 0 then wk_close W (own_watch ow) w else (True, w)) of
        (watch_ok, w1) \<Rightarrow>
          (let p = ow\<lparr>own_closed := True, own_watch := (if own_watch ow \<ge> 0 then - 1 else own_watch ow)\<rparr> in
           case (case own_backend ow of
                   Some b \<Rightarrow> (case be_close b w1 of (ok, w2) \<Rightarrow> (ok, own_store ow, w2))
                 | None \<Rightarrow> (case own_store ow of
                     None \<Rightarrow> (True, None, w1)
                   | Some s \<Rightarrow> (case store_close K s w1 of (e, s1, w2) \<Rightarrow> (e = None, Some s1, w2)))) of
             (store_ok, st, w2) \<Rightarrow>
               (let p1 = p\<lparr>own_store := st\<rparr> in
                if \<not> watch_ok \<or> \<not> store_ok
                then (Some ErrReview, quarantine (p1\<lparr>own_close_failed := True\<rparr>), w2)
                else (None, p1, w2)))))"

definition open_owned_with_codec ::
  "'w kernel \<Rightarrow> 'w watcher \<Rightarrow> string \<Rightarrow> 'd codec \<Rightarrow> 'w \<Rightarrow> (owner_error + ('d, 'w) owned) \<times> 'w" where
  "open_owned_with_codec K W directory codec w =
     (case open_with_codec K directory codec w of
        (Inl e, w1) \<Rightarrow> (Inl (Store_Err e), w1)
      | (Inr s, w1) \<Rightarrow>
          (let s1 = s\<lparr>store_noatime := True\<rparr>;
               ow = \<lparr>own_self = True, own_store = Some s1, own_backend = None, own_watch = - 1,
                    own_baseline = zero_observation, own_leases = [], own_released = [], own_next = 0,
                    own_review = False, own_closed = False, own_close_failed = False\<rparr> in
           case new_epoch_locked K W ow s1 w1 of
             (None, p, w2) \<Rightarrow> (Inr p, w2)
           | (Some e, p, w2) \<Rightarrow> (case owned_close K W p w2 of
               (None, p1, w3) \<Rightarrow> (Inl e, w3)
             | (Some e1, p1, w3) \<Rightarrow> (Inl ErrReview, w3))))"

subsection \<open>The effect of an observation\<close>

lemma quarantine_simps [simp]:
  "own_self (quarantine ow) = own_self ow" "own_store (quarantine ow) = own_store ow"
  "own_backend (quarantine ow) = own_backend ow" "own_watch (quarantine ow) = own_watch ow"
  "own_baseline (quarantine ow) = own_baseline ow" "own_leases (quarantine ow) = own_leases ow"
  "own_released (quarantine ow) = own_released ow" "own_next (quarantine ow) = own_next ow"
  "own_review (quarantine ow)" "own_closed (quarantine ow) = own_closed ow"
  "own_close_failed (quarantine ow) = own_close_failed ow" "quarantine (quarantine ow) = quarantine ow"
  by (simp_all add: quarantine_def)

lemma capture_locked_state:
  "capture_locked K W ow s w = (r, p, w') \<Longrightarrow> p = ow \<or> (p = quarantine ow \<and> r = Inl ErrReview)"
  by (auto simp: capture_locked_def Let_def split: prod.splits option.splits sum.splits if_splits)

lemma observe_locked_state:
  assumes "observe_locked K W ow ctx w = (r, p, w')"
  shows "(case r of Inl e \<Rightarrow> e = ErrReview \<and> p = quarantine ow | Inr d \<Rightarrow> p = ow)"
proof (cases "own_backend ow")
  case None
  show ?thesis
  proof (cases "own_store ow")
    case (Some s)
    obtain r1 p1 w1 where c: "capture_locked K W ow s w = (r1, p1, w1)" by (metis prod.collapse)
    show ?thesis using assms None Some c capture_locked_state [OF c]
      by (cases r1) (auto simp: observe_locked_def split: if_splits)
  qed (use assms None in \<open>auto simp: observe_locked_def\<close>)
next
  case (Some b)
  obtain r1 w1 where c: "be_capture b ctx w = (r1, w1)" by fastforce
  show ?thesis using assms Some c by (cases r1) (auto simp: observe_locked_def split: if_splits)
qed

text \<open>A new epoch changes the watch, the baseline and the review flag, and nothing else.\<close>

definition epoch_frame :: "('d, 'w) owned \<Rightarrow> ('d, 'w) owned \<Rightarrow> bool" where
  "epoch_frame ow p \<longleftrightarrow> own_self p = own_self ow \<and> own_store p = own_store ow \<and>
     own_backend p = own_backend ow \<and> own_leases p = own_leases ow \<and>
     own_released p = own_released ow \<and> own_next p = own_next ow \<and>
     own_closed p = own_closed ow \<and> own_close_failed p = own_close_failed ow"

lemma new_epoch_locked_state:
  assumes "new_epoch_locked K W ow s w = (r, p, w')"
  shows "epoch_frame ow p \<and> (own_review ow \<longrightarrow> own_review p)"
proof -
  obtain b w1 where 1: "wk_proc W w = (b, w1)" by fastforce
  obtain f w2 where 2: "wk_init W w1 = (f, w2)" by fastforce
  obtain a w3 where 3: "wk_add W (the f) w2 = (a, w3)" by fastforce
  obtain ok w4 where 4: "(if own_watch ow \<ge> 0 then wk_close W (own_watch ow) w3 else (True, w3)) = (ok, w4)"
    by fastforce
  define q where "q = ow\<lparr>own_watch := the f\<rparr>"
  obtain r5 p5 w5 where 5: "capture_locked K W q s w4 = (r5, p5, w5)" by (metis prod.collapse)
  have q: "epoch_frame ow q" "epoch_frame ow (quarantine q)" "epoch_frame ow (quarantine ow)"
    "own_review q = own_review ow"
    by (simp_all add: q_def epoch_frame_def)
  have "epoch_frame ow p5" "own_review ow \<longrightarrow> own_review p5" using capture_locked_state [OF 5] q by auto
  moreover have "epoch_frame ow (p5\<lparr>own_baseline := x\<rparr>) = epoch_frame ow p5" for x
    by (simp add: epoch_frame_def)
  ultimately show ?thesis
    using assms 1 2 3 4 5 q unfolding new_epoch_locked_def
    by (cases b; cases f; cases a; cases ok; cases r5) (auto simp: q_def Let_def split: prod.splits)
qed

subsection \<open>The effect of the methods on the leases\<close>

lemma owned_snapshot_state:
  assumes "owned_snapshot K W ow ctx w = (r, p, w')"
  shows "p = ow \<or> p = quarantine ow"
proof -
  obtain r1 p1 w1 where o: "observe_locked K W ow (the ctx) w = (r1, p1, w1)" by (metis prod.collapse)
  show ?thesis using assms o observe_locked_state [OF o]
    by (cases r1) (auto simp: owned_snapshot_def split: if_splits option.splits)
qed

lemma lease_snapshot_state:
  assumes "lease_snapshot K W ow l ctx w = (r, p, w')"
  shows "p = ow \<or> p = quarantine ow"
proof -
  obtain r1 p1 w1 where o: "observe_locked K W ow (the ctx) w = (r1, p1, w1)" by (metis prod.collapse)
  show ?thesis using assms o observe_locked_state [OF o]
    by (cases r1) (auto simp: lease_snapshot_def split: if_splits option.splits)
qed

lemma owned_acquire_state:
  assumes "owned_acquire K W ow ctx expected w = (r, p, w')"
  shows "(case r of
      Inl e \<Rightarrow> p = ow \<or> p = quarantine ow
    | Inr l \<Rightarrow> l = \<lparr>lease_ref = own_next ow, lease_self = True, lease_revision = expected\<rparr> \<and>
        expected = ob_revision (own_baseline ow) \<and> length (own_leases ow) < maxPolicyLeases \<and>
        check_locked ow ctx w = None \<and>
        p = ow\<lparr>own_leases := l # own_leases ow, own_next := own_next ow + 1\<rparr>)"
proof -
  obtain r1 p1 w1 where o: "observe_locked K W ow (the ctx) w = (r1, p1, w1)" by (metis prod.collapse)
  show ?thesis using assms o observe_locked_state [OF o]
    by (cases r1) (auto simp: owned_acquire_def Let_def split: if_splits option.splits)
qed

lemma commit_backend_locked_state:
  assumes "commit_backend_locked marshal ow b ctx expected next w = (r, p, w')"
  shows "epoch_frame ow p \<and> (own_review ow \<longrightarrow> own_review p)"
proof -
  obtain r1 w1 where 1: "be_commit b ctx expected next w = (r1, w1)" by fastforce
  obtain r2 w2 where 2: "be_capture b ctx w1 = (r2, w2)" by fastforce
  show ?thesis using assms 1 2
    by (cases r1; cases r2)
      (auto simp: commit_backend_locked_def epoch_frame_def split: if_splits option.splits)
qed

definition commit_frame :: "('d, 'w) owned \<Rightarrow> ('d, 'w) owned \<Rightarrow> bool" where
  "commit_frame ow p \<longleftrightarrow> own_self p = own_self ow \<and> own_backend p = own_backend ow \<and>
     own_leases p = own_leases ow \<and> own_released p = own_released ow \<and> own_next p = own_next ow \<and>
     own_closed p = own_closed ow \<and> own_close_failed p = own_close_failed ow \<and>
     (own_review ow \<longrightarrow> own_review p)"

lemma commit_store_locked_state:
  assumes "commit_store_locked K W ow s ctx expected next w = (r, p, w')"
  shows "commit_frame ow p"
proof -
  obtain r1 s1 w1 where 1: "store_commit K s expected next w = (r1, s1, w1)" by (metis prod.collapse)
  obtain r2 p2 w2 where 2: "new_epoch_locked K W (ow\<lparr>own_store := Some s1\<rparr>) s1 w1 = (r2, p2, w2)"
    by (metis prod.collapse)
  have "commit_frame ow p2"
    using new_epoch_locked_state [OF 2] by (simp add: epoch_frame_def commit_frame_def)
  moreover then have "commit_frame ow (quarantine p2)" by (simp add: commit_frame_def)
  moreover have "commit_frame ow (quarantine (ow\<lparr>own_store := Some s1\<rparr>))"
    "commit_frame ow (ow\<lparr>own_store := Some s1\<rparr>)" by (simp_all add: commit_frame_def)
  ultimately show ?thesis using assms 1 2
    by (cases r1; cases r2) (auto simp: commit_store_locked_def Let_def split: if_splits option.splits)
qed

lemma owned_commit_state:
  assumes "owned_commit K W marshal ow ctx expected next w = (r, p, w')"
  shows "commit_frame ow p \<and> (own_leases ow \<noteq> [] \<longrightarrow> p = ow \<or> p = quarantine ow)"
proof -
  obtain r1 p1 w1 where o: "observe_locked K W ow (the ctx) w = (r1, p1, w1)" by (metis prod.collapse)
  have f: "commit_frame ow ow" "commit_frame ow (quarantine ow)" by (simp_all add: commit_frame_def)
  show ?thesis
  proof (cases "\<not> owned_valid ow \<or> check_locked ow ctx w \<noteq> None \<or> (\<exists>e. r1 = Inl e) \<or> own_leases ow \<noteq> [] \<or>
      the ctx w1 \<noteq> None")
    case True
    then show ?thesis using assms o observe_locked_state [OF o] f
      by (cases r1) (auto simp: owned_commit_def split: if_splits option.splits)
  next
    case False
    then obtain d where r1: "r1 = Inr d" by (cases r1) auto
    then have p1: "p1 = ow" using observe_locked_state [OF o] by simp
    show ?thesis
    proof (cases "own_backend ow")
      case None
      then have "commit_store_locked K W ow (the (own_store ow)) (the ctx) expected next w1 = (r, p, w')"
        using assms o r1 p1 False by (simp add: owned_commit_def)
      from commit_store_locked_state [OF this] show ?thesis using False by simp
    next
      case (Some b)
      then have "commit_backend_locked marshal ow b (the ctx) expected next w1 = (r, p, w')"
        using assms o r1 p1 False by (simp add: owned_commit_def)
      from commit_backend_locked_state [OF this] show ?thesis
        using False by (simp add: epoch_frame_def commit_frame_def)
    qed
  qed
qed

lemma owned_close_state:
  assumes "owned_close K W ow w = (r, p, w')"
  shows "(own_leases ow \<noteq> [] \<longrightarrow> p = ow \<and> w' = w) \<and> own_baseline p = own_baseline ow \<and>
    own_self p = own_self ow \<and> own_backend p = own_backend ow \<and>
    own_leases p = own_leases ow \<and> own_released p = own_released ow \<and> own_next p = own_next ow \<and>
    (own_review ow \<longrightarrow> own_review p)"
  using assms by (auto simp: owned_close_def Let_def split: if_splits option.splits prod.splits)

subsection \<open>Runs of an owner\<close>

text \<open>One rule per exported method; the arguments, and what the system calls do, are arbitrary.\<close>

inductive owned_step ::
  "'w kernel \<Rightarrow> 'w watcher \<Rightarrow> ('d \<Rightarrow> string option) \<Rightarrow> ('d, 'w) owned \<times> 'w \<Rightarrow> ('d, 'w) owned \<times> 'w \<Rightarrow> bool"
  for K W marshal where
  snapshot: "owned_snapshot K W ow ctx w = (r, p, w') \<Longrightarrow> owned_step K W marshal (ow, w) (p, w')"
| acquire: "owned_acquire K W ow ctx expected w = (rl, p, w') \<Longrightarrow> owned_step K W marshal (ow, w) (p, w')"
| commit: "owned_commit K W marshal ow ctx expected next w = (e, p, w') \<Longrightarrow>
    owned_step K W marshal (ow, w) (p, w')"
| lease_read: "lease_snapshot K W ow l ctx w = (r, p, w') \<Longrightarrow> owned_step K W marshal (ow, w) (p, w')"
| release: "lease_release ow l = (e, p) \<Longrightarrow> owned_step K W marshal (ow, w) (p, w)"
| close: "owned_close K W ow w = (e, p, w') \<Longrightarrow> owned_step K W marshal (ow, w) (p, w')"

definition owned_wf :: "('d, 'w) owned \<Rightarrow> bool" where
  "owned_wf ow \<longleftrightarrow> distinct (own_leases ow) \<and> length (own_leases ow) \<le> maxPolicyLeases \<and>
     set (own_leases ow) \<inter> set (own_released ow) = {} \<and>
     (\<forall>l \<in> set (own_leases ow). lease_revision l = ob_revision (own_baseline ow)) \<and>
     (\<forall>l \<in> set (own_leases ow) \<union> set (own_released ow). lease_ref l < own_next ow)"

lemma owned_wf_frame:
  assumes "owned_wf ow" "own_leases p = own_leases ow" "own_released p = own_released ow"
    "own_next p = own_next ow" "own_leases ow = [] \<or> own_baseline p = own_baseline ow"
  shows "owned_wf p"
  using assms unfolding owned_wf_def by (cases "own_leases ow") simp_all

lemma owned_wf_quarantine [simp]: "owned_wf (quarantine ow) = owned_wf ow"
  by (simp add: owned_wf_def)

lemma owned_wf_acquire:
  assumes "owned_wf ow" "length (own_leases ow) < maxPolicyLeases"
    "l = \<lparr>lease_ref = own_next ow, lease_self = True, lease_revision = ob_revision (own_baseline ow)\<rparr>"
  shows "owned_wf (ow\<lparr>own_leases := l # own_leases ow, own_next := own_next ow + 1\<rparr>)"
proof -
  have "l \<notin> set (own_leases ow) \<union> set (own_released ow)"
    using assms(1,3) unfolding owned_wf_def by force
  then show ?thesis using assms by (auto simp: owned_wf_def less_Suc_eq)
qed

lemma lease_release_state:
  assumes "lease_release ow l = (e, p)"
  shows "p = ow \<or> (l \<in> set (own_leases ow) \<and>
    p = ow\<lparr>own_leases := filter (\<lambda>x. x \<noteq> l) (own_leases ow), own_released := l # own_released ow\<rparr>)"
  using assms by (auto simp: lease_release_def split: if_splits)

lemma owned_wf_release:
  assumes "owned_wf ow" "l \<in> set (own_leases ow)"
  shows "owned_wf (ow\<lparr>own_leases := filter (\<lambda>x. x \<noteq> l) (own_leases ow), own_released := l # own_released ow\<rparr>)"
proof -
  have "length (filter (\<lambda>x. x \<noteq> l) (own_leases ow)) \<le> maxPolicyLeases"
    using assms(1) le_trans [OF length_filter_le] by (auto simp: owned_wf_def)
  then show ?thesis using assms by (auto simp: owned_wf_def)
qed

text \<open>What a single step can do to the leases, and what it cannot while one is held.\<close>

lemma owned_step_frame:
  assumes "owned_step K W marshal (ow, w) (p, w')" "owned_wf ow"
  shows "owned_wf p \<and> own_backend p = own_backend ow \<and> (own_review ow \<longrightarrow> own_review p) \<and>
    set (own_leases ow) \<subseteq> set (own_leases p) \<union> set (own_released p) \<and>
    set (own_released ow) \<subseteq> set (own_released p) \<and>
    (own_leases ow \<noteq> [] \<longrightarrow> own_baseline p = own_baseline ow \<and> own_closed p = own_closed ow)"
  using assms(1)
proof cases
  case (snapshot ctx r)
  from owned_snapshot_state [OF this] show ?thesis using assms(2) by auto
next
  case (acquire ctx expected rl)
  from owned_acquire_state [OF this] show ?thesis
    using assms(2) owned_wf_acquire [OF assms(2)] by (cases rl) auto
next
  case (commit ctx expected "next" e)
  from owned_commit_state [OF this] have c: "commit_frame ow p"
    "own_leases ow \<noteq> [] \<longrightarrow> own_baseline p = own_baseline ow" by auto
  then have "owned_wf p" using owned_wf_frame [OF assms(2), of p] by (auto simp: commit_frame_def)
  then show ?thesis using c by (simp add: commit_frame_def)
next
  case (lease_read l ctx r)
  from lease_snapshot_state [OF this] show ?thesis using assms(2) by auto
next
  case (release l e)
  from lease_release_state [OF this(2)] show ?thesis
    using assms(2) owned_wf_release [OF assms(2), of l] by auto
next
  case (close e)
  note c = owned_close_state [OF this]
  then have "owned_wf p" using owned_wf_frame [OF assms(2), of p] by simp
  then show ?thesis using c by auto
qed

subsection \<open>What an owner does to the directory\<close>

locale watched_dir = posix_dir K dv fv syn cr
  for K :: "'w kernel" and dv fv syn cr +
  fixes W :: "'w watcher"
  assumes wk_proc: "wk_proc W w = (b, w') \<Longrightarrow> keeps dv syn cr {} w w'"
    and wk_init: "wk_init W w = (f, w') \<Longrightarrow> keeps dv syn cr {} w w'"
    and wk_add: "wk_add W fd w = (b, w') \<Longrightarrow> keeps dv syn cr {} w w'"
    and wk_close: "wk_close W fd w = (b, w') \<Longrightarrow> keeps dv syn cr {} w w'"
    and wk_again: "wk_again W fd w = (b, w') \<Longrightarrow> keeps dv syn cr {} w w' \<and> fv w' = fv w"
begin

lemma keeps0_trans: "keeps dv syn cr {} w w' \<Longrightarrow> keeps dv syn cr {} w' w'' \<Longrightarrow> keeps dv syn cr {} w w''"
  by (rule keeps_trans)

lemma quiet_keeps: "quiet W ow w = (b, w') \<Longrightarrow> keeps dv syn cr {} w w'"
  using wk_again by (auto simp: quiet_def split: if_splits)

lemma close_keeps: "keeps dv syn cr {} w w' \<Longrightarrow> keeps dv syn cr {} w (snd (k_close K fd w'))"
  using keeps0_trans close by (metis prod.collapse)

lemma metadata_ok_keeps:
  assumes "metadata_ok K s fd dir st0 w = (m, w')"
  shows "keeps dv syn cr {} w w'"
proof -
  obtain a w1 where 1: "k_fstat K fd w = (a, w1)" by fastforce
  obtain b w2 where 2: "k_fstatat K (codec_current_name (store_codec s)) w1 = (b, w2)" by fastforce
  obtain c w3 where 3: "k_fstat_dir K w2 = (c, w3)" by fastforce
  have k1: "keeps dv syn cr {} w w1" using fstat [OF 1] by simp
  then have k2: "keeps dv syn cr {} w w2" using keeps0_trans fstatat [OF 2] by iprover
  then have k3: "keeps dv syn cr {} w w3" using keeps0_trans fstat_dir [OF 3] by iprover
  show ?thesis using assms 1 2 3 k1 k2 k3
    by (cases a; cases b; cases c) (auto simp: metadata_ok_def)
qed

lemma capture_file_spec:
  assumes "capture_file K W ow s dir fd w = (x, w')" "fv w fd = Some (codec_current_name (store_codec s))"
    "doc_codec (store_codec s)"
  shows "keeps dv syn cr {} w w' \<and> (\<forall>d ob. x = Some (d, ob) \<longrightarrow>
     doc_at dv (store_codec s) w = Some d \<and> ob_revision ob = codec_revision (store_codec s) d \<and>
     (\<exists>e. codec_marshal (store_codec s) d = Some e \<and> ob_digest ob = sha256 e))"
proof -
  let ?C = "store_codec s"
  obtain a w1 where 1: "k_fstat K fd w = (a, w1)" by fastforce
  obtain r w2 where 2: "k_read K fd w1 = (r, w2)" by fastforce
  obtain m w3 where 3: "metadata_ok K s fd dir (the a) w2 = (m, w3)" by fastforce
  obtain c w4 where 4: "k_close K fd w3 = (c, w4)" by fastforce
  obtain q w5 where 5: "quiet W ow w4 = (q, w5)" by fastforce
  have k1: "keeps dv syn cr {} w w1" using fstat [OF 1] by simp
  have k2: "keeps dv syn cr {} w w2" using keeps0_trans [OF k1] read [OF 2] by iprover
  have k3: "keeps dv syn cr {} w w3" by (rule keeps0_trans [OF k2 metadata_ok_keeps [OF 3]])
  have k4: "keeps dv syn cr {} w w4" by (rule keeps0_trans [OF k3 close [OF 4]])
  have k5: "keeps dv syn cr {} w w5" by (rule keeps0_trans [OF k4 quiet_keeps [OF 5]])
  have doc: "doc_at dv ?C w = Some d" if "codec_decode ?C r = Some d" for d
  proof -
    have "\<not> snd r" using that doc_codec.decode_fails [OF assms(3), of "fst r"] by (cases r) auto
    then have "dv w1 (codec_current_name ?C) = Some (fst r)"
      using read [OF 2] fstat [OF 1] assms(2) by simp
    then have "dv w (codec_current_name ?C) = Some (fst r)" using k1 by (simp add: keeps_def)
    then show ?thesis using that \<open>\<not> snd r\<close> by (cases r) (simp add: doc_at_def reader_of_def)
  qed
  show ?thesis
  proof (cases a)
    case None
    then show ?thesis using assms(1) 1 close_keeps [OF k1] by (auto simp: capture_file_def)
  next
    case (Some st0)
    show ?thesis
    proof (cases "st_dev st0 = st_dev dir")
      case False
      then show ?thesis using assms(1) 1 Some close_keeps [OF k1] by (auto simp: capture_file_def)
    next
      case True
      then show ?thesis using assms(1) 1 2 3 4 5 Some k4 k5 doc
        by (auto simp: capture_file_def Let_def split: if_splits option.splits)
    qed
  qed
qed

end

locale owned_env = watched_dir K dv fv syn cr W + doc_codec C
  for K :: "'w kernel" and dv fv syn cr and W :: "'w watcher" and C :: "'d codec"

sublocale owned_env \<subseteq> engine: store_env K dv fv syn cr C
  by unfold_locales

context owned_env
begin

lemma capture_locked_spec:
  assumes "capture_locked K W ow s w = (r, p, w')" "store_codec s = C"
  shows "keeps dv syn cr {} w w' \<and> (\<forall>d ob. r = Inr (d, ob) \<longrightarrow>
     doc_at dv C w = Some d \<and> ob_revision ob = codec_revision C d \<and>
     (\<exists>e. codec_marshal C d = Some e \<and> ob_digest ob = sha256 e))"
proof -
  obtain q w1 where 1: "quiet W ow w = (q, w1)" by fastforce
  obtain dir w2 where 2: "k_fstat_dir K w1 = (dir, w2)" by fastforce
  obtain f w3 where 3: "open_current K s w2 = (f, w3)" by fastforce
  note k1 = quiet_keeps [OF 1]
  note k2 = keeps0_trans [OF k1 fstat_dir [OF 2]]
  note o3 = engine.open_current_spec [OF 3 assms(2)]
  note k3 = keeps0_trans [OF k2 conjunct1 [OF o3]]
  show ?thesis
  proof (cases "q \<and> store_check s = None \<and> (\<exists>d. dir = Some d \<and> capture_dir_ok K d) \<and> (\<exists>fd. f = Inr fd)")
    case False
    then show ?thesis using assms 1 2 3 k1 k2 k3
      by (cases dir; cases f) (auto simp: capture_locked_def Let_def split: if_splits)
  next
    case True
    then obtain d fd where d: "dir = Some d" "f = Inr fd" by blast
    obtain x w4 where 4: "capture_file K W ow s d fd w3 = (x, w4)" by fastforce
    have "doc_at dv C w3 = doc_at dv C w" using k3 by (simp add: doc_at_def keeps_def)
    moreover have "fv w3 fd = Some (codec_current_name (store_codec s))" using o3 d assms(2) by simp
    ultimately have c: "keeps dv syn cr {} w3 w4" "\<forall>d ob. x = Some (d, ob) \<longrightarrow>
       doc_at dv C w = Some d \<and> ob_revision ob = codec_revision C d \<and>
       (\<exists>e. codec_marshal C d = Some e \<and> ob_digest ob = sha256 e)"
      using capture_file_spec [OF 4] assms(2) doc_codec_axioms by simp_all
    then show ?thesis using assms 1 2 3 4 True d keeps0_trans [OF k3 c(1)]
      by (cases x) (auto simp: capture_locked_def Let_def)
  qed
qed

lemma observe_locked_spec:
  assumes "observe_locked K W ow ctx w = (r, p, w')" "own_backend ow = None" "own_store ow = Some s"
    "store_codec s = C"
  shows "keeps dv syn cr {} w w' \<and> (\<forall>d. r = Inr d \<longrightarrow> doc_at dv C w = Some d \<and>
     codec_revision C d = ob_revision (own_baseline ow) \<and>
     (\<exists>e. codec_marshal C d = Some e \<and> sha256 e = ob_digest (own_baseline ow)))"
proof -
  obtain r1 p1 w1 where c: "capture_locked K W ow s w = (r1, p1, w1)" by (metis prod.collapse)
  note st = capture_locked_state [OF c] and sp = capture_locked_spec [OF c assms(4)]
  show ?thesis
  proof (cases r1)
    case (Inl e)
    then show ?thesis using assms c sp by (auto simp: observe_locked_def)
  next
    case (Inr x)
    then obtain d ob where x: "r1 = Inr (d, ob)" by (cases x) auto
    then have "p1 = ow" using st by auto
    then show ?thesis using assms c sp x
      by (auto simp: observe_locked_def split: if_splits)
  qed
qed

text \<open>While a lease is held every method only reads the directory.\<close>

lemma owned_snapshot_spec:
  assumes "owned_snapshot K W ow ctx w = (r, p, w')" "own_backend ow = None" "own_store ow = Some s"
    "store_codec s = C"
  shows "keeps dv syn cr {} w w' \<and> (\<forall>d. r = Inr d \<longrightarrow> \<not> own_review ow \<and> doc_at dv C w = Some d \<and>
     codec_revision C d = ob_revision (own_baseline ow) \<and>
     (\<exists>e. codec_marshal C d = Some e \<and> sha256 e = ob_digest (own_baseline ow)))"
proof -
  obtain r1 p1 w1 where o: "observe_locked K W ow (the ctx) w = (r1, p1, w1)" by (metis prod.collapse)
  note sp = observe_locked_spec [OF o assms(2-4)]
  have chk: "check_locked ow ctx w = None \<Longrightarrow> \<not> own_review ow"
    by (auto simp: check_locked_def split: if_splits)
  show ?thesis
  proof (cases "owned_valid ow \<and> check_locked ow ctx w = None")
    case True
    then show ?thesis using assms(1) o sp chk
      by (cases r1; cases "the ctx w1") (auto simp: owned_snapshot_def)
  next
    case False
    then show ?thesis using assms(1) by (auto simp: owned_snapshot_def split: if_splits option.splits)
  qed
qed

lemma owned_acquire_keeps:
  assumes "owned_acquire K W ow ctx expected w = (r, p, w')" "own_backend ow = None" "own_store ow = Some s"
    "store_codec s = C"
  shows "keeps dv syn cr {} w w'"
proof -
  obtain r1 p1 w1 where o: "observe_locked K W ow (the ctx) w = (r1, p1, w1)" by (metis prod.collapse)
  have "w' = w \<or> w' = w1" using assms(1) o
    by (cases r1) (auto simp: owned_acquire_def Let_def split: if_splits option.splits)
  then show ?thesis using observe_locked_spec [OF o assms(2-4)] by auto
qed

lemma lease_snapshot_keeps:
  assumes "lease_snapshot K W ow l ctx w = (r, p, w')" "own_backend ow = None" "own_store ow = Some s"
    "store_codec s = C"
  shows "keeps dv syn cr {} w w'"
proof -
  obtain r1 p1 w1 where o: "observe_locked K W ow (the ctx) w = (r1, p1, w1)" by (metis prod.collapse)
  have "w' = w \<or> w' = w1" using assms(1) o
    by (cases r1) (auto simp: lease_snapshot_def Let_def split: if_splits option.splits)
  then show ?thesis using observe_locked_spec [OF o assms(2-4)] by auto
qed

lemma owned_commit_held_keeps:
  assumes "owned_commit K W marshal ow ctx expected next w = (r, p, w')" "own_backend ow = None"
    "own_store ow = Some s" "store_codec s = C" "own_leases ow \<noteq> []"
  shows "keeps dv syn cr {} w w'"
proof -
  obtain r1 p1 w1 where o: "observe_locked K W ow (the ctx) w = (r1, p1, w1)" by (metis prod.collapse)
  have "r1 = Inr d \<Longrightarrow> own_leases p1 \<noteq> []" for d using observe_locked_state [OF o] assms(5) by simp
  then have "w' = w \<or> w' = w1" using assms(1) o
    by (cases r1) (auto simp: owned_commit_def Let_def split: if_splits option.splits)
  then show ?thesis using observe_locked_spec [OF o assms(2-4)] by auto
qed

lemma held_step_keeps:
  assumes "owned_step K W marshal (ow, w) (p, w')" "own_backend ow = None" "own_store ow = Some s"
    "store_codec s = C" "own_leases ow \<noteq> []"
  shows "keeps dv syn cr {} w w' \<and> own_store p = Some s"
  using assms(1)
proof cases
  case (snapshot ctx r)
  then show ?thesis using owned_snapshot_spec [OF snapshot assms(2-4)] owned_snapshot_state [OF snapshot] assms(3)
    by auto
next
  case (acquire ctx expected rl)
  then show ?thesis using owned_acquire_keeps [OF acquire assms(2-4)] owned_acquire_state [OF acquire] assms(3)
    by (cases rl) auto
next
  case (commit ctx expected "next" e)
  then show ?thesis
    using owned_commit_held_keeps [OF commit assms(2-5)] owned_commit_state [OF commit] assms(3,5) by auto
next
  case (lease_read l ctx r)
  then show ?thesis
    using lease_snapshot_keeps [OF lease_read assms(2-4)] lease_snapshot_state [OF lease_read] assms(3) by auto
next
  case (release l e)
  then show ?thesis using lease_release_state [OF release(2)] assms(3) by auto
next
  case (close e)
  then show ?thesis using owned_close_state [OF close] assms(3,5) by simp
qed

lemma lease_pins_run:
  assumes "(owned_step K W marshal)\<^sup>*\<^sup>* (ow, w) x" "owned_wf ow" "own_backend ow = None"
    "own_store ow = Some s" "store_codec s = C" "l \<in> set (own_leases ow)"
  shows "owned_wf (fst x) \<and> own_backend (fst x) = None \<and>
    l \<in> set (own_leases (fst x)) \<union> set (own_released (fst x)) \<and>
    (l \<in> set (own_leases (fst x)) \<longrightarrow> own_store (fst x) = Some s \<and>
       own_baseline (fst x) = own_baseline ow \<and> own_closed (fst x) = own_closed ow \<and>
       keeps dv syn cr {} w (snd x))"
  using assms(1)
proof (induction rule: rtranclp_induct)
  case base
  then show ?case using assms by simp
next
  case (step x y)
  obtain p v q u where xy: "x = (p, v)" "y = (q, u)" by fastforce
  note st = step.hyps(2) [unfolded xy]
  note ih = step.IH [unfolded xy fst_conv snd_conv]
  note fr = owned_step_frame [OF st conjunct1 [OF ih]]
  have mem: "l \<in> set (own_leases p)" if "l \<in> set (own_leases q)"
    using that fr ih unfolding owned_wf_def by auto
  have "own_store q = Some s \<and> own_baseline q = own_baseline ow \<and> own_closed q = own_closed ow \<and>
       keeps dv syn cr {} w u" if l: "l \<in> set (own_leases q)"
  proof -
    have ne: "own_leases p \<noteq> []" using mem [OF l] by auto
    have p: "own_backend p = None" "own_store p = Some s" "keeps dv syn cr {} w v"
      using ih mem [OF l] by simp_all
    show ?thesis using held_step_keeps [OF st p(1,2) assms(5) ne] fr ih mem [OF l] ne
      keeps0_trans [OF p(3)] by simp
  qed
  then show ?case using fr ih by (auto simp: xy)
qed

lemma new_epoch_locked_spec:
  assumes "new_epoch_locked K W ow s w = (r, p, w')" "store_codec s = C"
  shows "keeps dv syn cr {} w w' \<and> (r = None \<longrightarrow> own_review p = own_review ow)"
proof -
  obtain b w1 where 1: "wk_proc W w = (b, w1)" by fastforce
  obtain f w2 where 2: "wk_init W w1 = (f, w2)" by fastforce
  obtain a w3 where 3: "wk_add W (the f) w2 = (a, w3)" by fastforce
  obtain c w3' where c3: "wk_close W (the f) w3 = (c, w3')" by fastforce
  obtain ok w4 where 4: "(if own_watch ow \<ge> 0 then wk_close W (own_watch ow) w3 else (True, w3)) = (ok, w4)"
    by fastforce
  obtain r5 p5 w5 where 5: "capture_locked K W (ow\<lparr>own_watch := the f\<rparr>) s w4 = (r5, p5, w5)"
    by (metis prod.collapse)
  note k1 = wk_proc [OF 1]
  note k2 = keeps0_trans [OF k1 wk_init [OF 2]]
  note k3 = keeps0_trans [OF k2 wk_add [OF 3]]
  note k3' = keeps0_trans [OF k3 wk_close [OF c3]]
  have "keeps dv syn cr {} w3 w4" using 4 wk_close [of "own_watch ow" w3 ok w4] by (auto split: if_splits)
  note k4 = keeps0_trans [OF k3 this]
  note k5 = keeps0_trans [OF k4 conjunct1 [OF capture_locked_spec [OF 5 assms(2)]]]
  have p5: "r5 = Inr y \<Longrightarrow> own_review p5 = own_review ow" for y using capture_locked_state [OF 5] by auto
  show ?thesis
    using assms 1 2 3 c3 4 5 k1 k2 k3 k3' k4 k5 p5 unfolding new_epoch_locked_def
    by (cases b; cases f; cases a; cases ok; cases r5) (auto simp: Let_def split: prod.splits)
qed

lemma owned_commit_spec:
  assumes "owned_commit K W marshal ow ctx expected next w = (None, p, w')" "own_backend ow = None"
    "own_store ow = Some s" "store_codec s = C"
  shows "own_leases ow = [] \<and> \<not> own_review p \<and> expected = ob_revision (own_baseline ow) \<and>
    ob_revision (own_baseline p) = expected + 1 \<and> codec_revision C next = expected + 1 \<and>
    doc_at dv C w' = Some next \<and> crash_docs cr C w' \<subseteq> {Some next} \<and>
    (\<exists>e. codec_marshal C next = Some e \<and> ob_digest (own_baseline p) = sha256 e)"
proof -
  obtain r1 p1 w1 where o: "observe_locked K W ow (the ctx) w = (r1, p1, w1)" by (metis prod.collapse)
  obtain r2 s2 w2 where c: "store_commit K s expected next w1 = (r2, s2, w2)" by (metis prod.collapse)
  obtain r3 p3 w3 where n: "new_epoch_locked K W (ow\<lparr>own_store := Some s2\<rparr>) s2 w2 = (r3, p3, w3)"
    by (metis prod.collapse)
  have chk: "check_locked ow ctx w = None" using assms(1) by (auto simp: owned_commit_def split: if_splits option.splits)
  then have rev: "\<not> own_review ow" by (auto simp: check_locked_def split: if_splits)
  obtain d where d: "r1 = Inr d" using assms(1) o chk by (cases r1) (auto simp: owned_commit_def split: if_splits)
  then have p1: "p1 = ow" using observe_locked_state [OF o] by simp
  have b: "own_leases ow = []" "commit_store_locked K W ow s (the ctx) expected next w1 = (None, p, w')"
    using assms o d p1 chk by (auto simp: owned_commit_def split: if_splits option.splits)
  have r2: "r2 = None" "r3 = None" "p = p3" "w' = w3"
    "ob_revision (own_baseline p) = codec_revision (store_codec s2) next"
    "\<exists>e. codec_marshal (store_codec s2) next = Some e \<and> ob_digest (own_baseline p) = sha256 e"
    using b(2) c n by (cases r2; cases r3; auto simp: commit_store_locked_def Let_def split: if_splits option.splits)+
  note sp = observe_locked_spec [OF o assms(2-4)]
  have dw: "doc_at dv C w1 = Some d" using sp d by (simp add: keeps_def doc_at_def)
  have st: "s2 = s" "codec_revision C next = expected + 1" "codec_revision C d = expected"
    "doc_at dv C w2 = Some next" "settled dv cr C w2"
    using engine.store_commit_spec [OF c assms(4)] r2(1) dw by auto
  have k: "keeps dv syn cr {} w2 w3" "own_review p3 = own_review ow"
    using new_epoch_locked_spec [OF n] st(1) assms(4) r2(2) by simp_all
  have "doc_at dv C w3 = Some next" "settled dv cr C w3"
    using k(1) st(4,5) by (auto simp: doc_at_def settled_def keeps_def)
  then show ?thesis using settled_crash_docs [of dv cr C w3] b(1) k(2) rev r2 st sp d assms(4) by simp
qed

end

subsection \<open>The simulated disk with a watch\<close>

definition disk_watcher :: "disk watcher" where
  "disk_watcher = \<lparr>wk_proc = disk_call True False, wk_init = disk_call (Some 9) None,
     wk_add = (\<lambda>fd. disk_call True False), wk_close = (\<lambda>fd. disk_call True False),
     wk_again = (\<lambda>fd. disk_call True False)\<rparr>"

interpretation disk_watch: owned_env disk_kernel dk_files dk_fds dk_synced dk_crash disk_watcher tally_codec
proof -
  have c: "keeps dk_files dk_synced dk_crash {} w w' \<and> dk_fds w' = dk_fds w"
    if "disk_call good bad w = (x, w')" for good bad x :: 'a and w w'
    using that faulty_same by (auto simp: disk_call_def keeps_def split: prod.splits if_splits)
  show "owned_env disk_kernel dk_files dk_fds dk_synced dk_crash disk_watcher tally_codec"
    by unfold_locales (auto simp: disk_watcher_def dest: c)
qed

text \<open>A disk holding revision 1, and the owner of it.\<close>

definition tally_disk :: disk where
  "tally_disk = (empty_disk [])\<lparr>dk_files := (\<lambda>_. None)(''state.json'' := Some ''I''),
     dk_crash := (\<lambda>_. {None})(''state.json'' := {Some ''I''})\<rparr>"

definition tally_owner :: "(nat, disk) owned" where
  "tally_owner = \<lparr>own_self = True, own_store = Some (tally_store\<lparr>store_noatime := True\<rparr>),
     own_backend = None, own_watch = 9,
     own_baseline = \<lparr>ob_directory = policyStamp disk_dir_stat, ob_file = policyStamp (disk_stat ''I''),
       ob_digest = sha256 ''I'', ob_revision = 1\<rparr>,
     own_leases = [], own_released = [], own_next = 0, own_review = False, own_closed = False,
     own_close_failed = False\<rparr>"

lemmas owner_simps = owned_acquire_def owned_commit_def owned_snapshot_def owned_valid_def check_locked_def
  observe_locked_def capture_locked_def capture_file_def capture_dir_ok_def metadata_ok_def quiet_def
  new_epoch_locked_def commit_store_locked_def policyStamp_def disk_watcher_def disk_dir_stat_def
  tally_owner_def tally_disk_def quarantine_def lease_release_def lease_valid_def
  S_IFDIR_def mode_0700_def maxPolicyLeases_def

definition tally_lease :: lease where
  "tally_lease = \<lparr>lease_ref = 0, lease_self = True, lease_revision = 1\<rparr>"

definition tally_leased :: "(nat, disk) owned" where
  "tally_leased = tally_owner\<lparr>own_leases := [tally_lease], own_next := 1\<rparr>"

lemma tally_owner_store:
  "own_store tally_owner = Some (tally_store\<lparr>store_noatime := True\<rparr>)" "own_backend tally_owner = None"
  "store_codec (tally_store\<lparr>store_noatime := True\<rparr>) = tally_codec"
  "own_store tally_leased = Some (tally_store\<lparr>store_noatime := True\<rparr>)" "own_backend tally_leased = None"
  "own_leases tally_leased = [tally_lease]"
  by (simp_all add: tally_owner_def tally_leased_def tally_store_def)

lemma tally_acquire:
  "\<exists>w'. owned_acquire disk_kernel disk_watcher tally_owner (Some (\<lambda>_. None)) 1 tally_disk =
     (Inr tally_lease, tally_leased, w')"
  by (simp add: owner_simps run_simps tally_lease_def tally_leased_def)

lemma tally_busy:
  "\<exists>w'. owned_commit disk_kernel disk_watcher (codec_marshal tally_codec) tally_leased (Some (\<lambda>_. None)) 1 2 tally_disk =
     (Some (Store_Err ErrBusy), tally_leased, w')"
  by (simp add: owner_simps run_simps tally_lease_def tally_leased_def)

lemma tally_commit:
  "fst (owned_commit disk_kernel disk_watcher (codec_marshal tally_codec) tally_owner (Some (\<lambda>_. None)) 1 2 tally_disk) = None"
  by (simp add: owner_simps run_simps numeral_eq_Suc)

lemma tally_open:
  "is_ok (fst (open_owned_with_codec disk_kernel disk_watcher ''/s'' tally_codec tally_disk))"
  by (simp add: owner_simps run_simps open_owned_with_codec_def open_with_codec_def open_descriptor_with_codec_def sync_current_def codec_valid_def valid_name_def path_clean_def path_base_def has_prefix_def)

lemma tally_open_snapshot:
  "case open_owned_with_codec disk_kernel disk_watcher ''/s'' tally_codec tally_disk of (r, w) \<Rightarrow>
     \<forall>ow. r = Inr ow \<longrightarrow> fst (owned_snapshot disk_kernel disk_watcher ow (Some (\<lambda>_. None)) w) = Inr 1"
  by (simp add: owner_simps run_simps open_owned_with_codec_def open_with_codec_def
      open_descriptor_with_codec_def sync_current_def codec_valid_def valid_name_def path_clean_def
      path_base_def has_prefix_def)

lemma tally_snapshot:
  "fst (owned_snapshot disk_kernel disk_watcher tally_owner (Some (\<lambda>_. None)) tally_disk) = Inr 1"
  by (simp add: owner_simps run_simps)

subsection \<open>Properties\<close>

lemma owned_steps_wf:
  assumes "(owned_step K W marshal)\<^sup>*\<^sup>* x y" "owned_wf (fst x)"
  shows "owned_wf (fst y) \<and> (own_review (fst x) \<longrightarrow> own_review (fst y))"
  using assms
proof (induction rule: rtranclp_induct)
  case (step y z)
  obtain p v q u where "y = (p, v)" "z = (q, u)" by fastforce
  then show ?case using step owned_step_frame [of K W marshal p v q u] by simp
qed simp

lemma open_owned_wf:
  assumes "open_owned_with_codec K W directory codec w = (Inr ow, w')"
  shows "owned_wf ow"
proof -
  obtain r w1 where 1: "open_with_codec K directory codec w = (r, w1)" by fastforce
  then obtain s where r: "r = Inr s" using assms by (cases r) (auto simp: open_owned_with_codec_def)
  define o0 :: "('a, 'b) owned" where "o0 = \<lparr>own_self = True, own_store = Some (s\<lparr>store_noatime := True\<rparr>), own_backend = None,
    own_watch = - 1, own_baseline = zero_observation, own_leases = [], own_released = [], own_next = 0,
    own_review = False, own_closed = False, own_close_failed = False\<rparr>"
  obtain e p w2 where 2: "new_epoch_locked K W o0 (s\<lparr>store_noatime := True\<rparr>) w1 = (e, p, w2)"
    by (metis prod.collapse)
  have "p = ow"
    using assms 1 2 r by (cases e) (auto simp: open_owned_with_codec_def o0_def Let_def split: prod.splits option.splits)
  then have "epoch_frame o0 ow" using new_epoch_locked_state [OF 2] by simp
  then show ?thesis by (simp add: epoch_frame_def owned_wf_def o0_def)
qed

text \<open>
  C13: every state of an owner that \<open>OpenOwnedWithCodec\<close> returned is well formed, whatever calls
  are made and whatever the system calls do: at most 256 distinct leases are held, none of them
  is also released, each is on the revision of the baseline; and review, once entered, stays.
\<close>

theorem owner_invariant:
  assumes "open_owned_with_codec K W directory codec w0 = (Inr ow, w)"
    and "(owned_step K W marshal)\<^sup>*\<^sup>* (ow, w) (p, v)"
    and "(owned_step K W marshal)\<^sup>*\<^sup>* (p, v) (q, u)"
  shows "owned_wf q \<and> length (own_leases q) \<le> 256 \<and>
    (\<forall>l \<in> set (own_leases q). lease_revision l = ob_revision (own_baseline q)) \<and>
    (own_review p \<longrightarrow> own_review q)"
proof -
  have "owned_wf p" using owned_steps_wf [OF assms(2)] open_owned_wf [OF assms(1)] by simp
  then have q: "owned_wf q" "own_review p \<longrightarrow> own_review q" using owned_steps_wf [OF assms(3)] by simp_all
  from q(1) have "length (own_leases q) \<le> 256"
    "\<forall>l \<in> set (own_leases q). lease_revision l = ob_revision (own_baseline q)"
    unfolding owned_wf_def maxPolicyLeases_def by iprover+
  then show ?thesis using q by iprover
qed

theorem owner_invariant_witness:
  "\<exists>ow w q u. open_owned_with_codec disk_kernel disk_watcher ''/s'' tally_codec tally_disk = (Inr ow, w) \<and>
     owned_snapshot disk_kernel disk_watcher ow (Some (\<lambda>_. None)) w = (Inr 1, q, u) \<and> owned_wf q"
proof -
  let ?x = "open_owned_with_codec disk_kernel disk_watcher ''/s'' tally_codec tally_disk"
  obtain r0 w where x0: "?x = (r0, w)" by (rule prod.exhaust)
  then obtain ow where "r0 = Inr ow" using tally_open unfolding is_ok_iff by auto
  note x = x0 [unfolded this]
  obtain r q u where s: "owned_snapshot disk_kernel disk_watcher ow (Some (\<lambda>_. None)) w = (r, q, u)"
    by (metis prod.collapse)
  then have "(owned_step disk_kernel disk_watcher (codec_marshal tally_codec))\<^sup>*\<^sup>* (ow, w) (q, u)"
    by (intro r_into_rtranclp owned_step.snapshot)
  from owner_invariant [OF x rtranclp.rtrancl_refl this] have "owned_wf q" by simp
  moreover have "r = Inr 1" using tally_open_snapshot x s by simp
  ultimately show ?thesis using x s by iprover
qed

text \<open>
  C3: a lease pins its document. From the state in which a lease is held to any later state in
  which it still is, whatever other calls were made and whatever failed in between, the baseline
  is the same, the store has not been closed, and no entry of the directory has changed.
\<close>

theorem lease_pins_document:
  assumes "owned_env K dv fv syn cr W C"
    and "own_store ow = Some s" and "own_backend ow = None" and "store_codec s = C" and "owned_wf ow"
    and "(owned_step K W marshal)\<^sup>*\<^sup>* (ow, w) (p, v)"
    and "l \<in> set (own_leases ow)" and "l \<in> set (own_leases p)"
  shows "own_baseline p = own_baseline ow \<and> lease_revision l = ob_revision (own_baseline p) \<and>
    own_closed p = own_closed ow \<and> dv v = dv w"
proof -
  note run = owned_env.lease_pins_run [OF assms(1,6,5,3,2,4,7), simplified]
  then have "dv v = dv w" using assms(8) by (simp add: keeps_def fun_eq_iff)
  then show ?thesis using run assms(8) by (simp add: owned_wf_def)
qed

theorem lease_pins_document_witness:
  "\<exists>w'. owned_commit disk_kernel disk_watcher (codec_marshal tally_codec) tally_leased (Some (\<lambda>_. None)) 1 2
     tally_disk = (Some (Store_Err ErrBusy), tally_leased, w') \<and> dk_files w' = dk_files tally_disk"
proof -
  obtain w' where c: "owned_commit disk_kernel disk_watcher (codec_marshal tally_codec) tally_leased
      (Some (\<lambda>_. None)) 1 2 tally_disk = (Some (Store_Err ErrBusy), tally_leased, w')"
    using tally_busy by (elim exE)
  then have "(owned_step disk_kernel disk_watcher (codec_marshal tally_codec))\<^sup>*\<^sup>*
      (tally_leased, tally_disk) (tally_leased, w')"
    by (intro r_into_rtranclp owned_step.commit)
  moreover have "owned_wf tally_leased"
    by (simp add: owned_wf_def tally_leased_def tally_lease_def tally_owner_def maxPolicyLeases_def)
  ultimately have "dk_files w' = dk_files tally_disk"
    using lease_pins_document [OF disk_watch.owned_env_axioms tally_owner_store(4,5,3), of _ tally_disk
        tally_leased w' tally_lease]
    by (simp add: tally_owner_store)
  then show ?thesis using c by iprover
qed

text \<open>
  C4: an owner's \<open>Commit\<close> that returns without error was made with no lease held and with the
  observed revision as the expected one; the new document is on disk and survives every power
  cut, and the new baseline is its revision, one higher, and its digest.
\<close>

theorem owner_commit_effect:
  assumes "owned_env K dv fv syn cr W C"
    and "own_store ow = Some s" and "own_backend ow = None" and "store_codec s = C"
    and "owned_commit K W marshal ow ctx expected next w = (None, p, w')"
  shows "own_leases ow = [] \<and> \<not> own_review p \<and> expected = ob_revision (own_baseline ow) \<and>
    ob_revision (own_baseline p) = expected + 1 \<and> codec_revision C next = expected + 1 \<and>
    doc_at dv C w' = Some next \<and> crash_docs cr C w' \<subseteq> {Some next} \<and>
    (\<exists>e. codec_marshal C next = Some e \<and> ob_digest (own_baseline p) = sha256 e)"
  by (rule owned_env.owned_commit_spec [OF assms(1,5,3,2,4)])

theorem owner_commit_effect_witness:
  "\<exists>p w'. owned_commit disk_kernel disk_watcher (codec_marshal tally_codec) tally_owner (Some (\<lambda>_. None)) 1 2
     tally_disk = (None, p, w') \<and> ob_revision (own_baseline p) = 2 \<and>
     crash_docs dk_crash tally_codec w' \<subseteq> {Some 2}"
proof -
  obtain e p w' where c: "owned_commit disk_kernel disk_watcher (codec_marshal tally_codec) tally_owner
      (Some (\<lambda>_. None)) 1 2 tally_disk = (e, p, w')" by (metis prod.collapse)
  then have "e = None" using tally_commit by simp
  note c' = c [unfolded this]
  show ?thesis
    using c' owner_commit_effect [OF disk_watch.owned_env_axioms tally_owner_store(1,2,3) c'] by simp
qed

text \<open>
  C14: \<open>Snapshot\<close> returns only the document the owner last established: the owner is not in
  review, the document is the one in the current file, and its revision and the digest of its
  encoding are those of the baseline.
\<close>

theorem owner_snapshot_exact:
  assumes "owned_env K dv fv syn cr W C"
    and "own_store ow = Some s" and "own_backend ow = None" and "store_codec s = C"
    and "owned_snapshot K W ow ctx w = (Inr d, p, w')"
  shows "\<not> own_review ow \<and> dv w' = dv w \<and> doc_at dv C w = Some d \<and>
    codec_revision C d = ob_revision (own_baseline ow) \<and>
    (\<exists>e. codec_marshal C d = Some e \<and> sha256 e = ob_digest (own_baseline ow))"
  using owned_env.owned_snapshot_spec [OF assms(1,5,3,2,4)] by (auto simp: keeps_def)

theorem owner_snapshot_exact_witness:
  "\<exists>p w'. owned_snapshot disk_kernel disk_watcher tally_owner (Some (\<lambda>_. None)) tally_disk = (Inr 1, p, w') \<and>
     doc_at dk_files tally_codec tally_disk = Some 1"
proof -
  obtain r p w' where c: "owned_snapshot disk_kernel disk_watcher tally_owner (Some (\<lambda>_. None)) tally_disk =
      (r, p, w')" by (metis prod.collapse)
  then have "r = Inr 1" using tally_snapshot by simp
  note c' = c [unfolded this]
  show ?thesis
    using c' owner_snapshot_exact [OF disk_watch.owned_env_axioms tally_owner_store(1,2,3) c'] by simp
qed

end
