(* ===== verification/MD_Metadata.thy ===== *)
theory MD_Metadata
  imports Sha256 "HOL-Library.List_Lexorder" "HOL-Library.Char_ord"
begin

section \<open>MD v1.0 superblocks and array comparison\<close>

text \<open>
  The model of \<open>mdmetadata/v10.go\<close> and \<open>mdmetadata/array.go\<close>. An \<open>io.ReaderAt\<close> is the function
  from an offset and a length to the bytes read and whether there was an error. Sizes and
  offsets keep their width: \<open>uint64\<close> arithmetic is on \<open>u64\<close> and wraps; the \<open>int64\<close> source size
  is an \<open>int\<close>. A slice expression whose bounds depend on the input is a branch of its own
  (\<open>MdPanic\<close>), so that its absence is a theorem. A map from keys is a list of pairs.

  The lemmas show what a candidate superblock satisfies, that the inspection depends only on
  the bytes of the partition it was given, and when an array is called consistent.
\<close>

unbundle bit_operations_syntax

subsection \<open>Bytes\<close>

fun le_nat :: "string \<Rightarrow> nat" where
  "le_nat [] = 0"
| "le_nat (c # cs) = of_char c + 256 * le_nat cs"

definition sub_bytes :: "string \<Rightarrow> nat \<Rightarrow> nat \<Rightarrow> string" where
  "sub_bytes b i n = take n (drop i b)"

definition u16_at :: "string \<Rightarrow> nat \<Rightarrow> u16" where
  "u16_at b i = of_nat (le_nat (sub_bytes b i 2))"

definition u32_at :: "string \<Rightarrow> nat \<Rightarrow> u32" where
  "u32_at b i = of_nat (le_nat (sub_bytes b i 4))"

definition u64_at :: "string \<Rightarrow> nat \<Rightarrow> u64" where
  "u64_at b i = of_nat (le_nat (sub_bytes b i 8))"

definition allZero :: "string \<Rightarrow> bool" where
  "allZero b = list_all (\<lambda>c. of_char c = (0 :: nat)) b"

text \<open>\<open>encoding/hex\<close>: decoding accepts both cases, encoding writes lower case.\<close>

definition hex_value :: "char \<Rightarrow> nat option" where
  "hex_value c = (let n = of_char c in
     if 48 \<le> n \<and> n \<le> 57 then Some (n - 48)
     else if 97 \<le> n \<and> n \<le> 102 then Some (n - 87)
     else if 65 \<le> n \<and> n \<le> 70 then Some (n - 55)
     else None)"

definition hex_digit :: "nat \<Rightarrow> char" where
  "hex_digit n = char_of (if n < 10 then 48 + n else 87 + n)"

fun hex_decode :: "string \<Rightarrow> string option" where
  "hex_decode [] = Some []"
| "hex_decode [c] = None"
| "hex_decode (a # b # cs) = (case (hex_value a, hex_value b) of
     (Some x, Some y) \<Rightarrow> map_option (\<lambda>r. char_of (16 * x + y) # r) (hex_decode cs)
   | _ \<Rightarrow> None)"

definition hex_encode :: "string \<Rightarrow> string" where
  "hex_encode b = concat (map (\<lambda>c. [hex_digit (of_char c div 16), hex_digit (of_char c mod 16)]) b)"

subsection \<open>Data of v10.go\<close>

definition logicalSectorBytes :: u64 where "logicalSectorBytes = 512"
definition mdV1Magic :: u32 where "mdV1Magic = 0xa92b4efc"
definition mdV1FixedBytes :: nat where "mdV1FixedBytes = 256"
definition mdV1MaximumBytes :: nat where "mdV1MaximumBytes = 4096"
definition mdV1MaxDevices :: nat where "mdV1MaxDevices = (mdV1MaximumBytes - mdV1FixedBytes) div 2"
definition mdV1SuperOffset :: nat where "mdV1SuperOffset = 144"
definition mdV1ChecksumOffset :: nat where "mdV1ChecksumOffset = 216"
definition mdV1MaxDevicesOffset :: nat where "mdV1MaxDevicesOffset = 220"
definition mdV1RolesOffset :: u32 where "mdV1RolesOffset = 256"
definition mdV1RoleJournal :: u16 where "mdV1RoleJournal = 0xfffd"
definition mdV1RoleFaulty :: u16 where "mdV1RoleFaulty = 0xfffe"
definition mdV1RoleSpare :: u16 where "mdV1RoleSpare = 0xffff"

datatype md_status = StatusCandidate | StatusNotFound | StatusDamaged | StatusUnsupported

datatype md_error = ErrUnsafeSource | MdReadFailed | MdPanic

record partition =
  part_number :: u32
  part_start_lba :: u64
  part_size_lba :: u64

record md_observation =
  mo_status :: md_status
  mo_version :: string
  mo_partition_number :: u32
  mo_first_lba :: u64
  mo_last_lba :: u64
  mo_disk_sectors :: u64
  mo_partition_bytes :: u64
  mo_super_offset :: u64
  mo_level :: int
  mo_layout :: u32
  mo_size_sectors :: u64
  mo_chunk_sectors :: u32
  mo_raid_disks :: u32
  mo_max_devices :: u32
  mo_member_number :: u32
  mo_member_role :: u16
  mo_role_description :: string
  mo_feature_map :: u32
  mo_events :: u64
  mo_data_offset :: u64
  mo_data_sectors :: u64
  mo_checksum_status :: string
  mo_array_fingerprint :: string
  mo_member_fingerprint :: string
  mo_metadata_read :: bool

type_synonym reader_at = "nat \<Rightarrow> nat \<Rightarrow> string \<times> bool"

subsection \<open>InspectPartition\<close>

definition newObservation :: "partition \<Rightarrow> md_observation" where
  "newObservation p =
     \<lparr>mo_status = StatusUnsupported, mo_version = '''', mo_partition_number = part_number p,
      mo_first_lba = part_start_lba p,
      mo_last_lba = (if part_size_lba p \<noteq> 0 \<and> part_start_lba p \<le> - 1 - (part_size_lba p - 1)
        then part_start_lba p + part_size_lba p - 1 else 0),
      mo_disk_sectors = 0, mo_partition_bytes = 0, mo_super_offset = 0, mo_level = 0, mo_layout = 0,
      mo_size_sectors = 0, mo_chunk_sectors = 0, mo_raid_disks = 0, mo_max_devices = 0,
      mo_member_number = 0, mo_member_role = 0, mo_role_description = '''', mo_feature_map = 0,
      mo_events = 0, mo_data_offset = 0, mo_data_sectors = 0, mo_checksum_status = ''not-validated'',
      mo_array_fingerprint = '''', mo_member_fingerprint = '''', mo_metadata_read = False\<rparr>"

definition md_damaged :: "md_observation \<Rightarrow> md_observation" where
  "md_damaged r = r\<lparr>mo_status := StatusDamaged\<rparr>"

definition md_unsupported :: "md_observation \<Rightarrow> md_observation" where
  "md_unsupported r = r\<lparr>mo_status := StatusUnsupported\<rparr>"

definition readAt :: "reader_at \<Rightarrow> nat \<Rightarrow> u64 \<Rightarrow> int \<Rightarrow> md_error + string" where
  "readAt source n offset sz =
     (if sz < 0 \<or> offset > of_int sz \<or> offset > 0x7fffffffffffffff \<or> of_nat n > of_int sz - offset
      then Inl ErrUnsafeSource
      else case source (unat offset) n of
        (b, err) \<Rightarrow> if err \<or> length b \<noteq> n then Inl MdReadFailed else Inr b)"

fun sum_words :: "string \<Rightarrow> u64" where
  "sum_words (a # b # c # d # cs) = of_nat (le_nat [a, b, c, d]) + sum_words cs"
| "sum_words _ = 0"

definition mdV1Checksum :: "string \<Rightarrow> u32" where
  "mdV1Checksum b =
     (let c = take mdV1ChecksumOffset b @ replicate 4 (char_of (0 :: nat)) @ drop (mdV1ChecksumOffset + 4) b;
          sum = sum_words c +
            (if length c mod 4 = 2 then of_nat (le_nat (drop (length c - 2) c)) else 0)
      in ucast sum + ucast (drop_bit 32 sum))"

definition fingerprint :: "string \<Rightarrow> string \<Rightarrow> string" where
  "fingerprint domain identity = hex_encode (sha256 (domain @ identity))"

text \<open>The role switch; \<open>None\<close> is its default branch.\<close>

definition role_description :: "u16 \<Rightarrow> u32 \<Rightarrow> string option" where
  "role_description role raid =
     (if role < ucast raid then Some ''active-slot''
      else if role = mdV1RoleSpare then Some ''spare''
      else if role = mdV1RoleFaulty then Some ''faulty''
      else if role = mdV1RoleJournal then Some ''journal''
      else None)"

text \<open>From line 170 on: the fields of a superblock whose checksum and position hold.\<close>

definition inspect_fields ::
  "string \<Rightarrow> u32 \<Rightarrow> u64 \<Rightarrow> md_observation \<Rightarrow> md_error + md_observation" where
  "inspect_fields sb maxDevices superSector r0 =
     (let r1 = r0\<lparr>mo_level := sint (u32_at sb 72), mo_layout := u32_at sb 76,
            mo_size_sectors := u64_at sb 80, mo_chunk_sectors := u32_at sb 88,
            mo_raid_disks := u32_at sb 92, mo_data_offset := u64_at sb 128,
            mo_data_sectors := u64_at sb 136, mo_member_number := u32_at sb 160,
            mo_max_devices := maxDevices, mo_events := u64_at sb 200\<rparr> in
      if mo_size_sectors r1 = 0 \<or> mo_raid_disks r1 = 0 \<or> mo_raid_disks r1 > maxDevices \<or>
         mo_member_number r1 \<ge> maxDevices then Inr (md_damaged r1)
      else if mo_data_offset r1 > superSector \<or> mo_data_sectors r1 = 0 \<or>
         mo_data_sectors r1 > superSector - mo_data_offset r1 then Inr (md_damaged r1)
      else
        (let roleOffset = unat (mdV1RolesOffset + mo_member_number r1 * 2) in
         if roleOffset + 2 > length sb then Inl MdPanic
         else
           (let r2 = r1\<lparr>mo_member_role := u16_at sb roleOffset\<rparr> in
            case role_description (mo_member_role r2) (mo_raid_disks r2) of
              None \<Rightarrow> Inr (md_unsupported r2)
            | Some d \<Rightarrow>
                Inr (r2\<lparr>mo_role_description := d,
                  mo_array_fingerprint := (if allZero (sub_bytes sb 16 16) then mo_array_fingerprint r2
                    else fingerprint (''phantowd-md-array-v1'' @ [CHR 0x0A]) (sub_bytes sb 16 16)),
                  mo_member_fingerprint := (if allZero (sub_bytes sb 168 16) then mo_member_fingerprint r2
                    else fingerprint (''phantowd-md-member-v1'' @ [CHR 0x0A]) (sub_bytes sb 168 16)),
                  mo_status := StatusCandidate\<rparr>))))"

text \<open>Lines 152 to 169: the checks on the whole superblock.\<close>

definition inspect_superblock ::
  "string \<Rightarrow> u32 \<Rightarrow> u64 \<Rightarrow> md_observation \<Rightarrow> md_error + md_observation" where
  "inspect_superblock sb maxDevices superSector r =
     (if mdV1Checksum sb \<noteq> u32_at sb mdV1ChecksumOffset
      then Inr (md_damaged (r\<lparr>mo_checksum_status := ''invalid''\<rparr>))
      else
        (let r1 = r\<lparr>mo_checksum_status := ''valid''\<rparr> in
         if u64_at sb mdV1SuperOffset \<noteq> superSector then Inr (md_unsupported r1)
         else
           (let r2 = r1\<lparr>mo_version := ''1.0'', mo_feature_map := u32_at sb 8\<rparr> in
            if mo_feature_map r2 \<noteq> 0 then Inr (md_unsupported r2)
            else inspect_fields sb maxDevices superSector r2)))"

text \<open>Lines 124 to 151: the reads.\<close>

definition inspect_metadata ::
  "reader_at \<Rightarrow> int \<Rightarrow> u64 \<Rightarrow> u64 \<Rightarrow> u64 \<Rightarrow> md_observation \<Rightarrow> md_error + md_observation" where
  "inspect_metadata source sourceBytes superSector metadataStart base r0 =
     (case readAt source mdV1FixedBytes base sourceBytes of
        Inl e \<Rightarrow> Inl e
      | Inr fixed \<Rightarrow>
          (let r = r0\<lparr>mo_metadata_read := True\<rparr>;
               maxDevices = u32_at fixed mdV1MaxDevicesOffset;
               metadataBytes = of_nat mdV1FixedBytes + ucast maxDevices * (2 :: u64) in
           if u32_at fixed 0 \<noteq> mdV1Magic then Inr (r\<lparr>mo_status := StatusNotFound\<rparr>)
           else if u32_at fixed 4 \<noteq> 1 then Inr (md_unsupported r)
           else if maxDevices = 0 \<or> maxDevices > of_nat mdV1MaxDevices then Inr (md_damaged r)
           else if metadataBytes > of_nat mdV1MaximumBytes \<or> metadataBytes > mo_partition_bytes r \<or>
             metadataStart > mo_partition_bytes r - metadataBytes then Inr (md_damaged r)
           else if unat metadataBytes > length fixed
           then (case readAt source (unat metadataBytes - length fixed) (base + of_nat mdV1FixedBytes) sourceBytes of
                   Inl e \<Rightarrow> Inl e
                 | Inr rest \<Rightarrow> inspect_superblock (fixed @ rest) maxDevices superSector r)
           else inspect_superblock fixed maxDevices superSector r))"

text \<open>Lines 106 to 123: where the superblock lies.\<close>

definition inspect_geometry :: "reader_at \<Rightarrow> int \<Rightarrow> partition \<Rightarrow> md_observation \<Rightarrow> md_error + md_observation" where
  "inspect_geometry src sourceBytes p r =
     (if part_size_lba p < 24 then Inr (md_unsupported r)
      else
        (let superSector = (part_size_lba p - 16) AND NOT 7;
             maxSector = (0x7fffffffffffffff :: u64) div logicalSectorBytes;
             metadataStart = superSector * logicalSectorBytes;
             base = (part_start_lba p + superSector) * logicalSectorBytes in
         if part_start_lba p > maxSector \<or> superSector > maxSector - part_start_lba p
         then Inr (md_damaged r)
         else if metadataStart > mo_partition_bytes r \<or>
           of_nat mdV1FixedBytes > mo_partition_bytes r - metadataStart
         then Inr (md_damaged r)
         else inspect_metadata src sourceBytes superSector metadataStart base (r\<lparr>mo_super_offset := base\<rparr>)))"

definition InspectPartition :: "reader_at option \<Rightarrow> int \<Rightarrow> partition \<Rightarrow> md_error + md_observation" where
  "InspectPartition source sourceBytes p =
     (case source of
        None \<Rightarrow> Inl ErrUnsafeSource
      | Some src \<Rightarrow>
          if sourceBytes \<le> 0 \<or> part_number p = 0 \<or> part_size_lba p = 0 \<or> part_start_lba p = 0
          then Inl ErrUnsafeSource
          else if sourceBytes mod 512 \<noteq> 0 then Inl ErrUnsafeSource
          else
            (let diskSectors = of_int sourceBytes div logicalSectorBytes;
                 endExclusive = part_start_lba p + part_size_lba p in
             if part_start_lba p > - 1 - part_size_lba p then Inl ErrUnsafeSource
             else if endExclusive > diskSectors \<or> part_size_lba p > (- 1) div logicalSectorBytes
             then Inl ErrUnsafeSource
             else inspect_geometry src sourceBytes p
               (newObservation p\<lparr>mo_disk_sectors := diskSectors, mo_last_lba := endExclusive - 1,
                  mo_partition_bytes := part_size_lba p * logicalSectorBytes\<rparr>)))"

subsection \<open>CompareComponents\<close>

definition maxComponentEvidence :: nat where "maxComponentEvidence = 512"
definition maxComponentDiskIndex :: u32 where "maxComponentDiskIndex = 4"
definition maxComponentPartition :: u32 where "maxComponentPartition = 128"
definition arrayFingerprintByteCount :: nat where "arrayFingerprintByteCount = 32"

datatype array_status =
  ArrayMetadataConsistent | ArrayIncomplete | ArrayDivergentEvents | ArrayConflicting | ArrayAmbiguous

record component_evidence =
  ce_disk_index :: u32
  ce_partition_number :: u32
  ce_observation :: md_observation

record array_comparison =
  ac_fingerprint :: string
  ac_status :: array_status
  ac_level :: int
  ac_layout :: u32
  ac_size_sectors :: u64
  ac_chunk_sectors :: u32
  ac_data_sectors :: u64
  ac_raid_disks :: u32
  ac_max_devices :: u32
  ac_observed_roles :: nat
  ac_member_count :: nat
  ac_missing_roles :: "nat list"

record set_comparison =
  sc_candidates :: nat
  sc_unqualified :: nat
  sc_unidentified :: nat
  sc_arrays :: "array_comparison list"

definition validFingerprint :: "string \<Rightarrow> bool" where
  "validFingerprint v \<longleftrightarrow> length v = arrayFingerprintByteCount * 2 \<and>
     (case hex_decode v of None \<Rightarrow> False
      | Some d \<Rightarrow> length d = arrayFingerprintByteCount \<and> hex_encode d = v)"

definition validComponentObservation :: "md_observation \<Rightarrow> bool" where
  "validComponentObservation ob \<longleftrightarrow>
     mo_status ob = StatusCandidate \<and> mo_version ob = ''1.0'' \<and> mo_metadata_read ob \<and>
     mo_checksum_status ob = ''valid'' \<and> mo_feature_map ob = 0 \<and>
     (mo_array_fingerprint ob = [] \<or> validFingerprint (mo_array_fingerprint ob)) \<and>
     mo_max_devices ob \<noteq> 0 \<and> mo_max_devices ob \<le> of_nat mdV1MaxDevices \<and>
     mo_raid_disks ob \<noteq> 0 \<and> mo_raid_disks ob \<le> mo_max_devices ob \<and>
     mo_member_number ob < mo_max_devices ob \<and> mo_size_sectors ob \<noteq> 0 \<and>
     mo_data_sectors ob \<noteq> 0 \<and> validFingerprint (mo_member_fingerprint ob) \<and>
     role_description (mo_member_role ob) (mo_raid_disks ob) = Some (mo_role_description ob)"

definition same_geometry :: "md_observation \<Rightarrow> md_observation \<Rightarrow> bool" where
  "same_geometry a b \<longleftrightarrow> mo_level a = mo_level b \<and> mo_layout a = mo_layout b \<and>
     mo_size_sectors a = mo_size_sectors b \<and> mo_chunk_sectors a = mo_chunk_sectors b \<and>
     mo_data_sectors a = mo_data_sectors b \<and> mo_raid_disks a = mo_raid_disks b \<and>
     mo_max_devices a = mo_max_devices b \<and> mo_feature_map a = mo_feature_map b"

definition active_in :: "u32 \<Rightarrow> md_observation \<Rightarrow> bool" where
  "active_in raid ob \<longleftrightarrow> mo_role_description ob = ''active-slot'' \<and> unat (mo_member_role ob) < unat raid"

text \<open>The three maps and three flags of the member loop.\<close>

record scan =
  sn_roles :: "nat list"
  sn_numbers :: "u32 list"
  sn_identities :: "string list"
  sn_duplicate :: bool
  sn_conflicting :: bool
  sn_divergent :: bool

definition scan_member :: "md_observation \<Rightarrow> scan \<Rightarrow> md_observation \<Rightarrow> scan" where
  "scan_member fst0 s c =
     (let number = mo_member_number c; ident = mo_member_fingerprint c; role = unat (mo_member_role c);
          act = active_in (mo_raid_disks fst0) c in
      s\<lparr>sn_conflicting := sn_conflicting s \<or> \<not> same_geometry c fst0,
        sn_divergent := sn_divergent s \<or> mo_events c \<noteq> mo_events fst0,
        sn_duplicate := sn_duplicate s \<or> number \<in> set (sn_numbers s) \<or>
          (ident \<noteq> [] \<and> ident \<in> set (sn_identities s)) \<or> (act \<and> role \<in> set (sn_roles s)),
        sn_numbers := number # sn_numbers s,
        sn_identities := (if ident \<noteq> [] then ident # sn_identities s else sn_identities s),
        sn_roles := (if act then role # sn_roles s else sn_roles s)\<rparr>)"

definition empty_scan :: scan where
  "empty_scan = \<lparr>sn_roles = [], sn_numbers = [], sn_identities = [], sn_duplicate = False,
     sn_conflicting = False, sn_divergent = False\<rparr>"

definition compareArray :: "string \<Rightarrow> md_observation \<Rightarrow> md_observation list \<Rightarrow> array_comparison" where
  "compareArray ident m ms =
     (let s = foldl (scan_member m) empty_scan (m # ms);
          roles = [0..<unat (mo_raid_disks m)];
          missing = filter (\<lambda>r. r \<notin> set (sn_roles s)) roles in
      \<lparr>ac_fingerprint = ident,
       ac_status = (if sn_duplicate s then ArrayAmbiguous
         else if sn_conflicting s then ArrayConflicting
         else if sn_divergent s then ArrayDivergentEvents
         else if missing \<noteq> [] then ArrayIncomplete
         else ArrayMetadataConsistent),
       ac_level = mo_level m, ac_layout = mo_layout m, ac_size_sectors = mo_size_sectors m,
       ac_chunk_sectors = mo_chunk_sectors m, ac_data_sectors = mo_data_sectors m,
       ac_raid_disks = mo_raid_disks m, ac_max_devices = mo_max_devices m,
       ac_observed_roles = length (filter (\<lambda>r. r \<in> set (sn_roles s)) roles),
       ac_member_count = length (m # ms), ac_missing_roles = missing\<rparr>)"

text \<open>A group is never empty: its key, its first member and the others in order.\<close>

type_synonym group = "string \<times> md_observation \<times> md_observation list"

fun add_group :: "string \<Rightarrow> md_observation \<Rightarrow> group list \<Rightarrow> group list" where
  "add_group k ob [] = [(k, ob, [])]"
| "add_group k ob ((k', m, ms) # gs) =
     (if k = k' then (k', m, ms @ [ob]) # gs else (k', m, ms) # add_group k ob gs)"

text \<open>The component loop: locations seen, counters and groups; \<open>None\<close> where it returns the error.\<close>

fun scan_components ::
  "(u32 \<times> u32) list \<Rightarrow> nat \<times> nat \<times> nat \<Rightarrow> group list \<Rightarrow> component_evidence list \<Rightarrow>
     ((nat \<times> nat \<times> nat) \<times> group list) option" where
  "scan_components seen counts groups [] = Some (counts, groups)"
| "scan_components seen (cand, unq, uni) groups (c # cs) =
     (let loc = (ce_disk_index c, ce_partition_number c); ob = ce_observation c in
      if ce_disk_index c = 0 \<or> ce_disk_index c > maxComponentDiskIndex \<or>
         ce_partition_number c = 0 \<or> ce_partition_number c > maxComponentPartition then None
      else if loc \<in> set seen then None
      else if mo_partition_number ob \<noteq> ce_partition_number c \<or> \<not> validComponentObservation ob
      then scan_components (loc # seen) (cand, unq + 1, uni) groups cs
      else if \<not> validFingerprint (mo_array_fingerprint ob)
      then scan_components (loc # seen) (cand + 1, unq, uni + 1) groups cs
      else scan_components (loc # seen) (cand + 1, unq, uni)
        (add_group (mo_array_fingerprint ob) ob groups) cs)"

definition CompareComponents :: "component_evidence list \<Rightarrow> set_comparison option" where
  "CompareComponents components =
     (if length components > maxComponentEvidence then None
      else case scan_components [] (0, 0, 0) [] components of
        None \<Rightarrow> None
      | Some ((cand, unq, uni), groups) \<Rightarrow>
          Some \<lparr>sc_candidates = cand, sc_unqualified = unq, sc_unidentified = uni,
            sc_arrays = map (\<lambda>(k, m, ms). compareArray k m ms) (sort_key fst groups)\<rparr>)"

subsection \<open>Fingerprints\<close>

lemma hex_value_digit:
  assumes "n < 16"
  shows "hex_value (hex_digit n) = Some n"
  using assms by (auto simp: hex_value_def hex_digit_def Let_def)

lemma of_char_div_16: "(of_char c :: nat) div 16 < 16"
proof -
  have "(of_char c :: nat) < 256" by simp
  then show ?thesis by linarith
qed

lemma hex_decode_encode: "hex_decode (hex_encode b) = Some b"
proof (induction b)
  case (Cons c b)
  have "16 * (of_char c div 16) + of_char c mod 16 = (of_char c :: nat)" by presburger
  then show ?case using Cons by (simp add: hex_encode_def hex_value_digit of_char_div_16)
qed (simp add: hex_encode_def)

lemma length_hex_encode: "length (hex_encode b) = 2 * length b"
  by (induction b) (simp_all add: hex_encode_def)

lemma valid_fingerprint: "validFingerprint (fingerprint d x)"
  by (simp add: validFingerprint_def fingerprint_def hex_decode_encode length_hex_encode
      length_sha256 arrayFingerprintByteCount_def)

lemma validFingerprint_Nil [simp]: "\<not> validFingerprint []"
  by (simp add: validFingerprint_def arrayFingerprintByteCount_def)

lemma fingerprint_ne: "fingerprint d x \<noteq> []"
  using valid_fingerprint [of d x] by (auto simp: validFingerprint_def arrayFingerprintByteCount_def)

subsection \<open>The superblock checks\<close>

lemma unat_role_offset:
  assumes "m < d" "d \<le> of_nat mdV1MaxDevices"
  shows "unat (mdV1RolesOffset + m * 2) = 256 + 2 * unat m"
proof -
  have "unat d \<le> 1920" using assms(2) by (simp add: mdV1MaxDevices_def mdV1MaximumBytes_def mdV1FixedBytes_def word_le_nat_alt)
  then have "unat m < 1920" using assms(1) by (simp add: word_less_nat_alt)
  then show ?thesis
    by (simp add: mdV1RolesOffset_def unat_word_ariths)
qed

lemma inspect_fields_spec:
  assumes "length sb = 256 + 2 * unat maxDevices" "maxDevices \<le> of_nat mdV1MaxDevices" "maxDevices \<noteq> 0"
    "mo_array_fingerprint r0 = []" "mo_member_fingerprint r0 = []"
    "mo_version r0 = ''1.0''" "mo_metadata_read r0" "mo_checksum_status r0 = ''valid''" "mo_feature_map r0 = 0"
    "mo_super_offset r0 = base"  "mo_first_lba r0 = start"
    "mo_status r0 = StatusUnsupported"
  shows "\<exists>ob. inspect_fields sb maxDevices superSector r0 = Inr ob \<and>
    (mo_status ob = StatusCandidate \<longrightarrow>
       (validComponentObservation ob \<longleftrightarrow> mo_member_fingerprint ob \<noteq> []) \<and>
       unat (mo_data_offset ob) + unat (mo_data_sectors ob) \<le> unat superSector \<and>
       mo_super_offset ob = base \<and> mo_first_lba ob = start)"
proof -
  define r1 where "r1 = r0\<lparr>mo_level := sint (u32_at sb 72), mo_layout := u32_at sb 76,
            mo_size_sectors := u64_at sb 80, mo_chunk_sectors := u32_at sb 88,
            mo_raid_disks := u32_at sb 92, mo_data_offset := u64_at sb 128,
            mo_data_sectors := u64_at sb 136, mo_member_number := u32_at sb 160,
            mo_max_devices := maxDevices, mo_events := u64_at sb 200\<rparr>"
  have r1: "mo_array_fingerprint r1 = []" "mo_member_fingerprint r1 = []"
    "mo_version r1 = ''1.0''" "mo_metadata_read r1" "mo_checksum_status r1 = ''valid''" "mo_feature_map r1 = 0"
    "mo_max_devices r1 = maxDevices" "mo_super_offset r1 = base" "mo_first_lba r1 = start"
    using assms by (simp_all add: r1_def)
  define off where "off = unat (mdV1RolesOffset + mo_member_number r1 * 2)"
  note df = inspect_fields_def [of sb maxDevices superSector r0, folded r1_def, unfolded Let_def, folded off_def]
  show ?thesis
  proof (cases "mo_size_sectors r1 = 0 \<or> mo_raid_disks r1 = 0 \<or> mo_raid_disks r1 > maxDevices \<or>
         mo_member_number r1 \<ge> maxDevices \<or> mo_data_offset r1 > superSector \<or> mo_data_sectors r1 = 0 \<or>
         mo_data_sectors r1 > superSector - mo_data_offset r1")
    case True
    then show ?thesis unfolding df by (auto simp: md_damaged_def)
  next
    case ok: False
    then have off: "off + 2 \<le> length sb"
      using unat_role_offset [of "mo_member_number r1" maxDevices] assms(1,2)
      by (simp add: off_def word_less_nat_alt not_le)
    have data: "unat (mo_data_offset r1) + unat (mo_data_sectors r1) \<le> unat superSector"
      using ok unat_sub [of "mo_data_offset r1" superSector] by (auto simp: not_less word_le_nat_alt)
    let ?d = "role_description (u16_at sb off) (mo_raid_disks r1)"
    have guards: "\<not> (mo_size_sectors r1 = 0 \<or> mo_raid_disks r1 = 0 \<or> mo_raid_disks r1 > maxDevices \<or>
         mo_member_number r1 \<ge> maxDevices)" "\<not> (mo_data_offset r1 > superSector \<or> mo_data_sectors r1 = 0 \<or>
         mo_data_sectors r1 > superSector - mo_data_offset r1)" "\<not> length sb < off + 2"
      using ok off by auto
    show ?thesis
    proof (cases ?d)
      case None
      then show ?thesis unfolding df if_not_P [OF guards(1)] if_not_P [OF guards(2)] if_not_P [OF guards(3)]
        by (simp add: md_unsupported_def)
    next
      case (Some d)
      then show ?thesis
        unfolding df if_not_P [OF guards(1)] if_not_P [OF guards(2)] if_not_P [OF guards(3)]
        using guards(1,2) data assms(2,3) r1
        by (auto simp: validComponentObservation_def valid_fingerprint fingerprint_ne not_less)
    qed
  qed
qed

lemma inspect_superblock_spec:
  assumes "length sb = 256 + 2 * unat maxDevices" "maxDevices \<le> of_nat mdV1MaxDevices" "maxDevices \<noteq> 0"
    "mo_array_fingerprint r = []" "mo_member_fingerprint r = []" "mo_metadata_read r"
    "mo_status r = StatusUnsupported"
  shows "\<exists>ob. inspect_superblock sb maxDevices superSector r = Inr ob \<and>
    (mo_status ob = StatusCandidate \<longrightarrow>
       (validComponentObservation ob \<longleftrightarrow> mo_member_fingerprint ob \<noteq> []) \<and>
       unat (mo_data_offset ob) + unat (mo_data_sectors ob) \<le> unat superSector \<and>
       mo_super_offset ob = mo_super_offset r \<and> mo_first_lba ob = mo_first_lba r)"
proof (cases "mdV1Checksum sb \<noteq> u32_at sb mdV1ChecksumOffset \<or> u64_at sb mdV1SuperOffset \<noteq> superSector \<or> u32_at sb 8 \<noteq> 0")
  case True
  then show ?thesis by (auto simp: inspect_superblock_def md_damaged_def md_unsupported_def Let_def)
next
  case False
  then show ?thesis
    using inspect_fields_spec [OF assms(1-3), of
        "r\<lparr>mo_checksum_status := ''valid'', mo_version := ''1.0'', mo_feature_map := u32_at sb 8\<rparr>"
        "mo_super_offset r" "mo_first_lba r" superSector] assms(4-7)
    by (simp add: inspect_superblock_def Let_def)
qed

lemma readAt_length: "readAt source n offset sz = Inr b \<Longrightarrow> length b = n"
  by (auto simp: readAt_def split: if_splits prod.splits)

lemma readAt_no_panic: "readAt source n offset sz \<noteq> Inl MdPanic"
  by (auto simp: readAt_def split: prod.splits)

lemma unat_metadata_bytes:
  assumes "d \<le> of_nat mdV1MaxDevices"
  shows "unat (of_nat mdV1FixedBytes + ucast (d :: u32) * (2 :: u64)) = 256 + 2 * unat d"
proof -
  have "unat d \<le> 1920"
    using assms by (simp add: mdV1MaxDevices_def mdV1MaximumBytes_def mdV1FixedBytes_def word_le_nat_alt)
  then show ?thesis by (simp add: mdV1FixedBytes_def unat_word_ariths unsigned_ucast_eq take_bit_nat_eq_self)
qed

lemma inspect_metadata_spec:
  assumes "inspect_metadata source sourceBytes superSector metadataStart base r0 = x"
    "mo_array_fingerprint r0 = []" "mo_member_fingerprint r0 = []" "mo_status r0 = StatusUnsupported"
  shows "x \<noteq> Inl MdPanic \<and> (\<forall>ob. x = Inr ob \<and> mo_status ob = StatusCandidate \<longrightarrow>
       (validComponentObservation ob \<longleftrightarrow> mo_member_fingerprint ob \<noteq> []) \<and>
       unat (mo_data_offset ob) + unat (mo_data_sectors ob) \<le> unat superSector \<and>
       mo_super_offset ob = mo_super_offset r0 \<and> mo_first_lba ob = mo_first_lba r0)"
proof (cases "readAt source mdV1FixedBytes base sourceBytes")
  case (Inl e)
  then show ?thesis using assms(1) readAt_no_panic by (auto simp: inspect_metadata_def)
next
  case fixed: (Inr fixed)
  define r where "r = r0\<lparr>mo_metadata_read := True\<rparr>"
  define d where "d = u32_at fixed mdV1MaxDevicesOffset"
  define mb where "mb = of_nat mdV1FixedBytes + ucast d * (2 :: u64)"
  have len: "length fixed = 256" using readAt_length [OF fixed] by (simp add: mdV1FixedBytes_def)
  have r: "mo_array_fingerprint r = []" "mo_member_fingerprint r = []" "mo_metadata_read r"
    "mo_status r = StatusUnsupported" "mo_super_offset r = mo_super_offset r0" "mo_first_lba r = mo_first_lba r0"
    using assms by (simp_all add: r_def)
  note df = assms(1) [unfolded inspect_metadata_def fixed sum.case Let_def, folded r_def d_def, folded mb_def]
  show ?thesis
  proof (cases "u32_at fixed 0 \<noteq> mdV1Magic \<or> u32_at fixed 4 \<noteq> 1 \<or> d = 0 \<or> d > of_nat mdV1MaxDevices \<or>
      mb > of_nat mdV1MaximumBytes \<or> mb > mo_partition_bytes r \<or> metadataStart > mo_partition_bytes r - mb")
    case True
    then show ?thesis using df by (auto simp: md_damaged_def md_unsupported_def r split: if_splits)
  next
    case ok: False
    then have d: "d \<le> of_nat mdV1MaxDevices" "d \<noteq> 0" by auto
    have mb: "unat mb = 256 + 2 * unat d" unfolding mb_def by (rule unat_metadata_bytes [OF d(1)])
    have "unat d \<noteq> 0" using d(2) by (simp add: unat_eq_0)
    then have gt: "unat mb > length fixed" using mb len by simp
    show ?thesis
    proof (cases "readAt source (unat mb - length fixed) (base + of_nat mdV1FixedBytes) sourceBytes")
      case (Inl e)
      then show ?thesis using df ok gt readAt_no_panic by auto
    next
      case (Inr rest)
      then have x: "x = inspect_superblock (fixed @ rest) d superSector r" using df ok gt by simp
      have "length (fixed @ rest) = 256 + 2 * unat d"
        using readAt_length [OF Inr] mb len by simp
      from inspect_superblock_spec [OF this d r(1-4), of superSector] show ?thesis
        unfolding x using r(5,6) by (elim exE conjE) simp
    qed
  qed
qed

subsection \<open>Where the inspection reads\<close>

lemma unat_max_u64: "unat (- 1 :: u64) = 18446744073709551615"
  by code_simp

text \<open>The geometry \<open>InspectPartition\<close> hands to the reads, in natural numbers.\<close>

lemma geometry:
  fixes s z d su base mstart :: u64
  defines "su \<equiv> (z - 16) AND NOT 7" and "base \<equiv> (s + su) * logicalSectorBytes"
    and "mstart \<equiv> su * logicalSectorBytes"
  assumes "\<not> s > - 1 - z" "\<not> z > (- 1) div logicalSectorBytes" "\<not> z < 24"
    "\<not> s > 0x7fffffffffffffff div logicalSectorBytes"
    "\<not> su > 0x7fffffffffffffff div logicalSectorBytes - s"
  shows "unat (s + z) = unat s + unat z" "unat (z * logicalSectorBytes) = unat z * 512"
    "unat mstart = unat su * 512" "unat base = (unat s + unat su) * 512"
    "unat base < 2 ^ 63" "unat su + 16 \<le> unat z"
proof -
  have z16: "unat (z - 16) = unat z - 16" "16 \<le> unat z"
    using assms(6) unat_sub [of 16 z] by (simp_all add: word_le_nat_alt word_less_nat_alt not_less)
  have "unat su \<le> unat (z - 16)" unfolding su_def word_le_nat_alt [symmetric] by (rule word_and_le2)
  then show u: "unat su + 16 \<le> unat z" using z16 by simp
  have q: "unat ((- 1 :: u64) div logicalSectorBytes) = (2 ^ 64 - 1) div 512"
    "unat ((0x7fffffffffffffff :: u64) div logicalSectorBytes) = (2 ^ 63 - 1) div 512"
    by code_simp+
  show sz: "unat (s + z) = unat s + unat z"
  proof -
    have "unat (- 1 - z) = 2 ^ 64 - 1 - unat z"
      using unat_sub [of z "- 1"] by (simp add: unat_max_u64)
    moreover have "unat z \<le> unat (- 1 :: u64)" by (simp flip: word_le_nat_alt)
    ultimately have "unat s + unat z \<le> 2 ^ 64 - 1"
      using assms(4) by (simp add: not_less word_le_nat_alt unat_max_u64)
    then show ?thesis by (simp add: unat_word_ariths)
  qed
  have z: "unat z \<le> (2 ^ 64 - 1) div 512" using assms(5) q(1) by (simp add: not_less word_le_nat_alt)
  then show "unat (z * logicalSectorBytes) = unat z * 512"
    by (simp add: logicalSectorBytes_def unat_word_ariths)
  show "unat mstart = unat su * 512"
    using z u by (simp add: mstart_def logicalSectorBytes_def unat_word_ariths)
  have s: "unat s \<le> (2 ^ 63 - 1) div 512" using assms(7) q(2) by (simp add: not_less word_le_nat_alt)
  have "unat su \<le> (2 ^ 63 - 1) div 512 - unat s"
    using assms(7,8) q(2) unat_sub [of s "0x7fffffffffffffff div logicalSectorBytes"]
    by (simp add: not_less word_le_nat_alt)
  then have sum: "unat s + unat su \<le> (2 ^ 63 - 1) div 512" using s by simp
  then show "unat base = (unat s + unat su) * 512"
    by (simp add: base_def logicalSectorBytes_def unat_word_ariths)
  then show "unat base < 2 ^ 63" using sum by simp
qed

lemma inspect_metadata_local:
  assumes eq: "\<And>off n. lo \<le> off \<Longrightarrow> off + n \<le> hi \<Longrightarrow> src1 off n = src2 off n"
    and base: "lo \<le> unat base" "unat base + (unat (mo_partition_bytes r0) - unat mstart) \<le> hi"
      "unat base < 2 ^ 63" "unat mstart + 256 \<le> unat (mo_partition_bytes r0)"
  shows "inspect_metadata src1 sb su mstart base r0 = inspect_metadata src2 sb su mstart base r0"
proof -
  have r1: "readAt src1 mdV1FixedBytes base sb = readAt src2 mdV1FixedBytes base sb"
    using eq [of "unat base" 256] base by (simp add: readAt_def mdV1FixedBytes_def)
  have r2: "readAt src1 (unat mb - length fixed) (base + of_nat mdV1FixedBytes) sb =
      readAt src2 (unat mb - length fixed) (base + of_nat mdV1FixedBytes) sb"
    if "\<not> mb > mo_partition_bytes r0" "\<not> mstart > mo_partition_bytes r0 - mb" "length fixed = 256"
      "unat mb > length fixed" for mb :: u64 and fixed :: string
  proof -
    have "unat (base + 256) = unat base + 256" using base(3) by (simp add: unat_word_ariths)
    moreover have "unat mstart + unat mb \<le> unat (mo_partition_bytes r0)"
      using that(1,2) unat_sub [of mb "mo_partition_bytes r0"] by (simp add: not_less word_le_nat_alt)
    ultimately show ?thesis
      using eq [of "unat base + 256" "unat mb - 256"] base that(3,4)
      by (simp add: readAt_def mdV1FixedBytes_def)
  qed
  show ?thesis
  proof (cases "readAt src2 mdV1FixedBytes base sb")
    case (Inl e)
    then show ?thesis using r1 by (simp add: inspect_metadata_def)
  next
    case (Inr fixed)
    then have "length fixed = 256" using readAt_length by (auto simp: mdV1FixedBytes_def)
    then show ?thesis
      using Inr r1 r2 [of "of_nat mdV1FixedBytes + ucast (u32_at fixed mdV1MaxDevicesOffset) * 2" fixed]
      by (simp add: inspect_metadata_def Let_def)
  qed
qed

lemma inspect_local:
  assumes "\<And>off n. unat (part_start_lba p) * 512 \<le> off \<Longrightarrow>
      off + n \<le> (unat (part_start_lba p) + unat (part_size_lba p)) * 512 \<Longrightarrow> src1 off n = src2 off n"
  shows "InspectPartition (Some src1) sb p = InspectPartition (Some src2) sb p"
proof -
  let ?s = "part_start_lba p" and ?z = "part_size_lba p"
  let ?su = "(?z - 16) AND NOT 7"
  let ?base = "(?s + ?su) * logicalSectorBytes" and ?mstart = "?su * logicalSectorBytes"
  have "inspect_metadata src1 sb ?su ?mstart ?base r = inspect_metadata src2 sb ?su ?mstart ?base r"
    if g: "\<not> ?s > - 1 - ?z" "\<not> ?z > (- 1) div logicalSectorBytes" "\<not> ?z < 24"
      "\<not> ?s > 0x7fffffffffffffff div logicalSectorBytes"
      "\<not> ?su > 0x7fffffffffffffff div logicalSectorBytes - ?s"
      "mo_partition_bytes r = ?z * logicalSectorBytes" for r
  proof (rule inspect_metadata_local [OF assms])
    note geo = geometry [OF g(1-5)]
    show "unat ?s * 512 \<le> unat ?base" "unat ?base < 2 ^ 63"
      "unat ?base + (unat (mo_partition_bytes r) - unat ?mstart) \<le> (unat ?s + unat ?z) * 512"
      "unat ?mstart + 256 \<le> unat (mo_partition_bytes r)"
      using geo by (simp_all add: g(6) algebra_simps)
  qed
  then show ?thesis by (simp add: InspectPartition_def inspect_geometry_def Let_def)
qed

lemma inspect_geometry_outcome:
  assumes x: "inspect_geometry src n p r = x"
    and st: "mo_status r = StatusUnsupported" "mo_array_fingerprint r = []" "mo_member_fingerprint r = []"
    and g: "\<not> part_start_lba p > - 1 - part_size_lba p" "\<not> part_size_lba p > (- 1) div logicalSectorBytes"
  shows "x \<noteq> Inl MdPanic \<and> (\<forall>ob. x = Inr ob \<and> mo_status ob = StatusCandidate \<longrightarrow>
     (validComponentObservation ob \<longleftrightarrow> mo_member_fingerprint ob \<noteq> []) \<and>
     (unat (part_start_lba p) + unat (mo_data_offset ob) + unat (mo_data_sectors ob)) * 512 \<le>
       unat (mo_super_offset ob) \<and>
     unat (mo_super_offset ob) + 8192 \<le> (unat (part_start_lba p) + unat (part_size_lba p)) * 512)"
proof -
  let ?s = "part_start_lba p" and ?z = "part_size_lba p"
  let ?su = "(?z - 16) AND NOT 7"
  let ?base = "(?s + ?su) * logicalSectorBytes" and ?mstart = "?su * logicalSectorBytes"
  let ?max = "(0x7fffffffffffffff :: u64) div logicalSectorBytes"
  show ?thesis
  proof (cases "?z < 24 \<or> ?s > ?max \<or> ?su > ?max - ?s \<or> ?mstart > mo_partition_bytes r \<or>
           of_nat mdV1FixedBytes > mo_partition_bytes r - ?mstart")
    case True
    then have "x = Inr (md_unsupported r) \<or> x = Inr (md_damaged r)"
      unfolding x [symmetric] inspect_geometry_def Let_def by (elim disjE) simp_all
    then show ?thesis by (elim disjE) (simp_all add: md_unsupported_def md_damaged_def)
  next
    case ok: False
    then have m: "inspect_metadata src n ?su ?mstart ?base (r\<lparr>mo_super_offset := ?base\<rparr>) = x"
      unfolding x [symmetric] inspect_geometry_def Let_def by simp
    have g24: "\<not> ?z < 24" "\<not> ?s > ?max" "\<not> ?su > ?max - ?s" using ok by simp_all
    note geo = geometry(4,6) [OF g g24]
    note sp = inspect_metadata_spec [OF m]
    show ?thesis
    proof (intro conjI allI impI; (elim conjE)?)
      show "x \<noteq> Inl MdPanic" using sp st by simp
      fix ob assume ob: "x = Inr ob" "mo_status ob = StatusCandidate"
      then have c: "validComponentObservation ob \<longleftrightarrow> mo_member_fingerprint ob \<noteq> []"
        "unat (mo_data_offset ob) + unat (mo_data_sectors ob) \<le> unat ?su" "mo_super_offset ob = ?base"
        using sp st by simp_all
      show "validComponentObservation ob \<longleftrightarrow> mo_member_fingerprint ob \<noteq> []" by (rule c(1))
      show "(unat ?s + unat (mo_data_offset ob) + unat (mo_data_sectors ob)) * 512 \<le> unat (mo_super_offset ob)"
        unfolding c(3) geo(1) by (rule mult_le_mono1) (use c(2) in simp)
      show "unat (mo_super_offset ob) + 8192 \<le> (unat ?s + unat ?z) * 512"
        unfolding c(3) geo(1) using mult_le_mono1 [OF geo(2), of 512] by (simp add: add_mult_distrib)
    qed
  qed
qed

subsection \<open>Array comparison\<close>

lemma scan_fold:
  assumes "\<not> sn_duplicate s0 \<longrightarrow>
    distinct (sn_numbers s0) \<and> distinct (sn_identities s0) \<and> distinct (sn_roles s0)"
  shows "(let s = foldl (scan_member m) s0 xs in
    sn_numbers s = rev (map mo_member_number xs) @ sn_numbers s0 \<and>
    sn_identities s = rev (filter (\<lambda>i. i \<noteq> []) (map mo_member_fingerprint xs)) @ sn_identities s0 \<and>
    sn_roles s = rev (map (unat \<circ> mo_member_role) (filter (active_in (mo_raid_disks m)) xs)) @ sn_roles s0 \<and>
    (sn_conflicting s \<longleftrightarrow> sn_conflicting s0 \<or> (\<exists>c \<in> set xs. \<not> same_geometry c m)) \<and>
    (sn_divergent s \<longleftrightarrow> sn_divergent s0 \<or> (\<exists>c \<in> set xs. mo_events c \<noteq> mo_events m)) \<and>
    (sn_duplicate s \<longleftrightarrow> sn_duplicate s0 \<or>
       \<not> (distinct (sn_numbers s) \<and> distinct (sn_identities s) \<and> distinct (sn_roles s))))"
  using assms
proof (induction xs arbitrary: s0)
  case Nil
  then show ?case by auto
next
  case (Cons c xs)
  define s1 where "s1 = scan_member m s0 c"
  have s1: "sn_numbers s1 = mo_member_number c # sn_numbers s0"
    "sn_identities s1 = (if mo_member_fingerprint c \<noteq> [] then mo_member_fingerprint c # sn_identities s0 else sn_identities s0)"
    "sn_roles s1 = (if active_in (mo_raid_disks m) c then unat (mo_member_role c) # sn_roles s0 else sn_roles s0)"
    "sn_conflicting s1 \<longleftrightarrow> sn_conflicting s0 \<or> \<not> same_geometry c m"
    "sn_divergent s1 \<longleftrightarrow> sn_divergent s0 \<or> mo_events c \<noteq> mo_events m"
    "sn_duplicate s1 \<longleftrightarrow> sn_duplicate s0 \<or> mo_member_number c \<in> set (sn_numbers s0) \<or>
          (mo_member_fingerprint c \<noteq> [] \<and> mo_member_fingerprint c \<in> set (sn_identities s0)) \<or>
          (active_in (mo_raid_disks m) c \<and> unat (mo_member_role c) \<in> set (sn_roles s0))"
    by (simp_all add: s1_def scan_member_def Let_def)
  have "\<not> sn_duplicate s1 \<longrightarrow>
    distinct (sn_numbers s1) \<and> distinct (sn_identities s1) \<and> distinct (sn_roles s1)"
    using Cons.prems s1 by auto
  note ih = Cons.IH [OF this, unfolded Let_def]
  have f: "foldl (scan_member m) s0 (c # xs) = foldl (scan_member m) s1 xs" by (simp add: s1_def)
  define s where "s = foldl (scan_member m) s1 xs"
  note ih = ih [folded s_def]
  have lists: "sn_numbers s = rev (map mo_member_number (c # xs)) @ sn_numbers s0"
    "sn_identities s = rev (filter (\<lambda>i. i \<noteq> []) (map mo_member_fingerprint (c # xs))) @ sn_identities s0"
    "sn_roles s = rev (map (unat \<circ> mo_member_role) (filter (active_in (mo_raid_disks m)) (c # xs))) @ sn_roles s0"
    using ih s1 by simp_all
  have "sn_duplicate s1 \<longleftrightarrow> sn_duplicate s0 \<or>
      \<not> (distinct (sn_numbers s1) \<and> distinct (sn_identities s1) \<and> distinct (sn_roles s1))"
    using Cons.prems s1 by auto
  moreover have "distinct (sn_numbers s) \<Longrightarrow> distinct (sn_numbers s1)"
    using ih by (elim conjE) (simp only: distinct_append)
  moreover have "distinct (sn_identities s) \<Longrightarrow> distinct (sn_identities s1)"
    using ih by (elim conjE) (simp only: distinct_append)
  moreover have "distinct (sn_roles s) \<Longrightarrow> distinct (sn_roles s1)"
    using ih by (elim conjE) (simp only: distinct_append)
  moreover have "sn_duplicate s \<longleftrightarrow> sn_duplicate s1 \<or>
      \<not> (distinct (sn_numbers s) \<and> distinct (sn_identities s) \<and> distinct (sn_roles s))"
    using ih by (elim conjE)
  ultimately have dup: "sn_duplicate s \<longleftrightarrow> sn_duplicate s0 \<or>
      \<not> (distinct (sn_numbers s) \<and> distinct (sn_identities s) \<and> distinct (sn_roles s))"
    by blast
  have "sn_conflicting s \<longleftrightarrow> sn_conflicting s0 \<or> (\<exists>c \<in> set (c # xs). \<not> same_geometry c m)"
    "sn_divergent s \<longleftrightarrow> sn_divergent s0 \<or> (\<exists>c \<in> set (c # xs). mo_events c \<noteq> mo_events m)"
    using ih s1 by simp_all
  with lists dup show ?case unfolding f Let_def s_def [symmetric] by (intro conjI)
qed

lemma compareArray_status:
  "ac_status (compareArray k m ms) = ArrayMetadataConsistent \<longleftrightarrow>
     (\<forall>c \<in> set ms. same_geometry c m \<and> mo_events c = mo_events m) \<and>
     distinct (map mo_member_number (m # ms)) \<and>
     distinct (filter (\<lambda>i. i \<noteq> []) (map mo_member_fingerprint (m # ms))) \<and>
     distinct (map mo_member_role (filter (active_in (mo_raid_disks m)) (m # ms))) \<and>
     (unat \<circ> mo_member_role) ` {c \<in> set (m # ms). active_in (mo_raid_disks m) c} = {..<unat (mo_raid_disks m)}"
proof -
  define s where "s = foldl (scan_member m) empty_scan (m # ms)"
  have f: "sn_numbers s = rev (map mo_member_number (m # ms))"
    "sn_identities s = rev (filter (\<lambda>i. i \<noteq> []) (map mo_member_fingerprint (m # ms)))"
    "sn_roles s = rev (map (unat \<circ> mo_member_role) (filter (active_in (mo_raid_disks m)) (m # ms)))"
    "sn_conflicting s \<longleftrightarrow> (\<exists>c \<in> set (m # ms). \<not> same_geometry c m)"
    "sn_divergent s \<longleftrightarrow> (\<exists>c \<in> set (m # ms). mo_events c \<noteq> mo_events m)"
    "sn_duplicate s \<longleftrightarrow> \<not> (distinct (sn_numbers s) \<and> distinct (sn_identities s) \<and> distinct (sn_roles s))"
    using scan_fold [of empty_scan m "m # ms"] unfolding s_def [symmetric] Let_def
    by (simp_all only: empty_scan_def scan.simps distinct.simps simp_thms append_Nil2)
  have inj: "distinct (map (unat \<circ> mo_member_role) xs) = distinct (map mo_member_role xs)" for xs
    by (simp add: distinct_map inj_on_def word_unat_eq_iff)
  have roles: "set (sn_roles s) = (unat \<circ> mo_member_role) ` {c \<in> set (m # ms). active_in (mo_raid_disks m) c}"
    unfolding f(3) by (simp only: set_rev set_map set_filter)
  have sub: "set (sn_roles s) \<subseteq> {..<unat (mo_raid_disks m)}"
    unfolding roles by (auto simp: active_in_def)
  have miss: "filter (\<lambda>r. r \<notin> set (sn_roles s)) [0..<unat (mo_raid_disks m)] = [] \<longleftrightarrow>
      set (sn_roles s) = {..<unat (mo_raid_disks m)}"
    using sub by (auto simp: filter_empty_conv)
  have self: "same_geometry m m" by (simp add: same_geometry_def)
  have "ac_status (compareArray k m ms) = ArrayMetadataConsistent \<longleftrightarrow>
     \<not> sn_duplicate s \<and> \<not> sn_conflicting s \<and> \<not> sn_divergent s \<and>
     filter (\<lambda>r. r \<notin> set (sn_roles s)) [0..<unat (mo_raid_disks m)] = []"
    unfolding compareArray_def s_def [symmetric] Let_def by simp
  also have "\<dots> \<longleftrightarrow> distinct (sn_numbers s) \<and> distinct (sn_identities s) \<and> distinct (sn_roles s) \<and>
     (\<forall>c \<in> set ms. same_geometry c m \<and> mo_events c = mo_events m) \<and>
     set (sn_roles s) = {..<unat (mo_raid_disks m)}"
    unfolding miss f(4-6) using self by auto
  finally show ?thesis
    unfolding roles unfolding f(1,2,3) distinct_rev inj by (simp only: conj_ac)
qed

subsection \<open>Grouping\<close>

definition qualifies :: "component_evidence \<Rightarrow> bool" where
  "qualifies c \<longleftrightarrow> mo_partition_number (ce_observation c) = ce_partition_number c \<and>
     validComponentObservation (ce_observation c)"

definition identified :: "component_evidence list \<Rightarrow> md_observation list" where
  "identified cs = filter (\<lambda>ob. validFingerprint (mo_array_fingerprint ob)) (map ce_observation (filter qualifies cs))"

definition members_of :: "string \<Rightarrow> md_observation list \<Rightarrow> md_observation list" where
  "members_of k obs = filter (\<lambda>ob. mo_array_fingerprint ob = k) obs"

definition in_range :: "component_evidence \<Rightarrow> bool" where
  "in_range c \<longleftrightarrow> ce_disk_index c \<noteq> 0 \<and> ce_disk_index c \<le> maxComponentDiskIndex \<and>
     ce_partition_number c \<noteq> 0 \<and> ce_partition_number c \<le> maxComponentPartition"

text \<open>What the groups are after the observations \<open>obs\<close>: one per fingerprint, with its members in order.\<close>

definition groups_of :: "group list \<Rightarrow> md_observation list \<Rightarrow> bool" where
  "groups_of gs obs \<longleftrightarrow> distinct (map fst gs) \<and> set (map fst gs) = mo_array_fingerprint ` set obs \<and>
     (\<forall>(k, m, ms) \<in> set gs. m # ms = members_of k obs)"

lemma fst_add_group:
  "map fst (add_group k ob gs) = (if k \<in> set (map fst gs) then map fst gs else map fst gs @ [k])"
  by (induction k ob gs rule: add_group.induct) auto

lemma in_add_group:
  "g \<in> set (add_group k ob gs) \<Longrightarrow> distinct (map fst gs) \<Longrightarrow>
     (g \<in> set gs \<and> fst g \<noteq> k) \<or> (\<exists>m ms. (k, m, ms) \<in> set gs \<and> g = (k, m, ms @ [ob])) \<or>
     (k \<notin> set (map fst gs) \<and> g = (k, ob, []))"
proof (induction k ob gs rule: add_group.induct)
  case (2 k ob k' m ms gs)
  show ?case
  proof (cases "k = k'")
    case True
    then have "g = (k', m, ms @ [ob]) \<or> g \<in> set gs" using 2(2) by auto
    moreover have "g \<in> set gs \<Longrightarrow> fst g \<noteq> k" using 2(3) True by force
    ultimately show ?thesis using True by auto
  next
    case False
    then have "g = (k', m, ms) \<or> g \<in> set (add_group k ob gs)" using 2(2) by auto
    then show ?thesis using 2(1) [OF False] 2(3) False by auto
  qed
qed auto

lemma groups_of_add:
  assumes "groups_of gs obs"
  shows "groups_of (add_group (mo_array_fingerprint ob) ob gs) (obs @ [ob])"
proof -
  let ?k = "mo_array_fingerprint ob"
  have g: "distinct (map fst gs)" "set (map fst gs) = mo_array_fingerprint ` set obs"
    "\<And>k m ms. (k, m, ms) \<in> set gs \<Longrightarrow> m # ms = members_of k obs"
    using assms by (auto simp: groups_of_def)
  have "m # ms = members_of k (obs @ [ob])" if "(k, m, ms) \<in> set (add_group ?k ob gs)" for k m ms
    using in_add_group [OF that g(1)]
  proof (elim disjE)
    assume "(k, m, ms) \<in> set gs \<and> fst (k, m, ms) \<noteq> ?k"
    then show ?thesis using g(3) by (auto simp: members_of_def)
  next
    assume "\<exists>m' ms'. (?k, m', ms') \<in> set gs \<and> (k, m, ms) = (?k, m', ms' @ [ob])"
    then obtain ms' where "(?k, m, ms') \<in> set gs" "k = ?k" "ms = ms' @ [ob]" by auto
    then show ?thesis using g(3) by (auto simp: members_of_def)
  next
    assume *: "?k \<notin> set (map fst gs) \<and> (k, m, ms) = (?k, ob, [])"
    then have "\<forall>x \<in> set obs. mo_array_fingerprint x \<noteq> ?k" unfolding g(2) by (metis imageI)
    then have "members_of ?k obs = []" by (simp add: members_of_def filter_empty_conv)
    then show ?thesis using * by (simp add: members_of_def)
  qed
  moreover have "distinct (map fst (add_group ?k ob gs))"
    "set (map fst (add_group ?k ob gs)) = mo_array_fingerprint ` set (obs @ [ob])"
    unfolding fst_add_group using g(1,2) by auto
  ultimately show ?thesis unfolding groups_of_def by auto
qed

lemma scan_components_spec:
  "scan_components seen (a, b, c) gs cs = Some (counts, groups) \<Longrightarrow> groups_of gs obs \<Longrightarrow>
     list_all in_range cs \<and> distinct (map (\<lambda>c. (ce_disk_index c, ce_partition_number c)) cs) \<and>
     counts = (a + length (filter qualifies cs), b + length (filter (\<lambda>c. \<not> qualifies c) cs),
       c + length (filter qualifies cs) - length (identified cs)) \<and>
     length (identified cs) \<le> length (filter qualifies cs) \<and>
     set seen \<inter> set (map (\<lambda>c. (ce_disk_index c, ce_partition_number c)) cs) = {} \<and>
     groups_of groups (obs @ identified cs)"
proof (induction cs arbitrary: seen a b c gs obs)
  case Nil
  then show ?case by (simp add: identified_def)
next
  case (Cons e cs)
  let ?loc = "(ce_disk_index e, ce_partition_number e)" and ?ob = "ce_observation e"
  have ok: "in_range e" "?loc \<notin> set seen"
    using Cons.prems(1) by (auto simp: in_range_def Let_def not_less split: if_splits)
  have guards: "\<not> (ce_disk_index e = 0 \<or> ce_disk_index e > maxComponentDiskIndex \<or>
         ce_partition_number e = 0 \<or> ce_partition_number e > maxComponentPartition)"
    using ok(1) by (auto simp: in_range_def)
  consider (unq) "\<not> qualifies e" | (uni) "qualifies e" "\<not> validFingerprint (mo_array_fingerprint ?ob)"
    | (add) "qualifies e" "validFingerprint (mo_array_fingerprint ?ob)" by blast
  then show ?case
  proof cases
    case unq
    then have "scan_components (?loc # seen) (a, b + 1, c) gs cs = Some (counts, groups)"
      using Cons.prems(1) guards ok(2) by (simp add: Let_def qualifies_def)
    from Cons.IH [OF this Cons.prems(2)] show ?thesis using unq ok by (auto simp: identified_def)
  next
    case uni
    then have "scan_components (?loc # seen) (a + 1, b, c + 1) gs cs = Some (counts, groups)"
      using Cons.prems(1) guards ok(2) by (simp add: Let_def qualifies_def)
    from Cons.IH [OF this Cons.prems(2)] show ?thesis using uni ok by (auto simp: identified_def)
  next
    case add
    then have "scan_components (?loc # seen) (a + 1, b, c)
        (add_group (mo_array_fingerprint ?ob) ?ob gs) cs = Some (counts, groups)"
      using Cons.prems(1) guards ok(2) by (simp add: Let_def qualifies_def)
    from Cons.IH [OF this groups_of_add [OF Cons.prems(2)]] show ?thesis
      using add ok by (auto simp: identified_def)
  qed
qed

lemma sort_groups:
  assumes "groups_of gs obs"
  shows "map (\<lambda>(k, m, ms). compareArray k m ms) (sort_key fst gs) =
    map (\<lambda>k. compareArray k (hd (members_of k obs)) (tl (members_of k obs)))
      (sorted_list_of_set (mo_array_fingerprint ` set obs))"
proof -
  let ?f = "\<lambda>k. compareArray k (hd (members_of k obs)) (tl (members_of k obs))"
  have "map (\<lambda>(k, m, ms). compareArray k m ms) (sort_key fst gs) = map (?f \<circ> fst) (sort_key fst gs)"
  proof (rule map_cong [OF refl])
    fix g assume "g \<in> set (sort_key fst gs)"
    then have "g \<in> set gs" by simp
    then obtain k m ms where g: "g = (k, m, ms)" "(k, m, ms) \<in> set gs" by (metis surj_pair)
    then have "m # ms = members_of k obs" using assms by (auto simp: groups_of_def)
    then show "(case g of (k, m, ms) \<Rightarrow> compareArray k m ms) = (?f \<circ> fst) g"
      using g(1) by (simp flip: \<open>m # ms = members_of k obs\<close>)
  qed
  moreover have "map fst (sort_key fst gs) = sorted_list_of_set (mo_array_fingerprint ` set obs)"
  proof (rule sorted_distinct_set_unique)
    show "distinct (map fst (sort_key fst gs))"
      using assms by (simp add: groups_of_def distinct_map)
    show "set (map fst (sort_key fst gs)) = set (sorted_list_of_set (mo_array_fingerprint ` set obs))"
      using assms by (simp add: groups_of_def)
  qed simp_all
  ultimately show ?thesis by (simp flip: map_map)
qed

subsection \<open>Properties\<close>

text \<open>
  C15: \<open>InspectPartition\<close> never slices out of range, and what it calls a candidate is one: the
  observation has every property \<open>CompareComponents\<close> asks for except possibly a member identity,
  and in the disk the component data ends before the superblock, which ends in the partition.
\<close>

theorem inspect_candidate_sound:
  "InspectPartition source sourceBytes p \<noteq> Inl MdPanic \<and>
   (\<forall>ob. InspectPartition source sourceBytes p = Inr ob \<and> mo_status ob = StatusCandidate \<longrightarrow>
     (validComponentObservation ob \<longleftrightarrow> mo_member_fingerprint ob \<noteq> []) \<and>
     (unat (part_start_lba p) + unat (mo_data_offset ob) + unat (mo_data_sectors ob)) * 512 \<le>
       unat (mo_super_offset ob) \<and>
     unat (mo_super_offset ob) + 8192 \<le> (unat (part_start_lba p) + unat (part_size_lba p)) * 512)"
proof (cases source)
  case None
  then show ?thesis by (simp add: InspectPartition_def)
next
  case src: (Some src)
  let ?s = "part_start_lba p" and ?z = "part_size_lba p"
  define r where "r = newObservation p\<lparr>mo_disk_sectors := of_int sourceBytes div logicalSectorBytes,
    mo_last_lba := ?s + ?z - 1, mo_partition_bytes := ?z * logicalSectorBytes\<rparr>"
  have st: "mo_status r = StatusUnsupported" "mo_array_fingerprint r = []" "mo_member_fingerprint r = []"
    by (simp_all add: r_def newObservation_def)
  show ?thesis
  proof (cases "\<not> ?s > - 1 - ?z \<and> \<not> ?z > (- 1) div logicalSectorBytes \<and>
      InspectPartition source sourceBytes p = inspect_geometry src sourceBytes p r")
    case True
    then show ?thesis
      using inspect_geometry_outcome [OF _ st, of src sourceBytes p "InspectPartition source sourceBytes p"]
      by simp
  next
    case False
    then have "InspectPartition source sourceBytes p = Inl ErrUnsafeSource"
      unfolding InspectPartition_def Let_def src option.case r_def by presburger
    then show ?thesis by simp
  qed
qed

text \<open>An image with one partition of 40 sectors and a superblock on its sector 24.\<close>

definition sample_super :: string where
  "sample_super = map (char_of :: nat \<Rightarrow> char)
     ([0xfc, 0x4e, 0x2b, 0xa9, 1, 0, 0, 0] @ replicate 64 0 @ [1, 0, 0, 0, 0, 0, 0, 0, 8, 0, 0, 0, 0, 0, 0, 0,
       0, 0, 0, 0, 1, 0, 0, 0] @ replicate 40 0 @ [8] @ replicate 7 0 @ [24] @ replicate 63 0 @
      [0, 0, 0, 0, 0, 0, 0, 0, 40, 0x4f, 0x2b, 0xa9, 1, 0, 0, 0] @ replicate 34 0)"

definition sample_source :: reader_at where
  "sample_source off n = (take n (drop (off - 32768) sample_super), False)"

definition sample_partition :: partition where
  "sample_partition = \<lparr>part_number = 1, part_start_lba = 40, part_size_lba = 40\<rparr>"

lemma replicate_num: "replicate (numeral k) x = x # replicate (pred_numeral k) x"
  by (simp add: numeral_eq_Suc)

lemmas md_eval = InspectPartition_def inspect_geometry_def inspect_metadata_def inspect_superblock_def
  inspect_fields_def readAt_def newObservation_def role_description_def mdV1Checksum_def Let_def
  u16_at_def u32_at_def u64_at_def sub_bytes_def mdV1ChecksumOffset_def mdV1SuperOffset_def
  mdV1MaxDevicesOffset_def mdV1RolesOffset_def mdV1Magic_def mdV1FixedBytes_def mdV1MaximumBytes_def
  mdV1MaxDevices_def logicalSectorBytes_def replicate_num

lemma sample_inspect:
  "case InspectPartition (Some sample_source) 51200 sample_partition of
     Inl e \<Rightarrow> False | Inr ob \<Rightarrow> mo_status ob = StatusCandidate"
  by (simp add: md_eval sample_super_def sample_source_def sample_partition_def)

theorem inspect_candidate_sound_witness:
  "\<exists>ob. InspectPartition (Some sample_source) 51200 sample_partition = Inr ob \<and>
     mo_status ob = StatusCandidate \<and> unat (mo_super_offset ob) + 8192 \<le> 80 * 512"
proof -
  obtain ob where ob: "InspectPartition (Some sample_source) 51200 sample_partition = Inr ob"
    "mo_status ob = StatusCandidate"
    using sample_inspect by (auto split: sum.splits)
  then have "unat (mo_super_offset ob) + 8192 \<le>
      (unat (part_start_lba sample_partition) + unat (part_size_lba sample_partition)) * 512"
    using inspect_candidate_sound [of "Some sample_source" 51200 sample_partition] by simp
  then show ?thesis using ob by (simp add: sample_partition_def)
qed

text \<open>
  C16: \<open>InspectPartition\<close> reads only the partition it is given: two sources that agree on the
  partition's bytes give the same result, whatever the rest of the disk holds.
\<close>

theorem inspect_reads_partition_only:
  assumes "\<And>off n. unat (part_start_lba p) * 512 \<le> off \<Longrightarrow>
      off + n \<le> (unat (part_start_lba p) + unat (part_size_lba p)) * 512 \<Longrightarrow> src1 off n = src2 off n"
  shows "InspectPartition (Some src1) sourceBytes p = InspectPartition (Some src2) sourceBytes p"
  using assms by (rule inspect_local)

theorem inspect_reads_partition_only_witness:
  "InspectPartition (Some sample_source) 51200 sample_partition =
   InspectPartition (Some (\<lambda>off n. if off < 20480 then ([], True) else sample_source off n)) 51200 sample_partition"
  by (rule inspect_reads_partition_only) (simp add: sample_partition_def)

text \<open>
  C17: an array is called metadata-consistent exactly when all its members agree with the first on
  the array fields and the event counter, member numbers, member identities and active roles are
  each unique, and the active roles are exactly all of the array's slots.
\<close>

theorem array_consistent_iff:
  "ac_status (compareArray k m ms) = ArrayMetadataConsistent \<longleftrightarrow>
     (\<forall>c \<in> set ms. same_geometry c m \<and> mo_events c = mo_events m) \<and>
     distinct (map mo_member_number (m # ms)) \<and>
     distinct (filter (\<lambda>i. i \<noteq> []) (map mo_member_fingerprint (m # ms))) \<and>
     distinct (map mo_member_role (filter (active_in (mo_raid_disks m)) (m # ms))) \<and>
     (unat \<circ> mo_member_role) ` {c \<in> set (m # ms). active_in (mo_raid_disks m) c} =
       {..<unat (mo_raid_disks m)}"
  by (rule compareArray_status)

definition sample_member :: "u32 \<Rightarrow> string \<Rightarrow> md_observation" where
  "sample_member i ident = newObservation sample_partition\<lparr>mo_raid_disks := 2, mo_max_devices := 4,
     mo_member_number := i, mo_member_role := ucast i, mo_role_description := ''active-slot'',
     mo_member_fingerprint := ident\<rparr>"

lemma sample_member_simps:
  "mo_raid_disks (sample_member i s) = 2" "mo_member_number (sample_member i s) = i"
  "mo_member_role (sample_member i s) = ucast i" "mo_role_description (sample_member i s) = ''active-slot''"
  "mo_member_fingerprint (sample_member i s) = s" "mo_events (sample_member i s) = 0"
  "mo_level (sample_member i s) = 0" "mo_layout (sample_member i s) = 0" "mo_size_sectors (sample_member i s) = 0"
  "mo_chunk_sectors (sample_member i s) = 0" "mo_data_sectors (sample_member i s) = 0"
  "mo_max_devices (sample_member i s) = 4" "mo_feature_map (sample_member i s) = 0"
  by (simp_all add: sample_member_def newObservation_def)

theorem array_consistent_iff_witness:
  "ac_status (compareArray ''k'' (sample_member 0 ''a'') [sample_member 1 ''b'']) = ArrayMetadataConsistent"
proof -
  have "{..<unat (2 :: u32)} = {0, 1}" by auto
  moreover have "{c \<in> {sample_member 0 ''a'', sample_member 1 ''b''}. active_in 2 c} =
      {sample_member 0 ''a'', sample_member 1 ''b''}"
    by (auto simp: active_in_def sample_member_def)
  ultimately show ?thesis
    unfolding array_consistent_iff by (simp add: sample_member_simps same_geometry_def active_in_def)
qed

text \<open>
  C18: \<open>CompareComponents\<close> accounts for every component: it refuses exactly what is too long, out
  of the envelope or duplicated, counts each remaining component as qualified or not, and
  reports one array per fingerprint, in ascending order, made of exactly the qualified
  components with that fingerprint in input order.
\<close>

theorem compare_components_exact:
  assumes "CompareComponents cs = Some r"
  shows "length cs \<le> 512 \<and> list_all in_range cs \<and>
    distinct (map (\<lambda>c. (ce_disk_index c, ce_partition_number c)) cs) \<and>
    sc_candidates r = length (filter qualifies cs) \<and>
    sc_candidates r + sc_unqualified r = length cs \<and>
    sc_candidates r = sc_unidentified r + length (identified cs) \<and>
    sc_arrays r = map (\<lambda>k. compareArray k (hd (members_of k (identified cs))) (tl (members_of k (identified cs))))
      (sorted_list_of_set (mo_array_fingerprint ` set (identified cs)))"
proof -
  obtain counts groups where sc: "scan_components [] (0, 0, 0) [] cs = Some (counts, groups)"
    and r: "r = \<lparr>sc_candidates = fst counts, sc_unqualified = fst (snd counts),
      sc_unidentified = snd (snd counts), sc_arrays = map (\<lambda>(k, m, ms). compareArray k m ms) (sort_key fst groups)\<rparr>"
    and len: "length cs \<le> 512"
    using assms by (auto simp: CompareComponents_def maxComponentEvidence_def split: if_splits option.splits prod.splits)
  have "groups_of [] []" by (simp add: groups_of_def)
  note sp = scan_components_spec [OF sc this]
  then have g: "groups_of groups (identified cs)" by simp
  show ?thesis
    using sp len sum_length_filter_compl [of qualifies cs] unfolding r sort_groups [OF g] by simp
qed

definition sample_components :: "component_evidence list" where
  "sample_components = [\<lparr>ce_disk_index = 1, ce_partition_number = 1, ce_observation = sample_member 0 ''''\<rparr>,
     \<lparr>ce_disk_index = 2, ce_partition_number = 1, ce_observation = sample_member 1 ''''\<rparr>]"

theorem compare_components_exact_witness:
  "\<exists>r. CompareComponents sample_components = Some r \<and> sc_candidates r + sc_unqualified r = 2"
proof -
  have "CompareComponents sample_components \<noteq> None" by code_simp
  then obtain r where r: "CompareComponents sample_components = Some r" by auto
  then show ?thesis using compare_components_exact [OF r] by (simp add: sample_components_def)
qed

end
