(* ===== verification/Mcu_Proto.thy ===== *)
theory Mcu_Proto
  imports MD_Metadata
begin

section \<open>The front-controller capture decoder\<close>

text \<open>
  The model of \<open>tools/phantowd-lab/mcuproto\<close>: the two selector tables of \<open>catalog.go\<close>, and from
  \<open>decoder.go\<close> the classification of one frame (\<open>DecodeReceive\<close>), the stream decoder
  (\<open>Push\<close>, \<open>Finalize\<close>) and the replay of decoded frames into the simulator state. A byte is
  a \<open>char\<close>, the counters are 64-bit words. The lemmas compare the stream decoder with a
  declarative description of where frames stand in a capture, show that the cutting of a
  capture into chunks does not matter, and that every start marker is accounted for.
\<close>

subsection \<open>Selector tables\<close>

record mcu_selector =
  sel_name :: string
  sel_template :: string

definition selector :: "string \<Rightarrow> nat \<Rightarrow> nat \<Rightarrow> nat \<Rightarrow> nat \<Rightarrow> mcu_selector" where
  "selector n a b c d = \<lparr>sel_name = n, sel_template = map char_of [a, b, c, d]\<rparr>"

definition transmit_selectors :: "mcu_selector list" where
  "transmit_selectors =
    [selector ''FanControl'' 0x02 0x00 0x00 0x00,
     selector ''RSecond'' 0x01 0x00 0x01 0x01,
     selector ''RMinute'' 0x01 0x01 0x01 0x01,
     selector ''RHour'' 0x01 0x02 0x01 0x01,
     selector ''RDayOfWeek'' 0x01 0x03 0x01 0x01,
     selector ''RDayOfMonth'' 0x01 0x04 0x01 0x01,
     selector ''RMonth'' 0x01 0x05 0x01 0x01,
     selector ''RYear'' 0x01 0x06 0x01 0x01,
     selector ''RAiSecond'' 0x01 0x07 0x01 0x01,
     selector ''RAiMinute'' 0x01 0x08 0x01 0x01,
     selector ''RAiHour'' 0x01 0x09 0x01 0x01,
     selector ''RAiDateDay'' 0x01 0x0a 0x01 0x01,
     selector ''RAi2Minute'' 0x01 0x0b 0x01 0x01,
     selector ''RAi2Hour'' 0x01 0x0c 0x01 0x01,
     selector ''RAi2DateDay'' 0x01 0x0d 0x01 0x01,
     selector ''RRtcControl'' 0x01 0x0e 0x01 0x01,
     selector ''RRtcStatus'' 0x01 0x0f 0x01 0x01,
     selector ''RDateAndTime'' 0x01 0x00 0x03 0x01,
     selector ''RMDateAndTime'' 0x01 0x00 0x05 0x01,
     selector ''WSecond'' 0x01 0x00 0x02 0x01,
     selector ''WMinute'' 0x01 0x01 0x02 0x01,
     selector ''WHour'' 0x01 0x02 0x02 0x01,
     selector ''WDayOfWeek'' 0x01 0x03 0x02 0x01,
     selector ''WDayOfMonth'' 0x01 0x04 0x02 0x01,
     selector ''WMonth'' 0x01 0x05 0x02 0x01,
     selector ''WYear'' 0x01 0x06 0x02 0x01,
     selector ''WAiSecond'' 0x01 0x07 0x02 0x01,
     selector ''WAiMinute'' 0x01 0x08 0x02 0x01,
     selector ''WAiHour'' 0x01 0x09 0x02 0x01,
     selector ''WAiDateDay'' 0x01 0x0a 0x02 0x01,
     selector ''WAi2Minute'' 0x01 0x0b 0x02 0x01,
     selector ''WAi2Hour'' 0x01 0x0c 0x02 0x01,
     selector ''WAi2DateDay'' 0x01 0x0d 0x02 0x01,
     selector ''WRtcControl'' 0x01 0x0e 0x02 0x01,
     selector ''WRtcStatus'' 0x01 0x0f 0x02 0x01,
     selector ''WDateAndTime'' 0x01 0x00 0x04 0x07,
     selector ''WMAlarmDateAndTime'' 0x01 0x00 0x06 0x05,
     selector ''WAlarmEnable'' 0x01 0x0e 0x02 0x01,
     selector ''WAlarmDisable'' 0x01 0x0e 0x02 0x01,
     selector ''SysName'' 0x04 0x01 0x00 0x00,
     selector ''SysIP1'' 0x04 0x02 0x01 0x08,
     selector ''SysIP2'' 0x04 0x02 0x02 0x08,
     selector ''SysIP1Dis'' 0x04 0x02 0x04 0x00,
     selector ''SysIP2Dis'' 0x04 0x02 0x08 0x00,
     selector ''SysIPBondSet'' 0x04 0x02 0x10 0x08,
     selector ''SysIPBondClean'' 0x04 0x02 0x20 0x00,
     selector ''HDDExist'' 0x04 0x03 0x00 0x01,
     selector ''VolStatus'' 0x04 0x04 0x01 0x00,
     selector ''VolRaidState'' 0x04 0x04 0x02 0x00,
     selector ''VolUsedPct'' 0x04 0x04 0x03 0x00,
     selector ''VolClean'' 0x04 0x04 0x04 0x00,
     selector ''MFGLCD'' 0x04 0x72 0x00 0x00,
     selector ''LCDSleepMode'' 0x04 0x82 0x00 0x00,
     selector ''FanSpeed'' 0x04 0x83 0x00 0x00,
     selector ''HDHealthy'' 0x04 0x84 0x00 0x00,
     selector ''CapacityFree'' 0x04 0x85 0x00 0x00,
     selector ''ErrStatus'' 0x55 0x00 0x00 0x00,
     selector ''DeviceShutdownMsg'' 0x03 0x03 0x04 0x01,
     selector ''DeviceRstMsg'' 0x03 0x03 0x05 0x01,
     selector ''Standby'' 0x04 0x06 0x00 0x00,
     selector ''OledTest'' 0x04 0x07 0x00 0x00,
     selector ''FirmwareVer'' 0x04 0x08 0x00 0x00,
     selector ''temperature'' 0x04 0x09 0x00 0x00,
     selector ''usbExist'' 0x04 0x0a 0x00 0x00,
     selector ''backupStatus'' 0x04 0x0b 0x00 0x00,
     selector ''backupDirection'' 0x04 0x0c 0x00 0x00,
     selector ''DeviceReady'' 0x03 0x01 0x00 0x00,
     selector ''APREnable'' 0x03 0x02 0x01 0x00,
     selector ''APRDisable'' 0x03 0x02 0x00 0x00,
     selector ''DeviceShutdown'' 0x03 0x03 0x01 0x01,
     selector ''MCUReset'' 0x03 0x03 0x02 0x01,
     selector ''DeviceShutdownByUPS'' 0x03 0x03 0x03 0x01,
     selector ''MCUVer'' 0x03 0x05 0x00 0x00,
     selector ''HddAccessLed'' 0x03 0x06 0x00 0x00,
     selector ''MFGMode'' 0x03 0x07 0x00 0x00,
     selector ''GetThemister'' 0x03 0x08 0x00 0x00,
     selector ''GetOnCause'' 0x03 0x09 0x00 0x00,
     selector ''PwrLedRed'' 0x03 0x10 0x00 0x00,
     selector ''APRStat'' 0x03 0x02 0x02 0x00,
     selector ''WOLEnable'' 0x03 0x12 0x01 0x00,
     selector ''WOLDisable'' 0x03 0x12 0x00 0x00,
     selector ''WOLStat'' 0x03 0x12 0x02 0x00]"

definition receive_selectors :: "mcu_selector list" where
  "receive_selectors =
    [selector ''RSec'' 0x01 0x00 0x01 0x01,
     selector ''RMin'' 0x01 0x01 0x01 0x01,
     selector ''RHour'' 0x01 0x02 0x01 0x01,
     selector ''RDOW'' 0x01 0x03 0x01 0x01,
     selector ''RDOM'' 0x01 0x04 0x01 0x01,
     selector ''RMon'' 0x01 0x05 0x01 0x01,
     selector ''RYear'' 0x01 0x06 0x01 0x01,
     selector ''RAiSecond'' 0x01 0x07 0x01 0x01,
     selector ''RAiMinute'' 0x01 0x08 0x01 0x01,
     selector ''RAiHour'' 0x01 0x09 0x01 0x01,
     selector ''RAiDateDay'' 0x01 0x0a 0x01 0x01,
     selector ''RAi2Minute'' 0x01 0x0b 0x01 0x01,
     selector ''RAi2Hour'' 0x01 0x0c 0x01 0x01,
     selector ''RAi2DateDay'' 0x01 0x0d 0x01 0x01,
     selector ''RRtcControl'' 0x01 0x0e 0x01 0x01,
     selector ''RRtcStatus'' 0x01 0x0f 0x01 0x01,
     selector ''RDateAndTime'' 0x01 0x00 0x03 0x07,
     selector ''RMDateAndTime'' 0x01 0x00 0x05 0x07,
     selector ''MCUVer'' 0x03 0x05 0x00 0x01,
     selector ''RTCAlarm'' 0x20 0x00 0x00 0x00,
     selector ''ACK'' 0x30 0x00 0x00 0x00,
     selector ''PWR'' 0x21 0x00 0x00 0x00,
     selector ''RST'' 0x22 0x00 0x00 0x00,
     selector ''RST2'' 0x52 0x00 0x00 0x00,
     selector ''PWRPush'' 0x23 0x00 0x00 0x00,
     selector ''RSTPush'' 0x24 0x00 0x00 0x00,
     selector ''FUNCPush'' 0x25 0x00 0x00 0x00,
     selector ''FUNC2Push'' 0x27 0x00 0x00 0x00,
     selector ''PWRRelease'' 0x2a 0x00 0x00 0x00,
     selector ''RSTRelease'' 0x2b 0x00 0x00 0x00,
     selector ''FUNCRelease'' 0x2c 0x00 0x00 0x00,
     selector ''FUNC2Release'' 0x2d 0x00 0x00 0x00,
     selector ''UsbBackupPush'' 0x26 0x00 0x00 0x00,
     selector ''GetThemister'' 0x03 0x08 0x00 0x00,
     selector ''PWR_LOST'' 0x40 0x00 0x00 0x01,
     selector ''APR_STAT'' 0x41 0x00 0x00 0x01,
     selector ''WOL_STAT'' 0x42 0x00 0x00 0x01,
     selector ''PWR2'' 0x57 0x00 0x00 0x00]"

subsection \<open>One frame\<close>

definition frame_start :: char where "frame_start = CHR 0xFA"
definition frame_end :: char where "frame_end = CHR 0xFB"
definition max_frame :: nat where "max_frame = 15"

definition valid_lengths :: "nat list" where "valid_lengths = [7, 13, 15]"

text \<open>The three key bytes are an array, so they are zero until a frame is admitted.\<close>

record decoded_frame =
  df_raw_hex :: string
  df_length :: nat
  df_dispatch_key :: string
  df_names :: "string list"
  df_template_fourth :: string
  df_known :: bool
  df_checksum_status :: string

datatype mcu_error = Unsupported_Length nat | Invalid_Boundary | Interrupted_Frame

definition matches_receive_handler :: "mcu_selector \<Rightarrow> string \<Rightarrow> bool" where
  "matches_receive_handler sel frame =
     (let t = sel_template sel; name = sel_name sel in
      if length frame = 13 then False
      else if (length frame = 15) \<noteq> (name = ''MCUVer'') then False
      else if name = ''GetThemister'' then
        t ! 0 = frame ! 1 \<and> t ! 1 = frame ! 2 \<and> (frame ! 3 = CHR 0x01 \<or> frame ! 3 = CHR 0x02)
      else if name = ''PWR_LOST'' \<or> name = ''APR_STAT'' \<or> name = ''WOL_STAT'' then t ! 0 = frame ! 1
      else t ! 0 = frame ! 1 \<and> t ! 1 = frame ! 2 \<and> t ! 2 = frame ! 3)"

definition decode_receive :: "string \<Rightarrow> decoded_frame \<times> mcu_error option" where
  "decode_receive frame =
     (let decoded = \<lparr>df_raw_hex = [], df_length = length frame, df_dispatch_key = replicate 3 (CHR 0x00), df_names = [],
            df_template_fourth = [], df_known = False, df_checksum_status = ''unknown-not-validated''\<rparr> in
      if length frame \<notin> set valid_lengths then (decoded, Some (Unsupported_Length (length frame)))
      else
        (let raw = decoded\<lparr>df_raw_hex := hex_encode frame\<rparr> in
         if frame ! 0 \<noteq> frame_start \<or> frame ! (length frame - 1) \<noteq> frame_end then (raw, Some Invalid_Boundary)
         else if frame_start \<in> set (take (length frame - 2) (drop 1 frame)) then (raw, Some Interrupted_Frame)
         else
           (let hits = filter (\<lambda>sel. matches_receive_handler sel frame) receive_selectors in
            (raw\<lparr>df_dispatch_key := take 3 (drop 1 frame), df_names := map sel_name hits,
                 df_template_fourth := map (\<lambda>sel. sel_template sel ! 3) hits, df_known := hits \<noteq> []\<rparr>, None))))"

subsection \<open>The stream decoder\<close>

record stream_stats =
  ss_bytes :: u64
  ss_noise_bytes :: u64
  ss_frames :: u64
  ss_malformed :: u64
  ss_truncated :: u64
  ss_known :: u64
  ss_unknown :: u64

record stream_decoder =
  sd_buffer :: string
  sd_stats :: stream_stats

text \<open>One turn of the loop in \<open>Push\<close>, with the frames it appends.\<close>

definition push_byte :: "stream_decoder \<Rightarrow> char \<Rightarrow> decoded_frame list \<times> stream_decoder" where
  "push_byte d v =
     (let st = sd_stats d in
      if v = frame_start then
        ([], d\<lparr>sd_buffer := [v],
           sd_stats := (if sd_buffer d \<noteq> [] then st\<lparr>ss_malformed := ss_malformed st + 1\<rparr> else st)\<rparr>)
      else if sd_buffer d = [] then ([], d\<lparr>sd_stats := st\<lparr>ss_noise_bytes := ss_noise_bytes st + 1\<rparr>\<rparr>)
      else
        (let buffer = sd_buffer d @ [v]; n = length buffer in
         if n \<in> set valid_lengths \<and> v = frame_end then
           (case decode_receive buffer of
              (frame, None) \<Rightarrow>
                ([frame], d\<lparr>sd_buffer := [],
                   sd_stats := (let st1 = st\<lparr>ss_frames := ss_frames st + 1\<rparr> in
                     if df_known frame then st1\<lparr>ss_known := ss_known st1 + 1\<rparr>
                     else st1\<lparr>ss_unknown := ss_unknown st1 + 1\<rparr>)\<rparr>)
            | (frame, Some e) \<Rightarrow> ([], d\<lparr>sd_buffer := []\<rparr>))
         else if n \<ge> max_frame then
           ([], d\<lparr>sd_buffer := [], sd_stats := st\<lparr>ss_malformed := ss_malformed st + 1\<rparr>\<rparr>)
         else ([], d\<lparr>sd_buffer := buffer\<rparr>)))"

fun push_bytes :: "stream_decoder \<Rightarrow> string \<Rightarrow> decoded_frame list \<times> stream_decoder" where
  "push_bytes d [] = ([], d)"
| "push_bytes d (v # vs) =
     (case push_byte d v of (fs, d1) \<Rightarrow> (case push_bytes d1 vs of (gs, d2) \<Rightarrow> (fs @ gs, d2)))"

definition push :: "stream_decoder \<Rightarrow> string \<Rightarrow> decoded_frame list \<times> stream_decoder" where
  "push d data =
     push_bytes (d\<lparr>sd_stats := (sd_stats d)\<lparr>ss_bytes := ss_bytes (sd_stats d) + of_nat (length data)\<rparr>\<rparr>) data"

definition finalize :: "stream_decoder \<Rightarrow> stream_decoder" where
  "finalize d =
     (if sd_buffer d \<noteq> [] then
        d\<lparr>sd_buffer := [], sd_stats := (sd_stats d)\<lparr>ss_truncated := ss_truncated (sd_stats d) + 1\<rparr>\<rparr>
      else d)"

text \<open>The zero value of a decoder, and a capture pushed in chunks.\<close>

definition new_decoder :: stream_decoder where
  "new_decoder = \<lparr>sd_buffer = [], sd_stats = \<lparr>ss_bytes = 0, ss_noise_bytes = 0, ss_frames = 0, ss_malformed = 0,
     ss_truncated = 0, ss_known = 0, ss_unknown = 0\<rparr>\<rparr>"

fun push_chunks :: "stream_decoder \<Rightarrow> string list \<Rightarrow> decoded_frame list \<times> stream_decoder" where
  "push_chunks d [] = ([], d)"
| "push_chunks d (c # cs) =
     (case push d c of (fs, d1) \<Rightarrow> (case push_chunks d1 cs of (gs, d2) \<Rightarrow> (fs @ gs, d2)))"

subsection \<open>Replay\<close>

record mcu_state =
  ms_applied_frames :: u64
  ms_event_counts :: "string \<rightharpoonup> u64"
  ms_buttons :: "string \<rightharpoonup> bool"
  ms_last_known :: string
  ms_unknown_frames :: u64

definition new_state :: mcu_state where
  "new_state = \<lparr>ms_applied_frames = 0, ms_event_counts = Map.empty,
     ms_buttons = [''power'' \<mapsto> False, ''reset'' \<mapsto> False, ''function'' \<mapsto> False, ''function2'' \<mapsto> False],
     ms_last_known = [], ms_unknown_frames = 0\<rparr>"

definition button_event :: "string \<Rightarrow> (string \<times> bool) option" where
  "button_event name =
     (if name = ''PWRPush'' then Some (''power'', True) else if name = ''PWRRelease'' then Some (''power'', False)
      else if name = ''RSTPush'' then Some (''reset'', True) else if name = ''RSTRelease'' then Some (''reset'', False)
      else if name = ''FUNCPush'' then Some (''function'', True) else if name = ''FUNCRelease'' then Some (''function'', False)
      else if name = ''FUNC2Push'' then Some (''function2'', True) else if name = ''FUNC2Release'' then Some (''function2'', False)
      else None)"

definition apply_name :: "mcu_state \<Rightarrow> string \<Rightarrow> mcu_state" where
  "apply_name s name =
     (let s1 = s\<lparr>ms_event_counts := (ms_event_counts s)(name \<mapsto>
             (case ms_event_counts s name of None \<Rightarrow> 0 | Some n \<Rightarrow> n) + 1),
           ms_last_known := name\<rparr> in
      case button_event name of None \<Rightarrow> s1 | Some (b, down) \<Rightarrow> s1\<lparr>ms_buttons := (ms_buttons s1)(b \<mapsto> down)\<rparr>)"

definition state_apply :: "mcu_state \<Rightarrow> decoded_frame \<Rightarrow> mcu_state" where
  "state_apply s frame =
     (let s1 = s\<lparr>ms_applied_frames := ms_applied_frames s + 1\<rparr> in
      if \<not> df_known frame then s1\<lparr>ms_unknown_frames := ms_unknown_frames s1 + 1\<rparr>
      else foldl apply_name s1 (df_names frame))"

subsection \<open>Where frames stand in a capture\<close>

text \<open>
  The length of the frame a byte sequence starts with: it starts with the start marker, has the
  end marker at the first of the three lengths where it can end, and no second start marker in
  between.
\<close>

definition frame_len :: "string \<Rightarrow> nat option" where
  "frame_len xs =
     (if xs \<noteq> [] \<and> hd xs = frame_start
      then find (\<lambda>n. n \<le> length xs \<and> xs ! (n - 1) = frame_end \<and> frame_start \<notin> set (tl (take n xs))) valid_lengths
      else None)"

fun capture_frames :: "string \<Rightarrow> string list" where
  "capture_frames [] = []"
| "capture_frames (v # vs) =
     (case frame_len (v # vs) of None \<Rightarrow> capture_frames vs | Some n \<Rightarrow> take n (v # vs) # capture_frames vs)"

text \<open>A buffer the decoder may hold: nothing, or a frame that has not ended yet.\<close>

definition open_frame :: "string \<Rightarrow> bool" where
  "open_frame b \<longleftrightarrow> b = [] \<or> hd b = frame_start \<and> frame_start \<notin> set (tl b) \<and> length b < max_frame \<and>
     list_all (\<lambda>n. n \<le> length b \<longrightarrow> b ! (n - 1) \<noteq> frame_end) valid_lengths"

lemma open_frame_start [simp]: "open_frame []" "open_frame [frame_start]"
  by (simp_all add: open_frame_def valid_lengths_def max_frame_def)

lemma capture_skip: "frame_start \<notin> set p \<Longrightarrow> capture_frames (p @ xs) = capture_frames xs"
  by (induction p) (auto simp: frame_len_def)

lemma frame_len_open:
  assumes "open_frame b" "b \<noteq> []" "vs = [] \<or> hd vs = frame_start"
  shows "frame_len (b @ vs) = None"
proof -
  have "\<not> (n \<le> length (b @ vs) \<and> (b @ vs) ! (n - 1) = frame_end \<and> frame_start \<notin> set (tl (take n (b @ vs))))"
    if n: "n \<in> set valid_lengths" for n
  proof (cases "n \<le> length b")
    case True
    then have "b ! (n - 1) \<noteq> frame_end" using assms(1,2) n by (auto simp: open_frame_def list_all_iff)
    moreover have "n - 1 < length b" using True assms(2) by (cases n) auto
    ultimately show ?thesis by (simp add: nth_append)
  next
    case False
    then show ?thesis using assms(2,3) by (cases vs; cases b) (auto simp: take_Cons')
  qed
  then show ?thesis by (auto simp: frame_len_def find_None_iff)
qed

lemma capture_open:
  assumes "open_frame b" "b \<noteq> []" "vs = [] \<or> hd vs = frame_start"
  shows "capture_frames (b @ vs) = capture_frames vs"
proof -
  obtain x b' where b: "b = x # b'" using assms(2) by (cases b) auto
  then show ?thesis using frame_len_open [OF assms] capture_skip [of b' vs] assms(1) by (simp add: open_frame_def)
qed

lemma decode_receive_accepts:
  assumes "length f \<in> set valid_lengths" "hd f = frame_start" "last f = frame_end" "frame_start \<notin> set (tl f)"
  shows "snd (decode_receive f) = None"
proof -
  have ne: "f \<noteq> []" using assms(1) by (auto simp: valid_lengths_def)
  have "set (take (length f - 2) (drop 1 f)) \<subseteq> set (tl f)" by (metis drop_Suc drop0 One_nat_def set_take_subset)
  then show ?thesis using assms ne by (auto simp: decode_receive_def Let_def hd_conv_nth last_conv_nth)
qed

text \<open>What the end of a frame, or the fifteenth byte without one, means for the capture.\<close>

lemma frame_len_close:
  assumes b: "open_frame b" "b \<noteq> []" and v: "v \<noteq> frame_start" "length b + 1 \<in> set valid_lengths" "v = frame_end"
  shows "frame_len (b @ v # vs) = Some (length b + 1)"
proof -
  have start: "hd b = frame_start" "frame_start \<notin> set (tl b)"
    and early: "list_all (\<lambda>n. n \<le> length b \<longrightarrow> b ! (n - 1) \<noteq> frame_end) valid_lengths"
    using b by (auto simp: open_frame_def)
  have ok: "frame_start \<notin> set (tl (take (length b + 1) (b @ v # vs)))"
    using start b(2) v(1) by (cases b) auto
  have "length b = 6 \<or> length b = 12 \<or> length b = 14" using v(2) by (auto simp: valid_lengths_def)
  then show ?thesis
    using ok early start b(2) v(3) by (elim disjE) (simp_all add: frame_len_def valid_lengths_def nth_append)
qed

lemma frame_len_overlong:
  assumes b: "open_frame b" "b \<noteq> []" and v: "v \<noteq> frame_end" "length b + 1 \<ge> max_frame"
  shows "frame_len (b @ v # vs) = None"
proof -
  have "length b = 14" and "list_all (\<lambda>n. n \<le> length b \<longrightarrow> b ! (n - 1) \<noteq> frame_end) valid_lengths"
    using b v(2) by (auto simp: open_frame_def max_frame_def)
  then show ?thesis using v(1) by (simp add: frame_len_def valid_lengths_def nth_append)
qed

lemma open_frame_grows:
  assumes b: "open_frame b" "b \<noteq> []" and v: "v \<noteq> frame_start" "length b + 1 < max_frame"
    "\<not> (length b + 1 \<in> set valid_lengths \<and> v = frame_end)"
  shows "open_frame (b @ [v])"
proof -
  have start: "hd b = frame_start" "frame_start \<notin> set (tl b)"
    and early: "list_all (\<lambda>n. n \<le> length b \<longrightarrow> b ! (n - 1) \<noteq> frame_end) valid_lengths"
    using b by (auto simp: open_frame_def)
  have "list_all (\<lambda>n. n \<le> length (b @ [v]) \<longrightarrow> (b @ [v]) ! (n - 1) \<noteq> frame_end) valid_lengths"
    using early v(3) by (auto simp: list_all_iff nth_append le_Suc_eq valid_lengths_def)
  then show ?thesis using start b(2) v(1,2) by (cases b) (auto simp: open_frame_def)
qed

subsection \<open>The decoder against the description\<close>

text \<open>The three ways a byte that is not a start marker can extend an open frame.\<close>

lemma push_byte_cases:
  assumes b: "open_frame (sd_buffer d)" "sd_buffer d \<noteq> []" and v: "v \<noteq> frame_start"
  obtains
    (close) f where "length (sd_buffer d) + 1 \<in> set valid_lengths" "v = frame_end"
      "decode_receive (sd_buffer d @ [v]) = (f, None)"
      "push_byte d v = ([f], d\<lparr>sd_buffer := [], sd_stats := (let st1 = (sd_stats d)\<lparr>ss_frames := ss_frames (sd_stats d) + 1\<rparr> in
         if df_known f then st1\<lparr>ss_known := ss_known st1 + 1\<rparr> else st1\<lparr>ss_unknown := ss_unknown st1 + 1\<rparr>)\<rparr>)"
  | (overlong) "v \<noteq> frame_end" "length (sd_buffer d) + 1 \<ge> max_frame"
      "push_byte d v = ([], d\<lparr>sd_buffer := [], sd_stats := (sd_stats d)\<lparr>ss_malformed := ss_malformed (sd_stats d) + 1\<rparr>\<rparr>)"
  | (grow) "open_frame (sd_buffer d @ [v])" "push_byte d v = ([], d\<lparr>sd_buffer := sd_buffer d @ [v]\<rparr>)"
proof (cases "length (sd_buffer d) + 1 \<in> set valid_lengths \<and> v = frame_end")
  case True
  let ?f = "sd_buffer d @ [v]"
  have "hd ?f = frame_start" "last ?f = frame_end" "frame_start \<notin> set (tl ?f)"
    using b v True by (cases "sd_buffer d"; auto simp: open_frame_def)+
  then have "snd (decode_receive ?f) = None" using True by (intro decode_receive_accepts) simp_all
  then obtain f where f: "decode_receive ?f = (f, None)" by (cases "decode_receive ?f") simp
  then show ?thesis using close [of f] True b(2) v by (simp add: push_byte_def Let_def)
next
  case False
  show ?thesis
  proof (cases "length (sd_buffer d) + 1 \<ge> max_frame")
    case True
    moreover have "v \<noteq> frame_end"
      using False True b by (auto simp: open_frame_def max_frame_def valid_lengths_def)
    ultimately show ?thesis using overlong False b(2) v by (simp add: push_byte_def Let_def)
  next
    case small: False
    then show ?thesis using grow open_frame_grows [OF b v _ False] False b(2) v by (auto simp: push_byte_def Let_def)
  qed
qed

lemma push_bytes_frames:
  "open_frame (sd_buffer d) \<Longrightarrow>
     fst (push_bytes d vs) = map (fst \<circ> decode_receive) (capture_frames (sd_buffer d @ vs)) \<and>
     open_frame (sd_buffer (snd (push_bytes d vs)))"
proof (induction vs arbitrary: d)
  case Nil
  then show ?case using capture_open [of "sd_buffer d" "[]"] by (cases "sd_buffer d = []") simp_all
next
  case (Cons v vs)
  obtain fs d1 where 1: "push_byte d v = (fs, d1)" by (rule prod.exhaust)
  obtain gs d2 where 2: "push_bytes d1 vs = (gs, d2)" by (rule prod.exhaust)
  have step: "?case" if "open_frame (sd_buffer d1)"
    "map (fst \<circ> decode_receive) (capture_frames (sd_buffer d @ v # vs)) =
      fs @ map (fst \<circ> decode_receive) (capture_frames (sd_buffer d1 @ vs))"
    using Cons.IH [OF that(1)] unfolding push_bytes.simps 1 2 prod.case fst_conv snd_conv that(2) by simp
  consider (start) "v = frame_start" | (noise) "v \<noteq> frame_start" "sd_buffer d = []" | (inside) "v \<noteq> frame_start" "sd_buffer d \<noteq> []"
    by blast
  then show ?case
  proof cases
    case start
    then have "fs = []" "sd_buffer d1 = [frame_start]" using 1 by (auto simp: push_byte_def Let_def)
    then show ?thesis
      using capture_open [OF Cons.prems, of "v # vs"] start by (intro step) (cases "sd_buffer d = []", simp_all)+
  next
    case noise
    then have "fs = []" "sd_buffer d1 = []" using 1 by (auto simp: push_byte_def Let_def)
    then show ?thesis using capture_skip [of "[v]" vs] noise by (intro step) simp_all
  next
    case inside
    obtain x b where b: "sd_buffer d = x # b" "frame_start \<notin> set (b @ [v])"
      using Cons.prems inside by (cases "sd_buffer d") (auto simp: open_frame_def)
    note skip = capture_skip [OF b(2), of vs]
    from Cons.prems inside(2,1) show ?thesis
    proof (cases rule: push_byte_cases)
      case (close f)
      have out: "fs = [f]" "sd_buffer d1 = []" using 1 close(4) by auto
      show ?thesis
        by (rule step) (use out skip b(1) close(3) frame_len_close [OF Cons.prems inside(2,1) close(1,2), of vs] in simp_all)
    next
      case overlong
      have out: "fs = []" "sd_buffer d1 = []" using 1 overlong(3) by auto
      show ?thesis
        by (rule step) (use out skip b(1) frame_len_overlong [OF Cons.prems inside(2) overlong(1,2), of vs] in simp_all)
    next
      case grow
      have out: "fs = []" "sd_buffer d1 = sd_buffer d @ [v]" using 1 grow(2) by auto
      show ?thesis by (rule step) (use out grow(1) in simp_all)
    qed
  qed
qed

lemma push_bytes_append:
  "push_bytes d (xs @ ys) = (case push_bytes d xs of (fs, d1) \<Rightarrow> (case push_bytes d1 ys of (gs, d2) \<Rightarrow> (fs @ gs, d2)))"
  by (induction xs arbitrary: d) (auto split: prod.splits)

text \<open>Pushing chunks is pushing their bytes, up to the byte counter.\<close>

abbreviation more_bytes :: "u64 \<Rightarrow> stream_decoder \<Rightarrow> stream_decoder" where
  "more_bytes n d \<equiv> d\<lparr>sd_stats := (sd_stats d)\<lparr>ss_bytes := ss_bytes (sd_stats d) + n\<rparr>\<rparr>"

lemma push_byte_bytes: "push_byte (more_bytes n d) v = (case push_byte d v of (fs, d1) \<Rightarrow> (fs, more_bytes n d1))"
  by (simp add: push_byte_def Let_def split: prod.splits option.splits)

lemma push_bytes_bytes: "push_bytes (more_bytes n d) vs = (case push_bytes d vs of (fs, d1) \<Rightarrow> (fs, more_bytes n d1))"
  by (induction vs arbitrary: d) (auto simp: push_byte_bytes split: prod.splits)

lemma push_chunks_bytes:
  "push_chunks d cs = (case push_bytes d (concat cs) of (fs, d1) \<Rightarrow> (fs, more_bytes (of_nat (length (concat cs))) d1))"
proof (induction cs arbitrary: d)
  case (Cons c cs)
  show ?case
    by (simp add: push_def push_bytes_append push_bytes_bytes Cons.IH add.assoc add.commute add.left_commute split: prod.splits)
qed simp

subsection \<open>Accounting\<close>

lemma new_decoder_simps [simp]:
  "sd_buffer new_decoder = []" "ss_frames (sd_stats new_decoder) = 0" "ss_malformed (sd_stats new_decoder) = 0"
  "ss_truncated (sd_stats new_decoder) = 0" "ss_known (sd_stats new_decoder) = 0" "ss_unknown (sd_stats new_decoder) = 0"
  "ss_bytes (sd_stats new_decoder) = 0"
  by (simp_all add: new_decoder_def)

definition opened :: "stream_decoder \<Rightarrow> u64" where
  "opened d = (if sd_buffer d = [] then 0 else 1)"

definition accounted :: "stream_decoder \<Rightarrow> u64" where
  "accounted d = ss_frames (sd_stats d) + ss_malformed (sd_stats d) + opened d"

definition balanced :: "stream_decoder \<Rightarrow> bool" where
  "balanced d \<longleftrightarrow> open_frame (sd_buffer d) \<and> ss_known (sd_stats d) + ss_unknown (sd_stats d) = ss_frames (sd_stats d)"

lemma push_byte_accounted:
  assumes "balanced d" "push_byte d v = (fs, d')"
  shows "balanced d' \<and> accounted d' = accounted d + (if v = frame_start then 1 else 0) \<and>
    ss_frames (sd_stats d') = ss_frames (sd_stats d) + of_nat (length fs) \<and>
    ss_truncated (sd_stats d') = ss_truncated (sd_stats d) \<and> ss_bytes (sd_stats d') = ss_bytes (sd_stats d)"
proof -
  have o: "open_frame (sd_buffer d)" using assms(1) by (simp add: balanced_def)
  consider (start) "v = frame_start" | (noise) "v \<noteq> frame_start" "sd_buffer d = []" | (inside) "v \<noteq> frame_start" "sd_buffer d \<noteq> []"
    by blast
  then show ?thesis
  proof cases
    case inside
    from o inside(2,1) show ?thesis
    proof (cases rule: push_byte_cases)
      case (close f)
      then show ?thesis using assms inside by (auto simp: balanced_def accounted_def opened_def Let_def algebra_simps)
    qed (use assms inside in \<open>auto simp: balanced_def accounted_def opened_def algebra_simps\<close>)
  qed (use assms in \<open>auto simp: push_byte_def balanced_def accounted_def opened_def Let_def algebra_simps\<close>)
qed

lemma push_bytes_accounted:
  "balanced d \<Longrightarrow> push_bytes d vs = (fs, d') \<Longrightarrow>
     balanced d' \<and> accounted d' = accounted d + of_nat (count_list vs frame_start) \<and>
     ss_frames (sd_stats d') = ss_frames (sd_stats d) + of_nat (length fs) \<and>
     ss_truncated (sd_stats d') = ss_truncated (sd_stats d) \<and> ss_bytes (sd_stats d') = ss_bytes (sd_stats d)"
proof (induction vs arbitrary: d fs d')
  case (Cons v vs)
  obtain f1 d1 where 1: "push_byte d v = (f1, d1)" by (rule prod.exhaust)
  obtain f2 d2 where 2: "push_bytes d1 vs = (f2, d2)" by (rule prod.exhaust)
  have out: "fs = f1 @ f2" "d' = d2" using Cons.prems(2) by (simp_all add: 1 2)
  note a = push_byte_accounted [OF Cons.prems(1) 1]
  note b = Cons.IH [OF conjunct1 [OF a] 2]
  show ?case unfolding out using a b by (simp add: algebra_simps)
qed simp

subsection \<open>A frame has one name\<close>

text \<open>Two selectors that could match one frame, by their names and templates alone.\<close>

definition compatible :: "mcu_selector \<Rightarrow> mcu_selector \<Rightarrow> bool" where
  "compatible s t \<longleftrightarrow> (sel_name s = ''MCUVer'') = (sel_name t = ''MCUVer'') \<and>
     sel_template s ! 0 = sel_template t ! 0 \<and>
     (sel_name s \<in> {''PWR_LOST'', ''APR_STAT'', ''WOL_STAT''} \<or> sel_name t \<in> {''PWR_LOST'', ''APR_STAT'', ''WOL_STAT''} \<or>
      sel_template s ! 1 = sel_template t ! 1 \<and>
      (sel_name s = ''GetThemister'' \<or> sel_name t = ''GetThemister'' \<or> sel_template s ! 2 = sel_template t ! 2))"

lemma matches_compatible:
  "matches_receive_handler s f \<Longrightarrow> matches_receive_handler t f \<Longrightarrow> compatible s t"
  by (auto simp: matches_receive_handler_def compatible_def Let_def split: if_splits)

lemma selectors_incompatible:
  "sorted_wrt (\<lambda>s t. \<not> compatible s t) receive_selectors"
  by code_simp

lemma at_most_one: "sorted_wrt (\<lambda>s t. \<not> R s t) xs \<Longrightarrow> (\<And>s t. P s \<Longrightarrow> P t \<Longrightarrow> R s t) \<Longrightarrow> length (filter P xs) \<le> 1"
proof (induction xs)
  case (Cons x xs)
  have "filter P xs = []" if "P x" using Cons.prems that by (auto simp: filter_empty_conv)
  then show ?case using Cons by auto
qed simp

lemma decode_one_name: "length (df_names (fst (decode_receive f))) \<le> 1"
proof -
  have "length (filter (\<lambda>s. matches_receive_handler s f) receive_selectors) \<le> 1"
    by (rule at_most_one [OF selectors_incompatible matches_compatible])
  then show ?thesis by (simp add: decode_receive_def Let_def)
qed

subsection \<open>Properties\<close>

text \<open>
  C32: the stream decoder refines the description of frames. Cut a capture into chunks in any way
  and push them into a new decoder: it returns, in order, the decoding of exactly those byte
  sequences of the capture that stand at a start marker, end with the end marker at length 7,
  else 13, else 15, and contain no other start marker; each with at most one handler name.
\<close>

theorem mcu_stream_frames:
  "fst (push_chunks new_decoder cs) = map (fst \<circ> decode_receive) (capture_frames (concat cs)) \<and>
   list_all (\<lambda>f. length (df_names f) \<le> 1) (fst (push_chunks new_decoder cs))"
proof -
  have "fst (push_chunks new_decoder cs) = map (fst \<circ> decode_receive) (capture_frames (concat cs))"
    using push_bytes_frames [of new_decoder "concat cs"]
    by (simp add: push_chunks_bytes case_prod_beta)
  then show ?thesis using decode_one_name by (simp add: list_all_iff)
qed

text \<open>
  C33: every start marker is accounted for. Whatever bytes are pushed in whatever chunks, after
  \<open>Finalize\<close> the number of start markers in the capture is the number of frames plus the
  malformed plus the truncated ones, every frame returned was counted once as known or unknown,
  and the byte counter is the length of the capture (all modulo the 64-bit counters).
\<close>

theorem mcu_accounting:
  "case push_chunks new_decoder cs of (fs, d) \<Rightarrow> (let st = sd_stats (finalize d) in
     of_nat (count_list (concat cs) frame_start) = ss_frames st + ss_malformed st + ss_truncated st \<and>
     ss_frames st = of_nat (length fs) \<and> ss_known st + ss_unknown st = ss_frames st \<and>
     ss_bytes st = of_nat (length (concat cs)) \<and> sd_buffer (finalize d) = [])"
proof -
  obtain fs d where run: "push_bytes new_decoder (concat cs) = (fs, d)" by (rule prod.exhaust)
  have "balanced new_decoder" by (simp add: balanced_def)
  from push_bytes_accounted [OF this run] show ?thesis
    by (auto simp: push_chunks_bytes run Let_def finalize_def balanced_def accounted_def opened_def add.commute)
qed

end
