(* ===== verification/Share_Config.thy ===== *)
theory Share_Config
  imports Go_Base
begin

section \<open>Desired share configuration\<close>

text \<open>
  The model of \<open>shareconfig/config.go\<close>: the desired SMB volumes, users and shares with
  their grants, and \<open>Config.Validate\<close> with the syntax checks it calls. Validation walks
  each collection once with maps of the keys already seen; \<open>share_config_wf\<close> states what
  an accepted document promises without loops or maps, and \<open>share_validate_ok_iff\<close> shows
  that the two agree.
\<close>

subsection \<open>Data\<close>

record volume =
  vol_id :: string
  vol_filesystem_uuid :: string

record user =
  user_id :: string
  user_name :: string

record grant =
  grant_user_id :: string
  grant_access :: string

record share =
  share_id :: string
  share_label :: string
  share_volume_id :: string
  share_relative_path :: string
  share_grants :: "grant list"

record share_config =
  sc_format :: string
  sc_schema_version :: int
  sc_revision :: u64
  sc_volumes :: "volume list option"
  sc_users :: "user list option"
  sc_shares :: "share list option"

datatype share_error =
    UnsupportedShareConfig
  | BadCollections
  | BadVolume nat
  | BadUser nat
  | BadShare nat
  | BadGrant nat nat

definition share_format :: string where
  "share_format = ''phantowd-share-config''"

definition max_volumes :: nat where "max_volumes = 16"
definition max_users :: nat where "max_users = 128"
definition max_shares :: nat where "max_shares = 128"

definition volume_mount_root :: string where
  "volume_mount_root = ''/srv/phantowd/volumes''"

subsection \<open>Syntax checks\<close>

definition first_lower :: "string \<Rightarrow> bool" where
  "first_lower s \<longleftrightarrow> s \<noteq> [] \<and> lower_rune (of_char (hd s))"

definition identifier_ok :: "string \<Rightarrow> bool" where
  "identifier_ok s \<longleftrightarrow>
     first_lower s \<and> length s \<le> 64 \<and>
     list_all (\<lambda>ch. lower_rune ch \<or> digit_rune ch \<or> ch = 45) (runes s)"

definition accountName :: "string \<Rightarrow> bool" where
  "accountName s \<longleftrightarrow>
     first_lower s \<and> length s \<le> 32 \<and>
     list_all (\<lambda>ch. lower_rune ch \<or> digit_rune ch \<or> ch = 45 \<or> ch = 95) (runes s) \<and>
     s \<noteq> ''root'' \<and> s \<noteq> ''nobody'' \<and> s \<noteq> ''phantowd''"

text \<open>
  The \<open>switch\<close> of \<open>shareName\<close> lowers the name before the loop has excluded runes outside
  ASCII; a name with such a rune is refused by the loop whatever the switch decides.
\<close>

definition reserved_share_names :: "string list" where
  "reserved_share_names =
     [''.'', ''..'', ''global'', ''homes'', ''printers'', ''print$'', ''ipc$'', ''admin$'']"

text \<open>The runes of the string \<^verbatim>\<open>[]/\:;="<>|?*\<close>.\<close>

definition forbidden_share_runes :: "nat list" where
  "forbidden_share_runes = [91, 93, 47, 92, 58, 59, 61, 34, 60, 62, 124, 63, 42]"

definition shareName :: "string \<Rightarrow> bool" where
  "shareName s \<longleftrightarrow>
     s \<noteq> [] \<and> length s \<le> 80 \<and> trimmed s \<and> \<not> has_suffix s ''.'' \<and>
     to_lower s \<notin> set reserved_share_names \<and>
     list_all (\<lambda>ch. 32 \<le> ch \<and> ch \<le> 126 \<and> ch \<notin> set forbidden_share_runes) (runes s)"

definition relativePath :: "string \<Rightarrow> bool" where
  "relativePath s \<longleftrightarrow>
     s \<noteq> [] \<and> length s \<le> 1024 \<and> valid_string s \<and> valid_path s \<and>
     CHR 0x5C \<notin> set s \<and> CHR '':'' \<notin> set s \<and>
     list_all (\<lambda>ch. 32 \<le> ch \<and> ch \<noteq> 127) (runes s)"

text \<open>
  \<open>filesystemUUID\<close> indexes by byte offset; up to the first rune outside ASCII, which is
  refused, the offset is the number of runes before it.
\<close>

fun uuid_loop :: "nat \<Rightarrow> bool \<Rightarrow> nat list \<Rightarrow> bool" where
  "uuid_loop i nonzero [] = nonzero"
| "uuid_loop i nonzero (ch # rs) =
     (if i = 8 \<or> i = 13 \<or> i = 18 \<or> i = 23
      then ch = 45 \<and> uuid_loop (Suc i) nonzero rs
      else (digit_rune ch \<or> 97 \<le> ch \<and> ch \<le> 102) \<and> uuid_loop (Suc i) (nonzero \<or> ch \<noteq> 48) rs)"

definition filesystemUUID :: "string \<Rightarrow> bool" where
  "filesystemUUID s \<longleftrightarrow> length s = 36 \<and> uuid_loop 0 False (runes s)"

subsection \<open>Config.Validate\<close>

text \<open>The three loops. The maps \<open>volumes\<close>, \<open>uuids\<close>, \<open>users\<close>, \<dots> are lists of the keys set.\<close>

fun check_volumes :: "nat \<Rightarrow> string list \<Rightarrow> string list \<Rightarrow> volume list \<Rightarrow> share_error + string list" where
  "check_volumes i ids uuids [] = Inr ids"
| "check_volumes i ids uuids (v # vs) =
     (if \<not> identifier_ok (vol_id v) \<or> vol_id v \<in> set ids \<or>
         \<not> filesystemUUID (vol_filesystem_uuid v) \<or> vol_filesystem_uuid v \<in> set uuids
      then Inl (BadVolume i)
      else check_volumes (Suc i) (vol_id v # ids) (vol_filesystem_uuid v # uuids) vs)"

fun check_users :: "nat \<Rightarrow> string list \<Rightarrow> string list \<Rightarrow> user list \<Rightarrow> share_error + string list" where
  "check_users i ids names [] = Inr ids"
| "check_users i ids names (u # us) =
     (if \<not> identifier_ok (user_id u) \<or> user_id u \<in> set ids \<or>
         \<not> accountName (user_name u) \<or> user_name u \<in> set names
      then Inl (BadUser i)
      else check_users (Suc i) (user_id u # ids) (user_name u # names) us)"

fun check_grants :: "nat \<Rightarrow> nat \<Rightarrow> string list \<Rightarrow> string list \<Rightarrow> grant list \<Rightarrow> share_error + unit" where
  "check_grants i j users grantees [] = Inr ()"
| "check_grants i j users grantees (g # gs) =
     (if grant_user_id g \<notin> set users \<or> grant_user_id g \<in> set grantees \<or>
         (grant_access g \<noteq> ''ro'' \<and> grant_access g \<noteq> ''rw'')
      then Inl (BadGrant i j)
      else check_grants i (Suc j) users (grant_user_id g # grantees) gs)"

fun check_shares ::
  "nat \<Rightarrow> string list \<Rightarrow> string list \<Rightarrow> string list \<Rightarrow> string list \<Rightarrow> share list \<Rightarrow> share_error + unit"
where
  "check_shares i volumes users ids names [] = Inr ()"
| "check_shares i volumes users ids names (s # ss) =
     (if \<not> identifier_ok (share_id s) \<or> share_id s \<in> set ids \<or> \<not> shareName (share_label s) \<or>
         to_lower (share_label s) \<in> set names \<or> share_volume_id s \<notin> set volumes \<or>
         \<not> relativePath (share_relative_path s) \<or> length (share_grants s) = 0 \<or>
         max_users < length (share_grants s)
      then Inl (BadShare i)
      else case check_grants i 0 users [] (share_grants s) of
        Inl e \<Rightarrow> Inl e
      | Inr _ \<Rightarrow> check_shares (Suc i) volumes users (share_id s # ids)
                   (to_lower (share_label s) # names) ss)"

definition share_validate :: "share_config \<Rightarrow> share_error + unit" where
  "share_validate c =
     (if sc_format c \<noteq> share_format \<or> sc_schema_version c \<noteq> 1 \<or> sc_revision c = 0
      then Inl UnsupportedShareConfig
      else case (sc_volumes c, sc_users c, sc_shares c) of
        (Some vs, Some us, Some ss) \<Rightarrow>
          if max_volumes < length vs \<or> max_users < length us \<or> max_shares < length ss
          then Inl BadCollections
          else (case check_volumes 0 [] [] vs of
            Inl e \<Rightarrow> Inl e
          | Inr volumes \<Rightarrow> (case check_users 0 [] [] us of
              Inl e \<Rightarrow> Inl e
            | Inr users \<Rightarrow> check_shares 0 volumes users [] [] ss))
      | _ \<Rightarrow> Inl BadCollections)"

subsection \<open>What an accepted configuration promises\<close>

definition volume_wf :: "volume \<Rightarrow> bool" where
  "volume_wf v \<longleftrightarrow> identifier_ok (vol_id v) \<and> filesystemUUID (vol_filesystem_uuid v)"

definition user_wf :: "user \<Rightarrow> bool" where
  "user_wf u \<longleftrightarrow> identifier_ok (user_id u) \<and> accountName (user_name u)"

definition grants_wf :: "string set \<Rightarrow> grant list \<Rightarrow> bool" where
  "grants_wf users gs \<longleftrightarrow>
     (\<forall>g \<in> set gs. grant_user_id g \<in> users \<and> grant_access g \<in> {''ro'', ''rw''}) \<and>
     distinct (map grant_user_id gs)"

definition share_wf :: "string set \<Rightarrow> string set \<Rightarrow> share \<Rightarrow> bool" where
  "share_wf volumes users s \<longleftrightarrow>
     identifier_ok (share_id s) \<and> shareName (share_label s) \<and> share_volume_id s \<in> volumes \<and>
     relativePath (share_relative_path s) \<and> share_grants s \<noteq> [] \<and>
     length (share_grants s) \<le> max_users \<and> grants_wf users (share_grants s)"

definition share_config_wf :: "share_config \<Rightarrow> bool" where
  "share_config_wf c \<longleftrightarrow>
     sc_format c = share_format \<and> sc_schema_version c = 1 \<and> sc_revision c \<noteq> 0 \<and>
     (\<exists>vs us ss. sc_volumes c = Some vs \<and> sc_users c = Some us \<and> sc_shares c = Some ss \<and>
        length vs \<le> max_volumes \<and> length us \<le> max_users \<and> length ss \<le> max_shares \<and>
        (\<forall>v \<in> set vs. volume_wf v) \<and> distinct (map vol_id vs) \<and>
        distinct (map vol_filesystem_uuid vs) \<and>
        (\<forall>u \<in> set us. user_wf u) \<and> distinct (map user_id us) \<and> distinct (map user_name us) \<and>
        (\<forall>s \<in> set ss. share_wf (vol_id ` set vs) (user_id ` set us) s) \<and>
        distinct (map share_id ss) \<and> distinct (map (to_lower \<circ> share_label) ss))"

lemma check_volumes_ok_iff:
  "check_volumes i ids uuids vs = Inr r \<longleftrightarrow>
     r = rev (map vol_id vs) @ ids \<and> (\<forall>v \<in> set vs. volume_wf v) \<and>
     distinct (map vol_id vs) \<and> set (map vol_id vs) \<inter> set ids = {} \<and>
     distinct (map vol_filesystem_uuid vs) \<and> set (map vol_filesystem_uuid vs) \<inter> set uuids = {}"
  by (induction i ids uuids vs rule: check_volumes.induct) (auto simp: volume_wf_def)

lemma check_users_ok_iff:
  "check_users i ids names us = Inr r \<longleftrightarrow>
     r = rev (map user_id us) @ ids \<and> (\<forall>u \<in> set us. user_wf u) \<and>
     distinct (map user_id us) \<and> set (map user_id us) \<inter> set ids = {} \<and>
     distinct (map user_name us) \<and> set (map user_name us) \<inter> set names = {}"
  by (induction i ids names us rule: check_users.induct) (auto simp: user_wf_def)

lemma check_grants_ok_iff:
  "check_grants i j users grantees gs = Inr () \<longleftrightarrow>
     grants_wf (set users) gs \<and> set (map grant_user_id gs) \<inter> set grantees = {}"
  by (induction i j users grantees gs rule: check_grants.induct) (auto simp: grants_wf_def)

lemma check_shares_ok_iff:
  "check_shares i volumes users ids names ss = Inr () \<longleftrightarrow>
     (\<forall>s \<in> set ss. share_wf (set volumes) (set users) s) \<and>
     distinct (map share_id ss) \<and> set (map share_id ss) \<inter> set ids = {} \<and>
     distinct (map (to_lower \<circ> share_label) ss) \<and>
     set (map (to_lower \<circ> share_label) ss) \<inter> set names = {}"
proof (induction i volumes users ids names ss rule: check_shares.induct)
  case (1 i volumes users ids names)
  then show ?case by simp
next
  case (2 i volumes users ids names s ss)
  let ?bad = "\<not> identifier_ok (share_id s) \<or> share_id s \<in> set ids \<or> \<not> shareName (share_label s) \<or>
         to_lower (share_label s) \<in> set names \<or> share_volume_id s \<notin> set volumes \<or>
         \<not> relativePath (share_relative_path s) \<or> length (share_grants s) = 0 \<or>
         max_users < length (share_grants s)"
  show ?case
  proof (cases ?bad)
    case True
    then show ?thesis by (auto simp: share_wf_def)
  next
    case False
    then have ok: "share_wf (set volumes) (set users) s \<longleftrightarrow> grants_wf (set users) (share_grants s)"
      by (auto simp: share_wf_def)
    show ?thesis
    proof (cases "check_grants i 0 users [] (share_grants s)")
      case (Inl e)
      then have "\<not> grants_wf (set users) (share_grants s)"
        using check_grants_ok_iff [of i 0 users "[]" "share_grants s"] by auto
      then show ?thesis using False Inl ok by auto
    next
      case (Inr u)
      then have "grants_wf (set users) (share_grants s)"
        using check_grants_ok_iff [of i 0 users "[]" "share_grants s"] by auto
      moreover have "check_shares i volumes users ids names (s # ss) =
          check_shares (Suc i) volumes users (share_id s # ids) (to_lower (share_label s) # names) ss"
        using False Inr by simp
      ultimately show ?thesis using 2 [OF False Inr] False ok by auto
    qed
  qed
qed

lemma share_validate_iff: "share_validate c = Inr () \<longleftrightarrow> share_config_wf c"
proof (cases "sc_format c \<noteq> share_format \<or> sc_schema_version c \<noteq> 1 \<or> sc_revision c = 0")
  case True
  then show ?thesis by (auto simp: share_validate_def share_config_wf_def)
next
  case head: False
  show ?thesis
  proof (cases "sc_volumes c = None \<or> sc_users c = None \<or> sc_shares c = None")
    case True
    then show ?thesis using head
      by (auto simp: share_validate_def share_config_wf_def split: option.splits)
  next
    case False
    then obtain vs us ss where s: "sc_volumes c = Some vs" "sc_users c = Some us" "sc_shares c = Some ss"
      by auto
    show ?thesis
    proof (cases "check_volumes 0 [] [] vs")
      case (Inl e)
      then have "\<not> share_config_wf c"
        using check_volumes_ok_iff [of 0 "[]" "[]" vs "rev (map vol_id vs)"] s
        by (auto simp: share_config_wf_def)
      then show ?thesis using head s Inl by (simp add: share_validate_def)
    next
      case V: (Inr volumes)
      note v = V [unfolded check_volumes_ok_iff]
      show ?thesis
      proof (cases "check_users 0 [] [] us")
        case (Inl e)
        then have "\<not> share_config_wf c"
          using check_users_ok_iff [of 0 "[]" "[]" us "rev (map user_id us)"] s
          by (auto simp: share_config_wf_def)
        then show ?thesis using head s V Inl by (simp add: share_validate_def)
      next
        case U: (Inr users)
        note u = U [unfolded check_users_ok_iff]
        have "share_validate c = Inr () \<longleftrightarrow>
            length vs \<le> max_volumes \<and> length us \<le> max_users \<and> length ss \<le> max_shares \<and>
            check_shares 0 volumes users [] [] ss = Inr ()"
          using head s V U by (auto simp: share_validate_def)
        also have "\<dots> \<longleftrightarrow> share_config_wf c"
          using head s v u by (auto simp: share_config_wf_def check_shares_ok_iff simp del: o_apply)
        finally show ?thesis .
      qed
    qed
  qed
qed

lemma share_ok_iff: "is_ok (share_validate c) \<longleftrightarrow> share_config_wf c"
  by (simp add: is_ok_unit share_validate_iff)

end
