(* ===== verification/Service_Accounts.thy ===== *)
theory Service_Accounts
  imports Share_Config "HOL-Library.List_Lexorder" "HOL-Library.Char_ord"
begin

section \<open>Registry of file-service accounts\<close>

text \<open>
  The model of \<open>serviceaccounts/registry.go\<close>: the registry of native accounts, its
  validation, and the pure planning operations \<open>Create\<close>, \<open>SetState\<close> and \<open>BindShares\<close>.
  Every operation takes the expected revision and returns a new registry or an error.
  The lemmas show what validation promises, that each operation keeps it, and that over
  any sequence of operations an identity once reserved is never changed, reused or
  revived after retirement.
\<close>

subsection \<open>Data\<close>

record account =
  acc_id :: string
  acc_name :: string
  acc_uid :: u32
  acc_gid :: u32
  acc_state :: string

record registry =
  reg_format :: string
  reg_schema_version :: int
  reg_revision :: u64
  reg_first_id :: u32
  reg_last_id :: u32
  reg_accounts :: "account list option"

record reservations =
  res_uids :: "u32 list option"
  res_gids :: "u32 list option"
  res_names :: "string list option"

datatype account_error =
    AccInvalid | AccConflict | AccCollision | AccExhausted | AccTransition | AccUnresolved

definition registry_format :: string where
  "registry_format = ''phantowd-service-accounts''"

definition max_records :: nat where "max_records = 1024"
definition max_live :: nat where "max_live = max_users"

definition st_disabled :: string where "st_disabled = ''disabled''"
definition st_enabled :: string where "st_enabled = ''enabled''"
definition st_retired :: string where "st_retired = ''retired''"

lemmas state_defs = st_disabled_def st_enabled_def st_retired_def

lemma states_distinct [simp]:
  "st_disabled \<noteq> st_enabled" "st_enabled \<noteq> st_disabled" "st_disabled \<noteq> st_retired"
  "st_retired \<noteq> st_disabled" "st_enabled \<noteq> st_retired" "st_retired \<noteq> st_enabled"
  by (simp_all add: state_defs)

subsection \<open>Validation\<close>

definition validIdentity :: "string \<Rightarrow> string \<Rightarrow> bool" where
  "validIdentity ident name \<longleftrightarrow>
     is_ok (share_validate \<lparr>sc_format = share_format, sc_schema_version = 1, sc_revision = 1,
        sc_volumes = Some [], sc_users = Some [\<lparr>user_id = ident, user_name = name\<rparr>],
        sc_shares = Some []\<rparr>)"

fun check_accounts ::
  "u32 \<Rightarrow> u32 \<Rightarrow> string list \<Rightarrow> string list \<Rightarrow> u32 list \<Rightarrow> nat \<Rightarrow> account list \<Rightarrow> account_error + nat"
where
  "check_accounts lo hi ids names numbers live [] = Inr live"
| "check_accounts lo hi ids names numbers live (a # as) =
     (if \<not> validIdentity (acc_id a) (acc_name a) \<or> acc_id a \<in> set ids \<or> acc_name a \<in> set names \<or>
         acc_uid a \<in> set numbers \<or> acc_uid a < lo \<or> acc_uid a > hi \<or> acc_gid a \<noteq> acc_uid a \<or>
         (acc_state a \<noteq> st_disabled \<and> acc_state a \<noteq> st_enabled \<and> acc_state a \<noteq> st_retired)
      then Inl AccInvalid
      else check_accounts lo hi (acc_id a # ids) (acc_name a # names) (acc_uid a # numbers)
             (if acc_state a \<noteq> st_retired then Suc live else live) as)"

definition registry_validate :: "registry \<Rightarrow> account_error + unit" where
  "registry_validate r =
     (if reg_format r \<noteq> registry_format \<or> reg_schema_version r \<noteq> 1 \<or> reg_revision r = 0 \<or>
         reg_first_id r < 1000 \<or> reg_last_id r > 60000 \<or> reg_first_id r > reg_last_id r
      then Inl AccInvalid
      else case reg_accounts r of
        None \<Rightarrow> Inl AccInvalid
      | Some as \<Rightarrow>
          if max_records < length as then Inl AccInvalid
          else (case check_accounts (reg_first_id r) (reg_last_id r) [] [] [] 0 as of
            Inl e \<Rightarrow> Inl e
          | Inr live \<Rightarrow> if max_live < live then Inl AccInvalid else Inr ()))"

text \<open>\<open>New\<close> returns the registry and the verdict on it; callers look at both.\<close>

definition registry_new :: "u32 \<Rightarrow> u32 \<Rightarrow> registry \<times> (account_error + unit)" where
  "registry_new lo hi =
     (let r = \<lparr>reg_format = registry_format, reg_schema_version = 1, reg_revision = 1,
               reg_first_id = lo, reg_last_id = hi, reg_accounts = Some []\<rparr>
      in (r, registry_validate r))"

subsection \<open>Planning operations\<close>

definition registry_next :: "registry \<Rightarrow> u64 \<Rightarrow> account_error + registry" where
  "registry_next r expected =
     (if \<not> is_ok (registry_validate r) then Inl AccInvalid
      else if reg_revision r \<noteq> expected \<or> expected = - 1 then Inl AccConflict
      else Inr (r\<lparr>reg_revision := reg_revision r + 1\<rparr>))"

text \<open>
  \<open>strings.EqualFold\<close> against a name that is ASCII, which \<open>validIdentity\<close> has established:
  besides the case pairs of the letters, only the Kelvin sign folds to \<open>k\<close> and the long s to \<open>s\<close>.
\<close>

definition fold_rune :: "nat \<Rightarrow> nat" where
  "fold_rune r = (if upper_rune r then r + 32 else if r = 8490 then 107 else if r = 383 then 115 else r)"

definition equal_fold :: "string \<Rightarrow> string \<Rightarrow> bool" where
  "equal_fold s t \<longleftrightarrow> map fold_rune (runes s) = map fold_rune (runes t)"

fun check_reserved_names :: "string \<Rightarrow> string list \<Rightarrow> account_error + unit" where
  "check_reserved_names name [] = Inr ()"
| "check_reserved_names name (external # es) =
     (if length external = 0 \<or> length external > 256 \<or> \<not> valid_string external \<or>
         CHR 0x00 \<in> set external \<or> CHR 0x0D \<in> set external \<or> CHR 0x0A \<in> set external
      then Inl AccInvalid
      else if equal_fold external name then Inl AccCollision
      else check_reserved_names name es)"

fun scan_accounts ::
  "string \<Rightarrow> string \<Rightarrow> u32 list \<Rightarrow> nat \<Rightarrow> account list \<Rightarrow> account_error + (u32 list \<times> nat)"
where
  "scan_accounts ident name used live [] = Inr (used, live)"
| "scan_accounts ident name used live (a # as) =
     (if acc_id a = ident \<or> acc_name a = name then Inl AccCollision
      else scan_accounts ident name (acc_uid a # used)
             (if acc_state a \<noteq> st_retired then Suc live else live) as)"

text \<open>
  The candidates of \<open>for candidate := r.FirstID; candidate <= r.LastID; candidate++\<close>. The
  registry has been validated, so \<open>LastID\<close> is at most 60000 and the counter never wraps.
\<close>

definition candidates :: "u32 \<Rightarrow> u32 \<Rightarrow> u32 list" where
  "candidates lo hi = map of_nat [unat lo..<Suc (unat hi)]"

text \<open>The reservation checks of \<open>Create\<close> and the numbers it marks as used for them.\<close>

definition create_reserved :: "string \<Rightarrow> reservations \<Rightarrow> account_error + u32 list" where
  "create_reserved name reserved =
     (case (res_uids reserved, res_gids reserved, res_names reserved) of
        (Some uids, Some gids, Some names) \<Rightarrow>
          if length uids > 65536 \<or> length gids > 65536 \<or> length names > 65536 then Inl AccInvalid
          else (case check_reserved_names name names of
              Inl e \<Rightarrow> Inl e
            | Inr _ \<Rightarrow> Inr (uids @ gids))
      | _ \<Rightarrow> Inl AccInvalid)"

definition new_account :: "string \<Rightarrow> string \<Rightarrow> u32 \<Rightarrow> account" where
  "new_account ident name c =
     \<lparr>acc_id = ident, acc_name = name, acc_uid = c, acc_gid = c, acc_state = st_disabled\<rparr>"

text \<open>A validated registry has an account slice; the empty list stands for the impossible nil.\<close>

definition accounts_of :: "registry \<Rightarrow> account list" where
  "accounts_of r = (case reg_accounts r of None \<Rightarrow> [] | Some as \<Rightarrow> as)"

definition registry_create ::
  "registry \<Rightarrow> u64 \<Rightarrow> string \<Rightarrow> string \<Rightarrow> reservations \<Rightarrow> account_error + registry" where
  "registry_create r expected ident name reserved =
     (case registry_next r expected of
        Inl e \<Rightarrow> Inl e
      | Inr next \<Rightarrow>
        if \<not> validIdentity ident name then Inl AccInvalid
        else case create_reserved name reserved of
          Inl e \<Rightarrow> Inl e
        | Inr numbers \<Rightarrow> (case scan_accounts ident name numbers 0 (accounts_of r) of
            Inl e \<Rightarrow> Inl e
          | Inr (used, live) \<Rightarrow>
              if length (accounts_of r) \<ge> max_records \<or> live \<ge> max_live then Inl AccExhausted
              else (case find (\<lambda>c. c \<notin> set used) (candidates (reg_first_id r) (reg_last_id r)) of
                None \<Rightarrow> Inl AccExhausted
              | Some c \<Rightarrow> Inr (next\<lparr>reg_accounts := Some (accounts_of next @ [new_account ident name c])\<rparr>))))"

text \<open>
  The loop of \<open>Create\<close> as it runs: the counter is a \<open>uint32\<close> and \<open>candidate++\<close> wraps around, so a range
  up to the largest number would never be left. \<open>None\<close> stands for a search that does not return.
\<close>

partial_function (option) candidate_loop :: "u32 \<Rightarrow> u32 list \<Rightarrow> u32 \<Rightarrow> u32 option option" where
  "candidate_loop last_id used candidate =
     (if candidate \<le> last_id then
        (if candidate \<notin> set used then Some (Some candidate) else candidate_loop last_id used (candidate + 1))
      else Some None)"

definition registry_create_run ::
  "registry \<Rightarrow> u64 \<Rightarrow> string \<Rightarrow> string \<Rightarrow> reservations \<Rightarrow> (account_error + registry) option" where
  "registry_create_run r expected ident name reserved =
     (case registry_next r expected of
        Inl e \<Rightarrow> Some (Inl e)
      | Inr next \<Rightarrow>
        if \<not> validIdentity ident name then Some (Inl AccInvalid)
        else case create_reserved name reserved of
          Inl e \<Rightarrow> Some (Inl e)
        | Inr numbers \<Rightarrow> (case scan_accounts ident name numbers 0 (accounts_of r) of
            Inl e \<Rightarrow> Some (Inl e)
          | Inr (used, live) \<Rightarrow>
              if length (accounts_of r) \<ge> max_records \<or> live \<ge> max_live then Some (Inl AccExhausted)
              else (case candidate_loop (reg_last_id r) used (reg_first_id r) of
                None \<Rightarrow> None
              | Some None \<Rightarrow> Some (Inl AccExhausted)
              | Some (Some c) \<Rightarrow>
                  Some (Inr (next\<lparr>reg_accounts := Some (accounts_of next @ [new_account ident name c])\<rparr>)))))"

text \<open>The loop of \<open>SetState\<close>: the first account with the identifier decides.\<close>

fun set_state_loop :: "string \<Rightarrow> string \<Rightarrow> account list \<Rightarrow> account_error + account list" where
  "set_state_loop ident state [] = Inl AccTransition"
| "set_state_loop ident state (a # as) =
     (if acc_id a \<noteq> ident then
        (case set_state_loop ident state as of Inl e \<Rightarrow> Inl e | Inr as' \<Rightarrow> Inr (a # as'))
      else if acc_state a = st_retired \<or> acc_state a = state \<or>
         (state \<noteq> st_enabled \<and> state \<noteq> st_disabled \<and> state \<noteq> st_retired) \<or>
         (state = st_retired \<and> acc_state a \<noteq> st_disabled)
      then Inl AccTransition
      else Inr (a\<lparr>acc_state := state\<rparr> # as))"

definition registry_set_state :: "registry \<Rightarrow> u64 \<Rightarrow> string \<Rightarrow> string \<Rightarrow> account_error + registry" where
  "registry_set_state r expected ident state =
     (case registry_next r expected of
        Inl e \<Rightarrow> Inl e
      | Inr next \<Rightarrow> (case set_state_loop ident state (accounts_of next) of
          Inl e \<Rightarrow> Inl e
        | Inr as' \<Rightarrow> Inr (next\<lparr>reg_accounts := Some as'\<rparr>)))"

record bindings =
  bind_registry_revision :: u64
  bind_share_revision :: u64
  bind_accounts :: "account list"

text \<open>The maps \<open>BindShares\<close> fills in a loop: the last entry for a key wins.\<close>

definition account_map :: "account list \<Rightarrow> string \<rightharpoonup> account" where
  "account_map accounts = map_of (rev (map (\<lambda>a. (acc_id a, a)) accounts))"

definition user_map :: "user list \<Rightarrow> string \<rightharpoonup> string" where
  "user_map users = map_of (rev (map (\<lambda>u. (user_id u, user_name u)) users))"

text \<open>The nested loops of \<open>BindShares\<close>, over the grants of all shares in order.\<close>

fun bind_grants ::
  "(string \<rightharpoonup> account) \<Rightarrow> (string \<rightharpoonup> string) \<Rightarrow> account list \<Rightarrow> grant list \<Rightarrow>
   account_error + account list"
where
  "bind_grants accounts users acc [] = Inr acc"
| "bind_grants accounts users acc (g # gs) =
     (case accounts (grant_user_id g) of
        None \<Rightarrow> Inl AccUnresolved
      | Some a \<Rightarrow>
          if acc_name a \<noteq> (case users (grant_user_id g) of None \<Rightarrow> [] | Some n \<Rightarrow> n) \<or>
             acc_state a \<noteq> st_enabled
          then Inl AccUnresolved
          else bind_grants accounts users
                 (if acc_id a \<in> acc_id ` set acc then acc else acc @ [a]) gs)"

definition bind_shares :: "registry \<Rightarrow> share_config \<Rightarrow> account_error + bindings" where
  "bind_shares r policy =
     (if \<not> is_ok (registry_validate r) \<or> \<not> is_ok (share_validate policy) then Inl AccInvalid
      else case (reg_accounts r, sc_users policy, sc_shares policy) of
        (Some accounts, Some users, Some shares) \<Rightarrow>
          (case bind_grants (account_map accounts) (user_map users) [] (concat (map share_grants shares)) of
             Inl e \<Rightarrow> Inl e
           | Inr as \<Rightarrow> Inr \<lparr>bind_registry_revision = reg_revision r,
                             bind_share_revision = sc_revision policy,
                             bind_accounts = sort_key acc_id as\<rparr>)
      | _ \<Rightarrow> Inl AccInvalid)"

subsection \<open>What an accepted registry promises\<close>

lemma validIdentity_iff: "validIdentity ident name \<longleftrightarrow> identifier_ok ident \<and> accountName name"
  by (auto simp: validIdentity_def is_ok_unit share_validate_iff share_config_wf_def user_wf_def
      max_volumes_def max_users_def max_shares_def)

definition live_count :: "account list \<Rightarrow> nat" where
  "live_count as = length (filter (\<lambda>a. acc_state a \<noteq> st_retired) as)"

lemma live_count_simps [simp]:
  "live_count [] = 0"
  "live_count (a # as) = (if acc_state a \<noteq> st_retired then Suc (live_count as) else live_count as)"
  "live_count (as @ bs) = live_count as + live_count bs"
  by (simp_all add: live_count_def)

definition account_wf :: "u32 \<Rightarrow> u32 \<Rightarrow> account \<Rightarrow> bool" where
  "account_wf lo hi a \<longleftrightarrow>
     identifier_ok (acc_id a) \<and> accountName (acc_name a) \<and> lo \<le> acc_uid a \<and> acc_uid a \<le> hi \<and>
     acc_gid a = acc_uid a \<and> acc_state a \<in> {st_disabled, st_enabled, st_retired}"

definition accounts_wf :: "u32 \<Rightarrow> u32 \<Rightarrow> account list \<Rightarrow> bool" where
  "accounts_wf lo hi as \<longleftrightarrow>
     (\<forall>a \<in> set as. account_wf lo hi a) \<and> distinct (map acc_id as) \<and>
     distinct (map acc_name as) \<and> distinct (map acc_uid as)"

definition registry_wf :: "registry \<Rightarrow> bool" where
  "registry_wf r \<longleftrightarrow>
     reg_format r = registry_format \<and> reg_schema_version r = 1 \<and> reg_revision r \<noteq> 0 \<and>
     1000 \<le> reg_first_id r \<and> reg_first_id r \<le> reg_last_id r \<and> reg_last_id r \<le> 60000 \<and>
     (\<exists>as. reg_accounts r = Some as \<and> length as \<le> max_records \<and>
        accounts_wf (reg_first_id r) (reg_last_id r) as \<and> live_count as \<le> max_live)"

lemma check_accounts_ok_iff:
  "check_accounts lo hi ids names numbers live as = Inr n \<longleftrightarrow>
     accounts_wf lo hi as \<and> set (map acc_id as) \<inter> set ids = {} \<and>
     set (map acc_name as) \<inter> set names = {} \<and> set (map acc_uid as) \<inter> set numbers = {} \<and>
     n = live + live_count as"
  by (induction lo hi ids names numbers live as rule: check_accounts.induct)
    (auto simp: accounts_wf_def account_wf_def validIdentity_iff)

lemma registry_validate_iff: "is_ok (registry_validate r) \<longleftrightarrow> registry_wf r"
proof (cases "reg_accounts r")
  case None
  then show ?thesis by (auto simp: registry_validate_def registry_wf_def)
next
  case (Some as)
  show ?thesis
  proof (cases "check_accounts (reg_first_id r) (reg_last_id r) [] [] [] 0 as")
    case (Inl e)
    then have "\<not> accounts_wf (reg_first_id r) (reg_last_id r) as"
      using check_accounts_ok_iff [of "reg_first_id r" "reg_last_id r" "[]" "[]" "[]" 0 as "live_count as"]
      by auto
    then show ?thesis using Some Inl by (auto simp: registry_validate_def registry_wf_def)
  next
    case (Inr n)
    then show ?thesis using Some Inr [unfolded check_accounts_ok_iff]
      by (auto simp: registry_validate_def registry_wf_def not_less not_le)
  qed
qed

lemma registry_next_ok_iff:
  "registry_next r e = Inr r' \<longleftrightarrow>
     registry_wf r \<and> reg_revision r = e \<and> e \<noteq> - 1 \<and> r' = r\<lparr>reg_revision := e + 1\<rparr>"
  by (auto simp: registry_next_def registry_validate_iff)

lemma u64_succ_nonzero: "(e :: u64) \<noteq> - 1 \<Longrightarrow> e + 1 \<noteq> 0"
  by (metis add_eq_0_iff2)

lemma check_reserved_names_ok_iff:
  "check_reserved_names name es = Inr () \<longleftrightarrow>
     (\<forall>x \<in> set es. x \<noteq> [] \<and> length x \<le> 256 \<and> valid_string x \<and> CHR 0x00 \<notin> set x \<and>
        CHR 0x0D \<notin> set x \<and> CHR 0x0A \<notin> set x \<and> \<not> equal_fold x name)"
  by (induction name es rule: check_reserved_names.induct) auto

lemma scan_accounts_ok_iff:
  "scan_accounts ident name used live as = Inr (used', live') \<longleftrightarrow>
     ident \<notin> acc_id ` set as \<and> name \<notin> acc_name ` set as \<and>
     used' = rev (map acc_uid as) @ used \<and> live' = live + live_count as"
  by (induction ident name used live as rule: scan_accounts.induct) auto

lemma set_candidates: "c \<in> set (candidates lo hi) \<longleftrightarrow> lo \<le> c \<and> c \<le> hi"
proof
  assume "c \<in> set (candidates lo hi)"
  then obtain k where k: "unat lo \<le> k" "k \<le> unat hi" "c = of_nat k"
    by (auto simp: candidates_def)
  then have "unat c = k"
    by (metis le_unat_uoi)
  with k show "lo \<le> c \<and> c \<le> hi" by (simp add: word_le_nat_alt)
next
  assume "lo \<le> c \<and> c \<le> hi"
  then have "unat lo \<le> unat c" "unat c < Suc (unat hi)" by (simp_all add: word_le_nat_alt)
  then have "unat c \<in> set [unat lo..<Suc (unat hi)]" unfolding set_upt atLeastLessThan_iff by blast
  then have "of_nat (unat c) \<in> set (candidates lo hi)" unfolding candidates_def by (simp only: set_map image_eqI)
  then show "c \<in> set (candidates lo hi)" by simp
qed

lemma candidates_nth:
  assumes "j < length (candidates lo hi)"
  shows "unat (candidates lo hi ! j) = unat lo + j"
proof -
  have "unat lo + j \<le> unat hi" using assms by (simp add: candidates_def del: upt_Suc)
  moreover have "candidates lo hi ! j = of_nat (unat lo + j)"
    using assms by (simp add: candidates_def del: upt_Suc of_nat_add)
  ultimately show ?thesis by (simp only: le_unat_uoi)
qed

lemma find_candidate:
  assumes "find (\<lambda>c. c \<notin> used) (candidates lo hi) = Some c"
  shows "lo \<le> c \<and> c \<le> hi \<and> c \<notin> used \<and> (\<forall>d. lo \<le> d \<and> d < c \<longrightarrow> d \<in> used)"
proof -
  obtain i where i: "i < length (candidates lo hi)" "c = candidates lo hi ! i" "c \<notin> used"
    and before: "\<forall>j < i. candidates lo hi ! j \<in> used"
    using assms by (auto simp: find_Some_iff)
  have "lo \<le> c \<and> c \<le> hi" using i nth_mem set_candidates by blast
  moreover have "d \<in> used" if d: "lo \<le> d" "d < c" for d
  proof -
    let ?j = "unat d - unat lo"
    have lt: "?j < i"
      using d i candidates_nth [OF i(1)] by (auto simp: word_less_nat_alt word_le_nat_alt)
    then have "unat (candidates lo hi ! ?j) = unat d"
      using candidates_nth [of ?j lo hi] i d by (simp add: word_le_nat_alt)
    then have "candidates lo hi ! ?j = d" by (rule word_unat_eq_iff [THEN iffD2])
    then show ?thesis using before lt by auto
  qed
  ultimately show ?thesis using i by blast
qed

lemma find_candidate_exists:
  "(\<exists>c. find (\<lambda>c. c \<notin> used) (candidates lo hi) = Some c) \<longleftrightarrow>
   (\<exists>c. lo \<le> c \<and> c \<le> hi \<and> c \<notin> used)"
  using find_None_iff [of "\<lambda>c. c \<notin> used" "candidates lo hi"]
  by (auto simp: set_candidates simp flip: not_None_eq)

subsection \<open>Create\<close>

definition reserved_numbers :: "reservations \<Rightarrow> u32 set" where
  "reserved_numbers res =
     (case res_uids res of None \<Rightarrow> {} | Some us \<Rightarrow> set us) \<union>
     (case res_gids res of None \<Rightarrow> {} | Some gs \<Rightarrow> set gs)"

definition reserved_name_ok :: "string \<Rightarrow> bool" where
  "reserved_name_ok x \<longleftrightarrow> x \<noteq> [] \<and> length x \<le> 256 \<and> valid_string x \<and> CHR 0x00 \<notin> set x \<and>
     CHR 0x0D \<notin> set x \<and> CHR 0x0A \<notin> set x"

definition reservations_ok :: "string \<Rightarrow> reservations \<Rightarrow> bool" where
  "reservations_ok name res \<longleftrightarrow>
     (\<exists>uids gids names. res_uids res = Some uids \<and> res_gids res = Some gids \<and>
        res_names res = Some names \<and> length uids \<le> 65536 \<and> length gids \<le> 65536 \<and>
        length names \<le> 65536 \<and> (\<forall>x \<in> set names. reserved_name_ok x \<and> \<not> equal_fold x name))"

lemma create_reserved_ok:
  "create_reserved name res = Inr ns \<Longrightarrow> reservations_ok name res \<and> set ns = reserved_numbers res"
  by (auto simp: create_reserved_def reservations_ok_def reserved_numbers_def reserved_name_ok_def
      check_reserved_names_ok_iff split: option.splits if_splits sum.splits)

lemma create_reserved_ok_iff:
  "(\<exists>ns. create_reserved name res = Inr ns) \<longleftrightarrow> reservations_ok name res"
proof
  assume "reservations_ok name res"
  then obtain uids gids names where res: "res_uids res = Some uids" "res_gids res = Some gids"
      "res_names res = Some names" "length uids \<le> 65536" "length gids \<le> 65536" "length names \<le> 65536"
      and names: "\<forall>x \<in> set names. reserved_name_ok x \<and> \<not> equal_fold x name"
    by (auto simp: reservations_ok_def)
  have "check_reserved_names name names = Inr ()"
    using names by (auto simp: check_reserved_names_ok_iff reserved_name_ok_def)
  then show "\<exists>ns. create_reserved name res = Inr ns" using res by (simp add: create_reserved_def)
qed (use create_reserved_ok in blast)

definition create_room :: "registry \<Rightarrow> string \<Rightarrow> string \<Rightarrow> bool" where
  "create_room r ident name \<longleftrightarrow>
     ident \<notin> acc_id ` set (accounts_of r) \<and> name \<notin> acc_name ` set (accounts_of r) \<and>
     length (accounts_of r) < max_records \<and> live_count (accounts_of r) < max_live"

lemma registry_create_ok_iff:
  "registry_create r e ident name res = Inr r' \<longleftrightarrow>
     registry_wf r \<and> reg_revision r = e \<and> e \<noteq> - 1 \<and> identifier_ok ident \<and> accountName name \<and>
     reservations_ok name res \<and> create_room r ident name \<and>
     (\<exists>c. find (\<lambda>c. c \<notin> reserved_numbers res \<union> acc_uid ` set (accounts_of r))
          (candidates (reg_first_id r) (reg_last_id r)) = Some c \<and>
        r' = r\<lparr>reg_revision := e + 1,
               reg_accounts := Some (accounts_of r @ [new_account ident name c])\<rparr>)"
  (is "?create = Inr r' \<longleftrightarrow> ?spec")
proof (cases "registry_next r e")
  case (Inl err)
  then have "\<not> (registry_wf r \<and> reg_revision r = e \<and> e \<noteq> - 1)"
    using registry_next_ok_iff by (metis Inl_Inr_False)
  then show ?thesis using Inl by (auto simp: registry_create_def)
next
  case nxt: (Inr nx)
  note nx = nxt [unfolded registry_next_ok_iff]
  show ?thesis
  proof (cases "validIdentity ident name")
    case False
    then show ?thesis using nxt by (auto simp: registry_create_def validIdentity_iff)
  next
    case idn: True
    show ?thesis
    proof (cases "create_reserved name res")
      case (Inl err)
      then show ?thesis using nxt idn create_reserved_ok_iff [of name res]
        by (simp add: registry_create_def)
    next
      case res: (Inr ns)
      show ?thesis
      proof (cases "scan_accounts ident name ns 0 (accounts_of r)")
        case (Inl err)
        then have "\<not> create_room r ident name"
          using scan_accounts_ok_iff [of ident name ns 0 "accounts_of r"]
          by (auto simp: create_room_def)
        then show ?thesis using nxt idn res Inl by (simp add: registry_create_def)
      next
        case (Inr p)
        then obtain used live where scan: "scan_accounts ident name ns 0 (accounts_of r) = Inr (used, live)"
          by (cases p) auto
        have used: "set used = reserved_numbers res \<union> acc_uid ` set (accounts_of r)"
          using scan create_reserved_ok [OF res] by (auto simp: scan_accounts_ok_iff)
        have live: "live = live_count (accounts_of r)" "ident \<notin> acc_id ` set (accounts_of r)"
          "name \<notin> acc_name ` set (accounts_of r)"
          using scan by (simp_all add: scan_accounts_ok_iff)
        have acc: "accounts_of nx = accounts_of r" using nx by (simp add: accounts_of_def)
        have "?create = Inr r' \<longleftrightarrow> create_room r ident name \<and>
            (\<exists>c. find (\<lambda>c. c \<notin> set used) (candidates (reg_first_id r) (reg_last_id r)) = Some c \<and>
               r' = nx\<lparr>reg_accounts := Some (accounts_of r @ [new_account ident name c])\<rparr>)"
          using nxt idn res scan acc live
          by (auto simp: registry_create_def create_room_def split: option.splits)
        then show ?thesis
          using nx idn create_reserved_ok [OF res] by (auto simp: used validIdentity_iff)
      qed
    qed
  qed
qed

lemma accounts_wf_append_new:
  assumes "accounts_wf lo hi as" "ident \<notin> acc_id ` set as" "name \<notin> acc_name ` set as"
    "identifier_ok ident" "accountName name" "lo \<le> c" "c \<le> hi" "c \<notin> acc_uid ` set as"
  shows "accounts_wf lo hi (as @ [new_account ident name c])"
  using assms by (auto simp: accounts_wf_def account_wf_def new_account_def)

lemma registry_wf_accounts:
  "registry_wf r \<Longrightarrow> reg_accounts r = Some (accounts_of r) \<and> length (accounts_of r) \<le> max_records \<and>
     accounts_wf (reg_first_id r) (reg_last_id r) (accounts_of r) \<and>
     live_count (accounts_of r) \<le> max_live"
  by (auto simp: registry_wf_def accounts_of_def)

lemma registry_create_wf:
  assumes "registry_create r e ident name res = Inr r'"
  shows "registry_wf r'"
proof -
  from assms obtain c where room: "create_room r ident name"
    and c: "find (\<lambda>c. c \<notin> reserved_numbers res \<union> acc_uid ` set (accounts_of r))
          (candidates (reg_first_id r) (reg_last_id r)) = Some c"
    and r': "r' = r\<lparr>reg_revision := e + 1,
          reg_accounts := Some (accounts_of r @ [new_account ident name c])\<rparr>"
    and wf: "registry_wf r" and e: "e \<noteq> - 1" and idn: "identifier_ok ident" "accountName name"
    by (auto simp: registry_create_ok_iff)
  have "accounts_wf (reg_first_id r) (reg_last_id r) (accounts_of r @ [new_account ident name c])"
    using room idn find_candidate [OF c] registry_wf_accounts [OF wf]
    by (intro accounts_wf_append_new) (auto simp: create_room_def)
  then show ?thesis
    using wf room u64_succ_nonzero [OF e]
    by (simp add: registry_wf_def create_room_def r' new_account_def)
qed

subsection \<open>SetState\<close>

definition identity_of :: "account \<Rightarrow> string \<times> string \<times> u32 \<times> u32" where
  "identity_of a = (acc_id a, acc_name a, acc_uid a, acc_gid a)"

definition transition_ok :: "string \<Rightarrow> string \<Rightarrow> bool" where
  "transition_ok old new \<longleftrightarrow>
     (old = st_disabled \<and> new = st_enabled) \<or> (old = st_enabled \<and> new = st_disabled) \<or>
     (old = st_disabled \<and> new = st_retired)"

lemma set_state_loop_ok:
  assumes "set_state_loop ident state as = Inr as'"
  shows "\<exists>pre a post. as = pre @ a # post \<and> ident \<notin> acc_id ` set pre \<and> acc_id a = ident \<and>
     acc_state a \<noteq> st_retired \<and> acc_state a \<noteq> state \<and> state \<in> {st_enabled, st_disabled, st_retired} \<and>
     (state = st_retired \<longrightarrow> acc_state a = st_disabled) \<and>
     as' = pre @ a\<lparr>acc_state := state\<rparr> # post"
  using assms
proof (induction as arbitrary: as')
  case Nil
  then show ?case by simp
next
  case (Cons b as)
  show ?case
  proof (cases "acc_id b = ident")
    case True
    then show ?thesis using Cons.prems by (intro exI [of _ "[]"] exI [of _ b] exI [of _ as]) (auto split: if_splits)
  next
    case False
    then obtain bs where bs: "set_state_loop ident state as = Inr bs" "as' = b # bs"
      using Cons.prems by (auto split: sum.splits)
    obtain pre a post where "as = pre @ a # post" "ident \<notin> acc_id ` set pre" "acc_id a = ident"
     "acc_state a \<noteq> st_retired" "acc_state a \<noteq> state" "state \<in> {st_enabled, st_disabled, st_retired}"
     "state = st_retired \<longrightarrow> acc_state a = st_disabled" "bs = pre @ a\<lparr>acc_state := state\<rparr> # post"
      using Cons.IH [OF bs(1)] by blast
    then show ?thesis using False bs by (intro exI [of _ "b # pre"] exI [of _ a] exI [of _ post]) auto
  qed
qed

lemma set_state_loop_wf:
  assumes "set_state_loop ident state as = Inr as'" "accounts_wf lo hi as"
  shows "accounts_wf lo hi as' \<and> map identity_of as' = map identity_of as \<and>
     live_count as' \<le> live_count as"
proof -
  obtain pre a post where "as = pre @ a # post" "acc_state a \<noteq> st_retired"
    "state \<in> {st_enabled, st_disabled, st_retired}" "as' = pre @ a\<lparr>acc_state := state\<rparr> # post"
    using set_state_loop_ok [OF assms(1)] by blast
  then show ?thesis using assms(2)
    by (auto simp: accounts_wf_def account_wf_def identity_of_def)
qed

lemma registry_set_state_ok:
  assumes "registry_set_state r e ident state = Inr r'"
  shows "registry_wf r \<and> reg_revision r = e \<and> e \<noteq> - 1 \<and>
     (\<exists>as'. set_state_loop ident state (accounts_of r) = Inr as' \<and>
        r' = r\<lparr>reg_revision := e + 1, reg_accounts := Some as'\<rparr>)"
proof -
  obtain nx where nx: "registry_next r e = Inr nx"
    using assms by (auto simp: registry_set_state_def split: sum.splits)
  note n = nx [unfolded registry_next_ok_iff]
  then have "accounts_of nx = accounts_of r" by (simp add: accounts_of_def)
  then show ?thesis using assms nx n by (auto simp: registry_set_state_def split: sum.splits)
qed

lemma registry_set_state_wf:
  assumes "registry_set_state r e ident state = Inr r'"
  shows "registry_wf r'"
proof -
  obtain as' where as': "set_state_loop ident state (accounts_of r) = Inr as'"
    and r': "r' = r\<lparr>reg_revision := e + 1, reg_accounts := Some as'\<rparr>"
    and r: "registry_wf r" "e \<noteq> - 1"
    using registry_set_state_ok [OF assms] by blast
  note w = registry_wf_accounts [OF r(1)]
  have "accounts_wf (reg_first_id r) (reg_last_id r) as'" "live_count as' \<le> max_live"
    "length as' = length (accounts_of r)"
    using set_state_loop_wf [OF as', of "reg_first_id r" "reg_last_id r"] w
    by (auto dest: map_eq_imp_length_eq)
  then show ?thesis using r w u64_succ_nonzero [OF r(2)] by (simp add: registry_wf_def r')
qed

subsection \<open>Histories\<close>

text \<open>One accepted change of a registry, by either operation, and the permanence it respects.\<close>

inductive registry_step :: "registry \<Rightarrow> registry \<Rightarrow> bool" where
  step_create: "registry_create r e ident name res = Inr r' \<Longrightarrow> registry_step r r'"
| step_set_state: "registry_set_state r e ident state = Inr r' \<Longrightarrow> registry_step r r'"

definition registry_keeps :: "registry \<Rightarrow> registry \<Rightarrow> bool" where
  "registry_keeps r r' \<longleftrightarrow>
     reg_first_id r' = reg_first_id r \<and> reg_last_id r' = reg_last_id r \<and>
     length (accounts_of r) \<le> length (accounts_of r') \<and>
     (\<forall>i < length (accounts_of r).
        identity_of (accounts_of r' ! i) = identity_of (accounts_of r ! i) \<and>
        (acc_state (accounts_of r ! i) = st_retired \<longrightarrow> acc_state (accounts_of r' ! i) = st_retired))"

lemma registry_keeps_refl [simp]: "registry_keeps r r"
  by (simp add: registry_keeps_def)

lemma registry_keeps_trans: "registry_keeps r s \<Longrightarrow> registry_keeps s t \<Longrightarrow> registry_keeps r t"
  by (auto simp: registry_keeps_def)

lemma registry_create_keeps: "registry_create r e ident name res = Inr r' \<Longrightarrow> registry_keeps r r'"
  by (auto simp: registry_create_ok_iff registry_keeps_def accounts_of_def nth_append)

lemma registry_set_state_keeps:
  assumes "registry_set_state r e ident state = Inr r'"
  shows "registry_keeps r r'"
proof -
  obtain as' where as': "set_state_loop ident state (accounts_of r) = Inr as'"
    and r': "r' = r\<lparr>reg_revision := e + 1, reg_accounts := Some as'\<rparr>"
    using registry_set_state_ok [OF assms] by blast
  obtain pre a post where "accounts_of r = pre @ a # post" "acc_state a \<noteq> st_retired"
    "as' = pre @ a\<lparr>acc_state := state\<rparr> # post"
    using set_state_loop_ok [OF as'] by blast
  then show ?thesis
    by (auto simp: registry_keeps_def r' nth_append nth_Cons' identity_of_def accounts_of_def)
qed

lemma registry_step_keeps: "registry_step r r' \<Longrightarrow> registry_keeps r r'"
  by (auto elim!: registry_step.cases intro: registry_create_keeps registry_set_state_keeps)

interpretation reg: revisioned registry_wf reg_revision registry_step
proof
  fix r r' assume "registry_step r r'"
  then show "registry_wf r'"
    by (auto elim!: registry_step.cases intro: registry_create_wf registry_set_state_wf)
next
  fix r r' assume "registry_step r r'"
  then show "reg_revision r \<noteq> - 1 \<and> reg_revision r' = reg_revision r + 1"
    by (cases rule: registry_step.cases)
      (auto simp: registry_create_ok_iff dest!: registry_set_state_ok)
qed

lemma registry_steps_keep: "registry_step\<^sup>*\<^sup>* r r' \<Longrightarrow> registry_keeps r r'"
  by (induction rule: rtranclp_induct) (auto intro: registry_keeps_trans registry_step_keeps)

subsection \<open>BindShares\<close>

lemma account_map_iff:
  "distinct (map acc_id as) \<Longrightarrow> account_map as k = Some a \<longleftrightarrow> a \<in> set as \<and> acc_id a = k"
  unfolding account_map_def
  by (subst map_of_eq_Some_iff) (auto simp: comp_def simp flip: rev_map)

lemma user_map_iff:
  "distinct (map user_id us) \<Longrightarrow>
   user_map us k = Some n \<longleftrightarrow> (\<exists>u \<in> set us. user_id u = k \<and> user_name u = n)"
  unfolding user_map_def
  by (subst map_of_eq_Some_iff) (auto simp: comp_def simp flip: rev_map)

lemma user_map_total:
  assumes "k \<in> user_id ` set us"
  obtains n where "user_map us k = Some n"
proof -
  have "k \<in> dom (user_map us)"
    using assms by (auto simp: user_map_def dom_map_of_conv_image_fst image_image)
  then show thesis using that by auto
qed

definition grant_resolves ::
  "(string \<rightharpoonup> account) \<Rightarrow> (string \<rightharpoonup> string) \<Rightarrow> grant \<Rightarrow> bool" where
  "grant_resolves accounts users g \<longleftrightarrow>
     (\<exists>a. accounts (grant_user_id g) = Some a \<and> acc_state a = st_enabled \<and>
        acc_name a = (case users (grant_user_id g) of None \<Rightarrow> [] | Some n \<Rightarrow> n))"

lemma bind_grants_ok_iff:
  "is_ok (bind_grants accounts users acc gs) \<longleftrightarrow> (\<forall>g \<in> set gs. grant_resolves accounts users g)"
  by (induction accounts users acc gs rule: bind_grants.induct)
    (auto simp: grant_resolves_def split: option.splits)

lemma bind_grants_result:
  assumes "bind_grants accounts users acc gs = Inr as"
    and "\<And>k a. accounts k = Some a \<Longrightarrow> acc_id a = k"
    and "set acc \<subseteq> ran accounts" "distinct (map acc_id acc)"
  shows "set as = set acc \<union> {a. \<exists>g \<in> set gs. accounts (grant_user_id g) = Some a} \<and>
    distinct (map acc_id as)"
  using assms
proof (induction accounts users acc gs rule: bind_grants.induct)
  case (1 accounts users acc)
  then show ?case by simp
next
  case (2 accounts users acc g gs)
  then obtain a where a: "accounts (grant_user_id g) = Some a"
    and ok: "\<not> (acc_name a \<noteq> (case users (grant_user_id g) of None \<Rightarrow> [] | Some n \<Rightarrow> n) \<or>
                acc_state a \<noteq> st_enabled)"
    by (auto split: option.splits if_splits)
  let ?acc = "if acc_id a \<in> acc_id ` set acc then acc else acc @ [a]"
  have rec: "bind_grants accounts users ?acc gs = Inr as" using 2(2) a ok by auto
  have sub: "set ?acc \<subseteq> ran accounts" "distinct (map acc_id ?acc)"
    using 2(4,5) a by (auto simp: ran_def)
  have ex: "set ?acc = set acc \<union> {a}"
  proof (cases "acc_id a \<in> acc_id ` set acc")
    case True
    then obtain b where b: "b \<in> set acc" "acc_id b = acc_id a" by auto
    then obtain k where "accounts k = Some b" using 2(4) by (auto simp: ran_def)
    then have "b = a" using 2(3) [of k b] 2(3) [OF a] a b by auto
    then show ?thesis using b True by auto
  qed simp
  show ?case using 2(1) [OF a ok rec 2(3) sub] a ex by auto
qed

definition granted :: "share_config \<Rightarrow> grant set" where
  "granted p = (case sc_shares p of None \<Rightarrow> {} | Some ss \<Rightarrow> (\<Union>s \<in> set ss. set (share_grants s)))"

lemma bind_shares_result:
  assumes "bind_shares r p = Inr b"
  shows "set (bind_accounts b) = {a \<in> set (accounts_of r). acc_id a \<in> grant_user_id ` granted p} \<and>
     sorted_wrt (<) (map acc_id (bind_accounts b)) \<and>
     (\<forall>g \<in> granted p. \<exists>a \<in> set (bind_accounts b). acc_id a = grant_user_id g \<and>
        acc_state a = st_enabled \<and>
        (\<exists>u us. sc_users p = Some us \<and> u \<in> set us \<and> user_id u = acc_id a \<and> user_name u = acc_name a)) \<and>
     bind_registry_revision b = reg_revision r \<and> bind_share_revision b = sc_revision p"
proof -
  have r: "registry_wf r" and p: "share_config_wf p"
    using assms by (auto simp: bind_shares_def registry_validate_iff share_ok_iff
        split: if_splits)
  obtain us ss where us: "sc_users p = Some us" "distinct (map user_id us)" and ss: "sc_shares p = Some ss"
    using p by (auto simp: share_config_wf_def)
  have users: "\<And>s g. s \<in> set ss \<Longrightarrow> g \<in> set (share_grants s) \<Longrightarrow> grant_user_id g \<in> user_id ` set us"
    using p us ss by (auto simp: share_config_wf_def share_wf_def grants_wf_def)
  note w = registry_wf_accounts [OF r]
  let ?gs = "concat (map share_grants ss)" and ?A = "account_map (accounts_of r)" and ?U = "user_map us"
  obtain as where as: "bind_grants ?A ?U [] ?gs = Inr as"
    and b: "b = \<lparr>bind_registry_revision = reg_revision r, bind_share_revision = sc_revision p,
                bind_accounts = sort_key acc_id as\<rparr>"
    using assms w us ss by (auto simp: bind_shares_def split: if_splits sum.splits)
  have dist: "distinct (map acc_id (accounts_of r))" using w by (simp add: accounts_wf_def)
  have A: "\<And>k a. ?A k = Some a \<longleftrightarrow> a \<in> set (accounts_of r) \<and> acc_id a = k"
    using account_map_iff [OF dist] by blast
  have gr: "set ?gs = granted p" using ss by (simp add: granted_def)
  have res: "set as = {a. \<exists>g \<in> granted p. ?A (grant_user_id g) = Some a} \<and> distinct (map acc_id as)"
    using bind_grants_result [OF as] A unfolding gr [symmetric] by simp
  have resolves: "\<forall>g \<in> granted p. grant_resolves ?A ?U g"
    using as bind_grants_ok_iff [of ?A ?U "[]" ?gs] unfolding gr [symmetric] by simp
  have each: "\<exists>a \<in> set as. acc_id a = grant_user_id g \<and> acc_state a = st_enabled \<and>
      (\<exists>u \<in> set us. user_id u = acc_id a \<and> user_name u = acc_name a)" if g: "g \<in> granted p" for g
  proof -
    have "grant_user_id g \<in> user_id ` set us" using g users ss by (auto simp: granted_def)
    then obtain n where n: "?U (grant_user_id g) = Some n" by (rule user_map_total)
    obtain a where a: "?A (grant_user_id g) = Some a" "acc_state a = st_enabled" "acc_name a = n"
      using resolves g n by (force simp: grant_resolves_def)
    have "\<exists>u \<in> set us. user_id u = grant_user_id g \<and> user_name u = n"
      using n by (simp add: user_map_iff [OF us(2)])
    moreover have "a \<in> set as" "acc_id a = grant_user_id g" using res a A g by auto
    ultimately show ?thesis using a by metis
  qed
  have setb: "set (bind_accounts b) = set as" "bind_registry_revision b = reg_revision r"
    "bind_share_revision b = sc_revision p" "bind_accounts b = sort_key acc_id as"
    using b by simp_all
  have "set as = {a \<in> set (accounts_of r). acc_id a \<in> grant_user_id ` granted p}"
    using res A by auto
  moreover have "sorted_wrt (<) (map acc_id (sort_key acc_id as))"
    using conjunct2 [OF res] by (simp add: strict_sorted_iff distinct_map)
  moreover have "\<forall>g \<in> granted p. \<exists>a \<in> set as. acc_id a = grant_user_id g \<and> acc_state a = st_enabled \<and>
      (\<exists>u us. sc_users p = Some us \<and> u \<in> set us \<and> user_id u = acc_id a \<and> user_name u = acc_name a)"
    using each us(1) by blast
  ultimately show ?thesis unfolding setb(1) using setb by simp
qed

subsection \<open>Properties\<close>

lemma candidates_unfold:
  "hi \<noteq> - 1 \<Longrightarrow> candidates lo hi = (if lo \<le> hi then lo # candidates (lo + 1) hi else [])"
proof (cases "lo \<le> hi")
  case True
  assume hi: "hi \<noteq> - 1"
  then have "lo \<noteq> - 1" using True by (metis word_order.extremum_uniqueI)
  then have "unat (lo + 1) = Suc (unat lo)" using unatSuc [of lo] by (simp add: add_eq_0_iff add.commute)
  moreover have "unat lo < Suc (unat hi)" using True by (simp add: word_le_nat_alt less_Suc_eq_le)
  ultimately show ?thesis using True by (simp add: candidates_def upt_conv_Cons del: upt_Suc)
next
  case False
  then show ?thesis by (simp add: candidates_def word_le_nat_alt)
qed

lemma candidate_loop_returns:
  "hi \<noteq> - 1 \<Longrightarrow> candidate_loop hi used lo = Some (find (\<lambda>c. c \<notin> set used) (candidates lo hi))"
proof (induction "length (candidates lo hi)" arbitrary: lo)
  case 0
  then show ?case by (subst candidate_loop.simps) (auto simp: candidates_unfold split: if_splits)
next
  case (Suc n)
  then have "lo \<le> hi" "n = length (candidates (lo + 1) hi)" by (auto simp: candidates_unfold [of hi lo] split: if_splits)
  then show ?case using Suc by (subst candidate_loop.simps) (simp add: candidates_unfold [of hi lo])
qed

text \<open>
  C10: \<open>Registry.Create\<close> returns on every input, although its search counts a \<open>uint32\<close> that wraps around:
  validation has bounded the range below the largest number, so the search ends, and it gives the
  same result as looking through the numbers of the range in order.
\<close>

theorem registry_create_terminates:
  "registry_create_run r e ident name res = Some (registry_create r e ident name res)"
proof (cases "registry_next r e")
  case (Inl err)
  then show ?thesis by (simp add: registry_create_run_def registry_create_def)
next
  case (Inr r')
  then have "reg_last_id r \<le> 60000" using registry_next_ok_iff [of r e r'] by (simp add: registry_wf_def)
  then have "reg_last_id r \<noteq> - 1" by (auto simp: word_le_nat_alt unsigned_minus_1_eq_mask mask_eq_exp_minus_1)
  note loop = candidate_loop_returns [OF this]
  show ?thesis
    by (simp add: registry_create_run_def registry_create_def Inr loop split: sum.split option.split prod.split)
qed

text \<open>
  C9: \<open>Registry.Create\<close> succeeds exactly when the registry is valid at the expected revision,
  the identity is well formed and collides with no reservation and no account ever
  recorded, there is room, and some number of the range is free in both namespaces. The
  account it makes is appended disabled, with the least number that
  is free among the reservations and all recorded accounts (retired ones included) as both
  user and group number; every earlier record is kept as it was, the revision rises by
  one and the new registry is valid.
\<close>

theorem registry_create_effect:
  "(is_ok (registry_create r e ident name res) \<longleftrightarrow>
     registry_wf r \<and> reg_revision r = e \<and> e \<noteq> - 1 \<and> identifier_ok ident \<and> accountName name \<and>
     reservations_ok name res \<and> create_room r ident name \<and>
     (\<exists>c. reg_first_id r \<le> c \<and> c \<le> reg_last_id r \<and>
        c \<notin> reserved_numbers res \<union> acc_uid ` set (accounts_of r))) \<and>
   (\<forall>r'. registry_create r e ident name res = Inr r' \<longrightarrow>
     (\<exists>c. r' = r\<lparr>reg_revision := reg_revision r + 1,
                reg_accounts := Some (accounts_of r @ [new_account ident name c])\<rparr> \<and>
        c \<notin> reserved_numbers res \<union> acc_uid ` set (accounts_of r) \<and>
        reg_first_id r \<le> c \<and> c \<le> reg_last_id r \<and>
        (\<forall>d. reg_first_id r \<le> d \<and> d < c \<longrightarrow> d \<in> reserved_numbers res \<union> acc_uid ` set (accounts_of r)) \<and>
        registry_wf r'))"
proof (intro conjI allI impI)
  show "is_ok (registry_create r e ident name res) \<longleftrightarrow>
     registry_wf r \<and> reg_revision r = e \<and> e \<noteq> - 1 \<and> identifier_ok ident \<and> accountName name \<and>
     reservations_ok name res \<and> create_room r ident name \<and>
     (\<exists>c. reg_first_id r \<le> c \<and> c \<le> reg_last_id r \<and>
        c \<notin> reserved_numbers res \<union> acc_uid ` set (accounts_of r))"
    unfolding is_ok_iff registry_create_ok_iff find_candidate_exists [symmetric] by iprover
next
  fix r' assume made: "registry_create r e ident name res = Inr r'"
  obtain c where c: "find (\<lambda>c. c \<notin> reserved_numbers res \<union> acc_uid ` set (accounts_of r))
          (candidates (reg_first_id r) (reg_last_id r)) = Some c"
    and r': "r' = r\<lparr>reg_revision := reg_revision r + 1,
                   reg_accounts := Some (accounts_of r @ [new_account ident name c])\<rparr>"
    using made by (auto simp: registry_create_ok_iff)
  show "\<exists>c. r' = r\<lparr>reg_revision := reg_revision r + 1,
                reg_accounts := Some (accounts_of r @ [new_account ident name c])\<rparr> \<and>
        c \<notin> reserved_numbers res \<union> acc_uid ` set (accounts_of r) \<and>
        reg_first_id r \<le> c \<and> c \<le> reg_last_id r \<and>
        (\<forall>d. reg_first_id r \<le> d \<and> d < c \<longrightarrow> d \<in> reserved_numbers res \<union> acc_uid ` set (accounts_of r)) \<and>
        registry_wf r'"
    using find_candidate [OF c] r' registry_create_wf [OF made] by blast
qed

definition sample_registry :: registry where
  "sample_registry = \<lparr>reg_format = registry_format, reg_schema_version = 1, reg_revision = 1,
     reg_first_id = 1000, reg_last_id = 1003, reg_accounts = Some []\<rparr>"

definition sample_reserved :: reservations where
  "sample_reserved = \<lparr>res_uids = Some [1000], res_gids = Some [], res_names = Some [''root'']\<rparr>"

definition sample_registry2 :: registry where
  "sample_registry2 = sample_registry\<lparr>reg_revision := 2,
     reg_accounts := Some [new_account ''alice'' ''alice'' 1001]\<rparr>"

lemma sample_create:
  "registry_create sample_registry 1 ''alice'' ''alice'' sample_reserved = Inr sample_registry2"
  by code_simp

theorem registry_create_effect_witness:
  "registry_create sample_registry 1 ''alice'' ''alice'' sample_reserved = Inr sample_registry2 \<and>
   registry_wf sample_registry2"
  using mp [OF spec [OF conjunct2 [OF registry_create_effect]] sample_create]
  by (elim exE conjE) (simp only: sample_create simp_thms)

text \<open>
  C8: over any number \<open>n\<close> of accepted changes a valid registry stays valid, its revision rises
  by exactly \<open>n\<close> without wrapping, every identity keeps its place, identifier, name and
  numbers, and a retired account stays retired.
\<close>

theorem registry_history:
  assumes "(registry_step ^^ n) r r'" and "registry_wf r"
  shows "registry_wf r' \<and> unat (reg_revision r') = unat (reg_revision r) + n \<and> registry_keeps r r'"
proof (intro conjI)
  show "registry_wf r'" by (rule reg.relpow_valid) fact+
  show "unat (reg_revision r') = unat (reg_revision r) + n" by (rule reg.relpow_revision) fact+
  show "registry_keeps r r'"
    by (rule registry_steps_keep) (rule relpowp_imp_rtranclp, fact)
qed

theorem registry_history_witness:
  "registry_wf sample_registry2 \<and>
   unat (reg_revision sample_registry2) = unat (reg_revision sample_registry) + 1"
proof -
  have "(registry_step ^^ 1) sample_registry sample_registry2"
    using sample_create by (auto intro: registry_step.intros)
  moreover have "registry_wf sample_registry"
    using sample_create by (auto simp: registry_create_ok_iff)
  ultimately show ?thesis using registry_history [of 1] by (simp only: simp_thms)
qed

text \<open>
  C11: when \<open>BindShares\<close> succeeds it binds exactly the recorded accounts some share grants
  access to, strictly ordered by identifier; each grant resolves to an enabled account
  whose identifier and name are those of the user the policy names.
\<close>

theorem bind_shares_sound:
  assumes "bind_shares r p = Inr b"
  shows "set (bind_accounts b) = {a \<in> set (accounts_of r). acc_id a \<in> grant_user_id ` granted p} \<and>
     sorted_wrt (<) (map acc_id (bind_accounts b)) \<and>
     (\<forall>g \<in> granted p. \<exists>a \<in> set (bind_accounts b). acc_id a = grant_user_id g \<and>
        acc_state a = st_enabled \<and>
        (\<exists>u us. sc_users p = Some us \<and> u \<in> set us \<and> user_id u = acc_id a \<and> user_name u = acc_name a)) \<and>
     bind_registry_revision b = reg_revision r \<and> bind_share_revision b = sc_revision p"
  using assms by (rule bind_shares_result)

definition sample_policy :: share_config where
  "sample_policy = \<lparr>sc_format = share_format, sc_schema_version = 1, sc_revision = 7,
     sc_volumes = Some [\<lparr>vol_id = ''data'', vol_filesystem_uuid = ''01234567-89ab-4def-8123-456789abcdef''\<rparr>],
     sc_users = Some [\<lparr>user_id = ''alice'', user_name = ''alice''\<rparr>],
     sc_shares = Some [\<lparr>share_id = ''docs'', share_label = ''Docs'', share_volume_id = ''data'',
        share_relative_path = ''docs'',
        share_grants = [\<lparr>grant_user_id = ''alice'', grant_access = ''rw''\<rparr>]\<rparr>]\<rparr>"

definition sample_registry3 :: registry where
  "sample_registry3 = sample_registry2\<lparr>reg_revision := 3,
     reg_accounts := Some [(new_account ''alice'' ''alice'' 1001)\<lparr>acc_state := st_enabled\<rparr>]\<rparr>"

lemma sample_bind: "is_ok (bind_shares sample_registry3 sample_policy)"
  by code_simp

theorem bind_shares_sound_witness:
  "\<exists>b. bind_shares sample_registry3 sample_policy = Inr b \<and>
     sorted_wrt (<) (map acc_id (bind_accounts b))"
proof -
  obtain b where b: "bind_shares sample_registry3 sample_policy = Inr b"
    using sample_bind by (auto simp: is_ok_iff)
  with bind_shares_sound [OF b] show ?thesis by (intro exI [of _ b]) (simp only: simp_thms)
qed

end
