(* ===== verification/Json_Text.thy ===== *)
theory Json_Text
  imports Go_Base
begin

section \<open>JSON documents\<close>

text \<open>
  What the sources use of \<open>encoding/json\<close>: the reader of a document into a value tree, the
  writer \<open>json.Marshal\<close> applies to such a tree, and the conversions between trees and Go
  values that struct decoding and encoding perform field by field. The main lemma is the
  round trip: what the writer produces is read back as the same tree.
\<close>

subsection \<open>Values and tokens\<close>

datatype json =
    JNull
  | JBool bool
  | JNum string
  | JStr string
  | JArr "json list"
  | JObj "(string \<times> json) list"

datatype jtoken =
    TLBrace | TRBrace | TLBrack | TRBrack | TComma | TColon
  | TStr string | TNum string | TBool bool | TNull

subsection \<open>Characters\<close>

abbreviation quote_char :: char where "quote_char \<equiv> CHR 0x22"
abbreviation bslash :: char where "bslash \<equiv> CHR 0x5C"

definition json_space :: "char \<Rightarrow> bool" where
  "json_space c \<longleftrightarrow> c = CHR 0x20 \<or> c = CHR 0x09 \<or> c = CHR 0x0D \<or> c = CHR 0x0A"

definition hex_digit :: "char \<Rightarrow> nat option" where
  "hex_digit c =
     (let n = of_char c :: nat in
      if 48 \<le> n \<and> n \<le> 57 then Some (n - 48)
      else if 97 \<le> n \<and> n \<le> 102 then Some (n - 87)
      else if 65 \<le> n \<and> n \<le> 70 then Some (n - 55)
      else None)"

text \<open>Four hexadecimal digits, \<open>strconv.ParseUint(s, 16, 16)\<close> on four bytes.\<close>

definition hex4 :: "char \<Rightarrow> char \<Rightarrow> char \<Rightarrow> char \<Rightarrow> nat option" where
  "hex4 a b c d =
     (case (hex_digit a, hex_digit b, hex_digit c, hex_digit d) of
        (Some i, Some j, Some k, Some l) \<Rightarrow> Some (i * 4096 + j * 256 + k * 16 + l)
      | _ \<Rightarrow> None)"

text \<open>\<open>utf8.AppendRune\<close>: surrogates and values beyond the range become \<open>RuneError\<close>.\<close>

definition utf8_encode :: "nat \<Rightarrow> string" where
  "utf8_encode r =
     (if r < 128 then [char_of r]
      else if r < 2048 then [char_of (192 + r div 64), char_of (128 + r mod 64)]
      else if 55296 \<le> r \<and> r \<le> 57343 \<or> 1114111 < r then [CHR 0xEF, CHR 0xBF, CHR 0xBD]
      else if r < 65536 then
        [char_of (224 + r div 4096), char_of (128 + r div 64 mod 64), char_of (128 + r mod 64)]
      else [char_of (240 + r div 262144), char_of (128 + r div 4096 mod 64),
            char_of (128 + r div 64 mod 64), char_of (128 + r mod 64)])"

subsection \<open>Reading strings\<close>

definition simple_escape :: "char \<Rightarrow> char option" where
  "simple_escape c =
     (if c = quote_char \<or> c = bslash \<or> c = CHR ''/'' then Some c
      else if c = CHR ''b'' then Some (CHR 0x08)
      else if c = CHR ''f'' then Some (CHR 0x0C)
      else if c = CHR ''n'' then Some (CHR 0x0A)
      else if c = CHR ''r'' then Some (CHR 0x0D)
      else if c = CHR ''t'' then Some (CHR 0x09)
      else None)"

definition high_surrogate :: "nat \<Rightarrow> bool" where
  "high_surrogate r \<longleftrightarrow> 55296 \<le> r \<and> r \<le> 56319"

definition low_surrogate :: "nat \<Rightarrow> bool" where
  "low_surrogate r \<longleftrightarrow> 56320 \<le> r \<and> r \<le> 57343"

text \<open>
  A \<open>\u\<close> escape: the text it stands for, and what follows. A high surrogate joins a low one
  that follows it; any other surrogate becomes \<open>RuneError\<close>.
\<close>

fun low_escape :: "string \<Rightarrow> (nat \<times> string) option" where
  "low_escape (b # u # l1 # l2 # l3 # l4 # rest) =
     (if b = bslash \<and> u = CHR ''u'' then
        (case hex4 l1 l2 l3 l4 of
           None \<Rightarrow> None
         | Some l \<Rightarrow> if low_surrogate l then Some (l, rest) else None)
      else None)"
| "low_escape _ = None"

definition joined_escape :: "nat \<Rightarrow> string \<Rightarrow> string \<times> string" where
  "joined_escape r rest =
     (if high_surrogate r then
        (case low_escape rest of
           None \<Rightarrow> (utf8_encode r, rest)
         | Some (l, rest') \<Rightarrow> (utf8_encode (65536 + (r - 55296) * 1024 + (l - 56320)), rest'))
      else (utf8_encode r, rest))"

fun unicode_escape :: "string \<Rightarrow> (string \<times> string) option" where
  "unicode_escape (h1 # h2 # h3 # h4 # rest) = map_option (\<lambda>r. joined_escape r rest) (hex4 h1 h2 h3 h4)"
| "unicode_escape _ = None"

fun lex_escape :: "string \<Rightarrow> (string \<times> string) option" where
  "lex_escape [] = None"
| "lex_escape (e # es) =
     (if e = CHR ''u'' then unicode_escape es
      else map_option (\<lambda>x. ([x], es)) (simple_escape e))"

lemma low_escape_shorter: "low_escape cs = Some (l, rest) \<Longrightarrow> length rest < length cs"
  by (induction cs rule: low_escape.induct) (auto split: if_splits option.splits)

lemma joined_escape_shorter: "length (snd (joined_escape r cs)) \<le> length cs"
  using low_escape_shorter [of cs] by (auto simp: joined_escape_def less_imp_le split: option.split)

lemma unicode_escape_shorter: "unicode_escape cs = Some (s, rest) \<Longrightarrow> length rest < length cs"
proof (induction cs rule: unicode_escape.induct)
  case (1 h1 h2 h3 h4 cs)
  then obtain r where "joined_escape r cs = (s, rest)" by auto
  then show ?case using joined_escape_shorter [of r cs] by simp
qed simp_all

lemma lex_escape_shorter: "lex_escape cs = Some (s, rest) \<Longrightarrow> length rest < length cs"
  by (cases cs) (auto split: if_splits dest: unicode_escape_shorter)

text \<open>
  The body of a string literal after its opening quote, and what follows the closing one. The
  bytes above 127 are copied: every caller has checked that the document is valid UTF-8.
\<close>

definition cons_first :: "string \<Rightarrow> (string \<times> 'a) option \<Rightarrow> (string \<times> 'a) option" where
  "cons_first p r = map_option (\<lambda>(s, rest). (p @ s, rest)) r"

function lex_str :: "string \<Rightarrow> (string \<times> string) option" where
  "lex_str [] = None"
| "lex_str (c # cs) =
     (if c = quote_char then Some ([], cs)
      else if c = bslash then
        (case lex_escape cs of None \<Rightarrow> None | Some (p, rest) \<Rightarrow> cons_first p (lex_str rest))
      else if (of_char c :: nat) < 32 then None
      else cons_first [c] (lex_str cs))"
  by pat_completeness auto
termination
  by (relation "measure length") (auto dest: lex_escape_shorter)

lemma cons_first_Some:
  "cons_first p r = Some (s, rest) \<longleftrightarrow> (\<exists>t. r = Some (t, rest) \<and> s = p @ t)"
  by (auto simp: cons_first_def)

lemma lex_str_shorter: "lex_str cs = Some (s, rest) \<Longrightarrow> length rest < length cs"
proof (induction cs arbitrary: s rest rule: lex_str.induct)
  case (2 c cs)
  show ?case
  proof (cases "c = bslash")
    case True
    then obtain p cs' t where *: "lex_escape cs = Some (p, cs')" "lex_str cs' = Some (t, rest)"
      using "2.prems" by (auto simp: cons_first_Some split: option.splits)
    then show ?thesis using "2.IH"(1) [OF _ True *(1) refl *(2)] lex_escape_shorter [OF *(1)] True by auto
  next
    case False
    then show ?thesis using "2.prems" "2.IH"(2) by (auto simp: cons_first_Some less_SucI split: if_splits)
  qed
qed simp

subsection \<open>Reading numbers and documents\<close>

definition number_char :: "char \<Rightarrow> bool" where
  "number_char c \<longleftrightarrow> dec_digit c \<or> c \<in> {CHR ''-'', CHR ''+'', CHR ''.'', CHR ''e'', CHR ''E''}"

definition letter_char :: "char \<Rightarrow> bool" where
  "letter_char c \<longleftrightarrow> 97 \<le> (of_char c :: nat) \<and> (of_char c :: nat) \<le> 122"

text \<open>The grammar of a number: sign, integer part, fraction, exponent.\<close>

definition digits1 :: "string \<Rightarrow> bool" where
  "digits1 s \<longleftrightarrow> s \<noteq> [] \<and> list_all dec_digit s"

definition exponent_ok :: "string \<Rightarrow> bool" where
  "exponent_ok s =
     (case s of
        [] \<Rightarrow> True
      | e # t \<Rightarrow> (e = CHR ''e'' \<or> e = CHR ''E'') \<and>
          digits1 (case t of [] \<Rightarrow> [] | x # u \<Rightarrow> if x = CHR ''+'' \<or> x = CHR ''-'' then u else t))"

definition fraction_ok :: "string \<Rightarrow> bool" where
  "fraction_ok s =
     (case s of
        [] \<Rightarrow> True
      | d # t \<Rightarrow> if d = CHR ''.'' then takeWhile dec_digit t \<noteq> [] \<and> exponent_ok (dropWhile dec_digit t)
                 else exponent_ok s)"

definition number_ok :: "string \<Rightarrow> bool" where
  "number_ok s =
     (let u = (case s of [] \<Rightarrow> [] | c # t \<Rightarrow> if c = CHR ''-'' then t else s);
          i = takeWhile dec_digit u in
      i \<noteq> [] \<and> (hd i = CHR ''0'' \<longrightarrow> length i = 1) \<and> fraction_ok (dropWhile dec_digit u))"

definition punct :: "char \<Rightarrow> jtoken option" where
  "punct c =
     (if c = CHR ''{'' then Some TLBrace
      else if c = CHR ''}'' then Some TRBrace
      else if c = CHR ''['' then Some TLBrack
      else if c = CHR '']'' then Some TRBrack
      else if c = CHR '','' then Some TComma
      else if c = CHR '':'' then Some TColon
      else None)"

definition word_token :: "string \<Rightarrow> jtoken option" where
  "word_token s =
     (if s = ''true'' then Some (TBool True)
      else if s = ''false'' then Some (TBool False)
      else if s = ''null'' then Some TNull
      else None)"

text \<open>
  After a number or a word only white space or a separator may follow, so reading the longest
  run of their characters and then testing it accepts the same documents as the scanner.
\<close>

definition lex_one :: "char \<Rightarrow> string \<Rightarrow> (jtoken \<times> string) option" where
  "lex_one c cs =
     (case punct c of
        Some t \<Rightarrow> Some (t, cs)
      | None \<Rightarrow>
          if c = quote_char then map_option (\<lambda>(s, rest). (TStr s, rest)) (lex_str cs)
          else if number_char c then
            (let n = takeWhile number_char (c # cs) in
             if number_ok n then Some (TNum n, dropWhile number_char cs) else None)
          else if letter_char c then
            map_option (\<lambda>t. (t, dropWhile letter_char cs)) (word_token (takeWhile letter_char (c # cs)))
          else None)"

lemma lex_one_shorter: "lex_one c cs = Some (t, rest) \<Longrightarrow> length rest \<le> length cs"
  using lex_str_shorter [of cs]
  by (auto simp: lex_one_def Let_def length_dropWhile_le less_imp_le split: option.splits if_splits)

function lex :: "string \<Rightarrow> jtoken list option" where
  "lex [] = Some []"
| "lex (c # cs) =
     (if json_space c then lex cs
      else (case lex_one c cs of None \<Rightarrow> None | Some (t, rest) \<Rightarrow> map_option (\<lambda>ts. t # ts) (lex rest)))"
  by pat_completeness auto
termination
  by (relation "measure length") (auto dest: lex_one_shorter)

text \<open>
  The states of the token reader, and the arrays and objects being read: the values or members
  so far, last first, and for an object the key whose value comes next.
\<close>

datatype jmode = Top_Value | Array_Start | Array_Value | Array_Comma
  | Object_Start | Object_Key | Object_Colon | Object_Value | Object_Comma

datatype jframe = In_Array "json list" | In_Object "(string \<times> json) list" string

definition scalar_of :: "jtoken \<Rightarrow> json option" where
  "scalar_of t =
     (case t of TStr s \<Rightarrow> Some (JStr s) | TNum n \<Rightarrow> Some (JNum n) | TBool b \<Rightarrow> Some (JBool b)
      | TNull \<Rightarrow> Some JNull | _ \<Rightarrow> None)"

definition wants_value :: "jmode \<Rightarrow> bool" where
  "wants_value m \<longleftrightarrow> m \<in> {Top_Value, Array_Start, Array_Value, Object_Value}"

text \<open>A finished value goes to the innermost open frame; \<open>Inr\<close> is the finished document.\<close>

fun deliver :: "json \<Rightarrow> jframe list \<Rightarrow> (jmode \<times> jframe list) + json" where
  "deliver v [] = Inr v"
| "deliver v (In_Array vs # st) = Inl (Array_Comma, In_Array (v # vs) # st)"
| "deliver v (In_Object ms k # st) = Inl (Object_Comma, In_Object ((k, v) # ms) k # st)"

definition token_step :: "jmode \<Rightarrow> jframe list \<Rightarrow> jtoken \<Rightarrow> ((jmode \<times> jframe list) + json) option" where
  "token_step m st t =
     (if wants_value m \<and> t = TLBrace then Some (Inl (Object_Start, In_Object [] [] # st))
      else if wants_value m \<and> t = TLBrack then Some (Inl (Array_Start, In_Array [] # st))
      else if wants_value m \<and> scalar_of t \<noteq> None then map_option (\<lambda>v. deliver v st) (scalar_of t)
      else case (m, t, st) of
        (Array_Start, TRBrack, In_Array vs # st') \<Rightarrow> Some (deliver (JArr (rev vs)) st')
      | (Array_Comma, TRBrack, In_Array vs # st') \<Rightarrow> Some (deliver (JArr (rev vs)) st')
      | (Array_Comma, TComma, _) \<Rightarrow> Some (Inl (Array_Value, st))
      | (Object_Start, TRBrace, In_Object ms k # st') \<Rightarrow> Some (deliver (JObj (rev ms)) st')
      | (Object_Comma, TRBrace, In_Object ms k # st') \<Rightarrow> Some (deliver (JObj (rev ms)) st')
      | (Object_Comma, TComma, _) \<Rightarrow> Some (Inl (Object_Key, st))
      | (Object_Start, TStr k, In_Object ms _ # st') \<Rightarrow> Some (Inl (Object_Colon, In_Object ms k # st'))
      | (Object_Key, TStr k, In_Object ms _ # st') \<Rightarrow> Some (Inl (Object_Colon, In_Object ms k # st'))
      | (Object_Colon, TColon, _) \<Rightarrow> Some (Inl (Object_Value, st))
      | _ \<Rightarrow> None)"

fun parse_tokens :: "jmode \<Rightarrow> jframe list \<Rightarrow> jtoken list \<Rightarrow> (json \<times> jtoken list) option" where
  "parse_tokens m st [] = None"
| "parse_tokens m st (t # ts) =
     (case token_step m st t of
        None \<Rightarrow> None
      | Some (Inr v) \<Rightarrow> Some (v, ts)
      | Some (Inl (m', st')) \<Rightarrow> parse_tokens m' st' ts)"

definition json_parse :: "string \<Rightarrow> json option" where
  "json_parse s =
     (case lex s of
        None \<Rightarrow> None
      | Some ts \<Rightarrow> (case parse_tokens Top_Value [] ts of Some (v, []) \<Rightarrow> Some v | _ \<Rightarrow> None))"

subsection \<open>Writing documents\<close>

definition hex_lower :: "nat \<Rightarrow> char" where
  "hex_lower n = (if n < 10 then char_of (48 + n) else char_of (87 + n))"

definition html_safe :: "char \<Rightarrow> bool" where
  "html_safe c \<longleftrightarrow> 32 \<le> (of_char c :: nat) \<and>
     c \<noteq> quote_char \<and> c \<noteq> bslash \<and> c \<noteq> CHR ''<'' \<and> c \<noteq> CHR ''>'' \<and> c \<noteq> CHR ''&''"

definition escape_char :: "char \<Rightarrow> string" where
  "escape_char c =
     (if html_safe c then [c]
      else if c = bslash \<or> c = quote_char then [bslash, c]
      else if c = CHR 0x08 then [bslash, CHR ''b'']
      else if c = CHR 0x0C then [bslash, CHR ''f'']
      else if c = CHR 0x0A then [bslash, CHR ''n'']
      else if c = CHR 0x0D then [bslash, CHR ''r'']
      else if c = CHR 0x09 then [bslash, CHR ''t'']
      else [bslash, CHR ''u'', CHR ''0'', CHR ''0'', hex_lower (of_char c div 16), hex_lower (of_char c mod 16)])"

text \<open>One rune: its escape or its own bytes, and the bytes that follow it.\<close>

definition escape_rune :: "char \<Rightarrow> string \<Rightarrow> string \<times> string" where
  "escape_rune c cs =
     (if (of_char c :: nat) < 128 then (escape_char c, cs)
      else case decode_rune (of_char c) (bytes_of cs) of
        (r, ok, rest) \<Rightarrow>
          let n = length cs - length rest in
          (if \<not> ok then bslash # ''ufffd''
           else if r = 8232 \<or> r = 8233 then bslash # ''u202'' @ [hex_lower (r mod 16)]
           else c # take n cs, drop n cs))"

lemma escape_rune_shorter: "length (snd (escape_rune c cs)) \<le> length cs"
  by (auto simp: escape_rune_def Let_def split: prod.splits)

function escape_string :: "string \<Rightarrow> string" where
  "escape_string [] = []"
| "escape_string (c # cs) = fst (escape_rune c cs) @ escape_string (snd (escape_rune c cs))"
  by pat_completeness auto
termination
  by (relation "measure length") (auto simp: escape_rune_shorter le_imp_less_Suc)

definition print_string :: "string \<Rightarrow> string" where
  "print_string s = quote_char # escape_string s @ [quote_char]"

fun json_print :: "json \<Rightarrow> string" where
  "json_print JNull = ''null''"
| "json_print (JBool b) = (if b then ''true'' else ''false'')"
| "json_print (JNum n) = n"
| "json_print (JStr s) = print_string s"
| "json_print (JArr vs) = CHR ''['' # join_with (CHR '','') (map json_print vs) @ '']''"
| "json_print (JObj ms) =
     CHR ''{'' # join_with (CHR '','') (map (\<lambda>(k, v). print_string k @ CHR '':'' # json_print v) ms) @ ''}''"

subsection \<open>Round trip of strings\<close>

lemma hex_digit_lower: "n < 16 \<Longrightarrow> hex_digit (hex_lower n) = Some n"
  by (simp add: hex_digit_def hex_lower_def Let_def)

lemma hex_digit_0 [simp]: "hex_digit (CHR ''0'') = Some 0"
  by (simp add: hex_digit_def)

lemma lex_escape_u:
  "hex4 a b c d = Some r \<Longrightarrow> \<not> high_surrogate r \<Longrightarrow>
     lex_str (bslash # CHR ''u'' # a # b # c # d # rest) = cons_first (utf8_encode r) (lex_str rest)"
  by (simp add: joined_escape_def)

lemma hex4_code: "n < 256 \<Longrightarrow> hex4 (CHR ''0'') (CHR ''0'') (hex_lower (n div 16)) (hex_lower (n mod 16)) = Some n"
  by (simp add: hex4_def hex_digit_lower)

lemma lex_escape_simple:
  "e \<noteq> CHR ''u'' \<Longrightarrow> simple_escape e = Some x \<Longrightarrow> lex_str (bslash # e # rest) = cons_first [x] (lex_str rest)"
  by simp

lemma lex_str_escape_char:
  assumes "(of_char c :: nat) < 128"
  shows "lex_str (escape_char c @ rest) = cons_first [c] (lex_str rest)"
proof (cases "html_safe c \<or> c \<in> {bslash, quote_char, CHR 0x08, CHR 0x0C, CHR 0x0A, CHR 0x0D, CHR 0x09}")
  case True
  then consider "html_safe c" | "c = bslash" | "c = quote_char" | "c = CHR 0x08" | "c = CHR 0x0C"
    | "c = CHR 0x0A" | "c = CHR 0x0D" | "c = CHR 0x09" by blast
  then show ?thesis
    by cases (simp_all add: escape_char_def html_safe_def simple_escape_def del: lex_escape.simps lex_str.simps
        add: lex_escape_simple, simp)
next
  case False
  have "utf8_encode (of_char c) = [c]" using assms by (simp add: utf8_encode_def)
  moreover have "\<not> high_surrogate (of_char c)" using assms by (simp add: high_surrogate_def)
  moreover have "escape_char c = [bslash, CHR ''u'', CHR ''0'', CHR ''0'', hex_lower (of_char c div 16), hex_lower (of_char c mod 16)]"
    using False by (simp add: escape_char_def)
  ultimately show ?thesis
    using lex_escape_u [OF hex4_code [of "of_char c"], of rest] assms by simp
qed

lemma cons_first_Nil [simp]: "cons_first [] r = r"
  by (cases r) (simp_all add: cons_first_def)

lemma cons_first_append: "cons_first p (cons_first q r) = cons_first (p @ q) r"
  by (cases r) (auto simp: cons_first_def)

lemma lex_str_high:
  "\<forall>b \<in> set bs. 128 \<le> (of_char b :: nat) \<Longrightarrow> lex_str (bs @ rest) = cons_first bs (lex_str rest)"
proof (induction bs)
  case (Cons b bs)
  then have "b \<noteq> quote_char" "b \<noteq> bslash" "\<not> (of_char b :: nat) < 32" by auto
  then show ?case using Cons by (simp add: cons_first_append)
qed simp

lemma rune2_encode:
  assumes "rune2 b rest = Some (r, suf)" "194 \<le> b" "b \<le> 223"
  obtains c where "rest = c # suf" "cont c" "128 \<le> r" "r < 2048" "192 + r div 64 = b" "128 + r mod 64 = c"
proof -
  obtain c where c: "rest = c # suf" "cont c" "r = (b - 192) * 64 + (c - 128)"
    using assms(1) by (cases rest) (auto split: if_splits)
  define i j where "i = b - 192" and "j = c - 128"
  have ij: "b = 192 + i" "c = 128 + j" "j < 64" "2 \<le> i" "i < 32" "r = i * 64 + j"
    using assms(2,3) c by (auto simp: i_def j_def cont_def)
  then have "r div 64 = i" "r mod 64 = j" by simp_all
  then show ?thesis using that c(1,2) ij by simp
qed

lemma divmod_64: "r = q * 64 + k \<Longrightarrow> k < 64 \<Longrightarrow> r div 64 = q \<and> r mod 64 = (k :: nat)"
  by simp

lemma bytes_of_eq_append:
  "bytes_of s = a @ b \<Longrightarrow> \<exists>x y. s = x @ y \<and> bytes_of x = a \<and> bytes_of y = b"
  by (auto simp: bytes_of_def map_eq_append_conv)

lemma rune3_encode:
  assumes "rune3 b rest = Some (r, suf)" "224 \<le> b" "b \<le> 239"
  obtains c d where "rest = c # d # suf" "cont c" "cont d" "2048 \<le> r" "r < 65536" "\<not> (55296 \<le> r \<and> r \<le> 57343)"
    "224 + r div 4096 = b" "128 + r div 64 mod 64 = c" "128 + r mod 64 = d"
proof -
  obtain c d where c: "rest = c # d # suf" "(if b = 224 then 160 else 128) \<le> c"
      "c \<le> (if b = 237 then 159 else 191)" "cont d"
    and r: "r = (b - 224) * 4096 + (c - 128) * 64 + (d - 128)"
    using assms(1) by (induction b rest rule: rune3.induct) (auto split: if_splits)
  define i j k where "i = b - 224" and "j = c - 128" and "k = d - 128"
  have ijk: "b = 224 + i" "c = 128 + j" "d = 128 + k" "i < 16" "j < 64" "k < 64" "r = i * 4096 + j * 64 + k"
    "i = 0 \<Longrightarrow> 32 \<le> j" "i = 13 \<Longrightarrow> j < 32"
    using assms(2,3) c r by (auto simp: i_def j_def k_def cont_def split: if_splits)
  have "r = (i * 64 + j) * 64 + k" using ijk(7) by simp
  then have d1: "r div 64 = i * 64 + j" "r mod 64 = k" using divmod_64 ijk(6) by blast+
  have "r div 4096 = r div 64 div 64" by (simp add: div_mult2_eq [symmetric])
  then have d2: "r div 4096 = i" "r div 64 mod 64 = j" using d1 ijk by simp_all
  have "2048 \<le> r" using ijk(7,8) by (cases "i = 0") auto
  moreover have "\<not> (55296 \<le> r \<and> r \<le> 57343)" using ijk(5,6,7,9) by (cases "i = 13") (simp, linarith)
  moreover have "cont c" using c by (auto simp: cont_def split: if_splits)
  moreover have "r < 65536" using ijk(4-7) by linarith
  ultimately show ?thesis using that [OF c(1) _ c(4)] d1(2) d2 ijk(1-3) by simp
qed

lemma rune4_encode:
  assumes "rune4 b rest = Some (r, suf)" "240 \<le> b" "b \<le> 244"
  obtains c d e where "rest = c # d # e # suf" "cont c" "cont d" "cont e" "65536 \<le> r" "r \<le> 1114111"
    "240 + r div 262144 = b" "128 + r div 4096 mod 64 = c" "128 + r div 64 mod 64 = d" "128 + r mod 64 = e"
proof -
  obtain c d e where c: "rest = c # d # e # suf" "(if b = 240 then 144 else 128) \<le> c"
      "c \<le> (if b = 244 then 143 else 191)" "cont d" "cont e"
    and r: "r = (b - 240) * 262144 + (c - 128) * 4096 + (d - 128) * 64 + (e - 128)"
    using assms(1) by (induction b rest rule: rune4.induct) (auto split: if_splits)
  define i j k l where "i = b - 240" and "j = c - 128" and "k = d - 128" and "l = e - 128"
  have ijk: "b = 240 + i" "c = 128 + j" "d = 128 + k" "e = 128 + l" "i < 5" "j < 64" "k < 64" "l < 64"
    "r = i * 262144 + j * 4096 + k * 64 + l" "i = 0 \<Longrightarrow> 16 \<le> j" "i = 4 \<Longrightarrow> j < 16"
    using assms(2,3) c r by (auto simp: i_def j_def k_def l_def cont_def split: if_splits)
  have "r = ((i * 64 + j) * 64 + k) * 64 + l" using ijk(9) by simp
  then have d1: "r div 64 = (i * 64 + j) * 64 + k" "r mod 64 = l" using divmod_64 ijk(8) by blast+
  have "r div 4096 = r div 64 div 64" "r div 262144 = r div 64 div 64 div 64"
    by (simp_all add: div_mult2_eq [symmetric])
  then have d2: "r div 4096 = i * 64 + j" "r div 262144 = i" "r div 64 mod 64 = k"
    using divmod_64 [OF d1(1)] divmod_64 [of "i * 64 + j" i j] ijk(6,7) by simp_all
  have "65536 \<le> r" using ijk(9,10) by (cases "i = 0") auto
  moreover have "r \<le> 1114111" using ijk(5-9,11) by (cases "i = 4") (simp, linarith)
  moreover have "cont c" using c by (auto simp: cont_def split: if_splits)
  ultimately show ?thesis using that [OF c(1) _ c(4,5)] d1(2) d2 ijk(1-4,6) by simp
qed

text \<open>A valid multi-byte encoding is what \<open>utf8_encode\<close> produces for its rune.\<close>

lemma decode_encode:
  assumes "decode_rune b rest = (r, True, suf)" "128 \<le> b"
  shows "b # rest = bytes_of (utf8_encode r) @ suf \<and> (\<forall>x \<in> set (utf8_encode r). 128 \<le> (of_char x :: nat))"
proof -
  have "multi_rune b rest = Some (r, suf)"
    using assms by (auto simp: decode_rune_def split: option.splits)
  then consider "rune2 b rest = Some (r, suf)" "194 \<le> b" "b \<le> 223"
    | "rune3 b rest = Some (r, suf)" "224 \<le> b" "b \<le> 239"
    | "rune4 b rest = Some (r, suf)" "240 \<le> b" "b \<le> 244"
    by (auto simp: multi_rune_def split: if_splits)
  then show ?thesis
  proof cases
    case 1
    then show ?thesis by (rule rune2_encode) (auto simp: utf8_encode_def cont_def)
  next
    case 2
    then show ?thesis by (rule rune3_encode) (auto simp: utf8_encode_def cont_def)
  next
    case 3
    then show ?thesis by (rule rune4_encode) (auto simp: utf8_encode_def cont_def)
  qed
qed

lemma escape_rune_multi:
  assumes "128 \<le> (of_char c :: nat)" and "decode_rune (of_char c) (bytes_of cs) = (r, True, rest)"
  obtains pre suf where "cs = pre @ suf" "rest = bytes_of suf" "c # pre = utf8_encode r"
    "\<forall>x \<in> set (c # pre). 128 \<le> (of_char x :: nat)"
    "escape_rune c cs = (if r = 8232 \<or> r = 8233 then bslash # ''u202'' @ [hex_lower (r mod 16)] else c # pre, suf)"
proof -
  note d = decode_encode [OF assms(2,1)]
  then have "bytes_of (c # cs) = bytes_of (utf8_encode r) @ rest" by simp
  then obtain e suf where e: "c # cs = e @ suf" "bytes_of e = bytes_of (utf8_encode r)" "bytes_of suf = rest"
    using bytes_of_eq_append by metis
  have inj: "inj (of_char :: char \<Rightarrow> nat)" by (rule inj_of_char)
  have "e = utf8_encode r" using e(2) inj_map_eq_map [OF inj] by (simp add: bytes_of_def)
  moreover have "e \<noteq> []" using calculation by (auto simp: utf8_encode_def split: if_splits)
  ultimately obtain pre where pre: "e = c # pre" "cs = pre @ suf" using e(1) by (metis Cons_eq_append_conv)
  have len: "length cs - length rest = length pre" using pre(2) e(3) by auto
  have "escape_rune c cs = (if r = 8232 \<or> r = 8233 then bslash # ''u202'' @ [hex_lower (r mod 16)] else c # pre, suf)"
    using assms len pre(2) by (simp add: escape_rune_def)
  then show ?thesis using that pre e d \<open>e = utf8_encode r\<close> by simp
qed

lemma lex_str_separator:
  assumes "r = 8232 \<or> r = 8233"
  shows "lex_str ((bslash # ''u202'' @ [hex_lower (r mod 16)]) @ rest) = cons_first (utf8_encode r) (lex_str rest)"
proof -
  have "hex4 (CHR ''2'') (CHR ''0'') (CHR ''2'') (hex_lower (r mod 16)) = Some r"
    using assms by (auto simp: hex4_def hex_digit_lower) (simp_all add: hex_digit_def)
  moreover have "\<not> high_surrogate r" using assms by (auto simp: high_surrogate_def)
  ultimately show ?thesis using lex_escape_u by simp
qed

lemma lex_str_escape:
  "valid_string s \<Longrightarrow> lex_str (escape_string s @ quote_char # rest) = Some (s, rest)"
proof (induction s rule: escape_string.induct)
  case 1
  then show ?case by simp
next
  case (2 c cs)
  show ?case
  proof (cases "(of_char c :: nat) < 128")
    case True
    then have "valid_string cs" using "2.prems" by (simp add: valid_string_def)
    then show ?thesis using "2.IH" True
      by (simp add: escape_rune_def lex_str_escape_char cons_first_Some)
  next
    case False
    obtain r ok suf where d: "decode_rune (of_char c) (bytes_of cs) = (r, ok, suf)" by (metis prod_cases3)
    then have ok: "ok" "utf8_valid suf" using "2.prems" by (simp_all add: valid_string_def)
    then obtain pre suf' where m: "cs = pre @ suf'" "suf = bytes_of suf'" "c # pre = utf8_encode r"
      "\<forall>x \<in> set (c # pre). 128 \<le> (of_char x :: nat)"
      "escape_rune c cs = (if r = 8232 \<or> r = 8233 then bslash # ''u202'' @ [hex_lower (r mod 16)] else c # pre, suf')"
      using escape_rune_multi [of c cs r suf] False d by auto
    have ih: "lex_str (escape_string suf' @ quote_char # rest) = Some (suf', rest)"
      using "2.IH" m(2,5) ok by (simp add: valid_string_def)
    have whole: "utf8_encode r @ suf' = c # cs" using m(1,3) by (metis append_Cons)
    have "lex_str (fst (escape_rune c cs) @ x) = cons_first (utf8_encode r) (lex_str x)" for x
      using lex_str_separator [of r x] lex_str_high [OF m(4), of x] by (simp only: m(3,5) fst_conv split: if_split) blast
    then have "lex_str (fst (escape_rune c cs) @ escape_string suf' @ quote_char # rest) =
        cons_first (utf8_encode r) (Some (suf', rest))" by (simp only: ih)
    also have "\<dots> = Some (c # cs, rest)" using whole by (simp add: cons_first_def)
    finally show ?thesis by (simp only: escape_string.simps m(5) snd_conv append_assoc)
  qed
qed

subsection \<open>Round trip of documents\<close>

fun json_ok :: "json \<Rightarrow> bool" where
  "json_ok JNull = True"
| "json_ok (JBool b) = True"
| "json_ok (JNum n) = (number_ok n \<and> list_all number_char n)"
| "json_ok (JStr s) = valid_string s"
| "json_ok (JArr vs) = list_all json_ok vs"
| "json_ok (JObj ms) = list_all (\<lambda>(k, v). valid_string k \<and> json_ok v) ms"

fun join_tokens :: "jtoken list list \<Rightarrow> jtoken list" where
  "join_tokens [] = []"
| "join_tokens [w] = w"
| "join_tokens (w # ws) = w @ TComma # join_tokens ws"

fun json_tokens :: "json \<Rightarrow> jtoken list" where
  "json_tokens JNull = [TNull]"
| "json_tokens (JBool b) = [TBool b]"
| "json_tokens (JNum n) = [TNum n]"
| "json_tokens (JStr s) = [TStr s]"
| "json_tokens (JArr vs) = TLBrack # join_tokens (map json_tokens vs) @ [TRBrack]"
| "json_tokens (JObj ms) = TLBrace # join_tokens (map (\<lambda>(k, v). TStr k # TColon # json_tokens v) ms) @ [TRBrace]"

text \<open>What follows a value in a printed document.\<close>

definition at_end :: "string \<Rightarrow> bool" where
  "at_end rest \<longleftrightarrow> rest = [] \<or> hd rest \<in> {CHR '','', CHR '']'', CHR ''}''}"

lemma at_end_simps [simp]:
  "at_end []" "at_end (CHR '','' # s)" "at_end (CHR '']'' # s)" "at_end (CHR ''}'' # s)"
  by (simp_all add: at_end_def)

lemma takeWhile_number:
  "list_all number_char n \<Longrightarrow> at_end rest \<Longrightarrow>
     takeWhile number_char (n @ rest) = n \<and> dropWhile number_char (n @ rest) = rest"
  by (cases rest) (auto simp: at_end_def list_all_iff number_char_def dec_digit_def takeWhile_append takeWhile_eq_Nil_iff)

lemma number_start:
  assumes "number_ok n" "list_all number_char n"
  obtains c cs where "n = c # cs" "number_char c" "\<not> json_space c" "punct c = None" "c \<noteq> quote_char"
proof (cases n)
  case Nil
  then show ?thesis using assms by (simp add: number_ok_def)
next
  case (Cons c cs)
  then have "number_char c" using assms by simp
  moreover from this have "\<not> json_space c" "punct c = None" "c \<noteq> quote_char"
    by (auto simp: number_char_def dec_digit_def json_space_def punct_def)
  ultimately show ?thesis using that Cons by blast
qed

definition lex_all :: "jtoken list \<Rightarrow> string \<Rightarrow> jtoken list option" where
  "lex_all ts rest = map_option (\<lambda>us. ts @ us) (lex rest)"

lemma lex_all_Cons: "lex_all (t # ts) rest = map_option (\<lambda>us. t # us) (lex_all ts rest)"
  by (cases "lex rest") (simp_all add: lex_all_def)

text \<open>The text \<open>s\<close> begins with token \<open>t\<close>, after which \<open>rest\<close> is left.\<close>

definition starts :: "string \<Rightarrow> jtoken \<Rightarrow> string \<Rightarrow> bool" where
  "starts s t rest \<longleftrightarrow> (\<exists>c cs. s = c # cs \<and> \<not> json_space c \<and> lex_one c cs = Some (t, rest))"

lemma lex_starts: "starts s t rest \<Longrightarrow> lex s = lex_all [t] rest"
  by (auto simp: starts_def lex_all_def)

lemma starts_number:
  assumes "number_ok n" "list_all number_char n" "at_end rest"
  shows "starts (n @ rest) (TNum n) rest"
proof -
  obtain c cs where c: "n = c # cs" "number_char c" "\<not> json_space c" "punct c = None" "c \<noteq> quote_char"
    using number_start [OF assms(1,2)] .
  have "takeWhile number_char (c # cs @ rest) = n" "dropWhile number_char (cs @ rest) = rest"
    using takeWhile_number [OF assms(2,3)] c(1,2) by simp_all
  then have "lex_one c (cs @ rest) = Some (TNum n, rest)"
    using c assms(1) by (simp add: lex_one_def)
  then show ?thesis using c by (simp add: starts_def)
qed

lemma starts_string: "valid_string s \<Longrightarrow> starts (print_string s @ rest) (TStr s) rest"
  by (simp add: starts_def print_string_def lex_one_def json_space_def punct_def lex_str_escape)

lemma starts_punct: "punct c = Some t \<Longrightarrow> starts (c # rest) t rest"
  by (auto simp: starts_def lex_one_def json_space_def punct_def split: if_splits)

lemma starts_word:
  assumes "at_end rest"
  shows "starts (''null'' @ rest) TNull rest" "starts (''true'' @ rest) (TBool True) rest"
    "starts (''false'' @ rest) (TBool False) rest"
proof -
  have d: "takeWhile letter_char rest = [] \<and> dropWhile letter_char rest = rest"
    using assms by (cases rest) (auto simp: at_end_def letter_char_def)
  have l: "letter_char (CHR ''n'')" "letter_char (CHR ''u'')" "letter_char (CHR ''l'')" "letter_char (CHR ''t'')"
    "letter_char (CHR ''r'')" "letter_char (CHR ''e'')" "letter_char (CHR ''f'')" "letter_char (CHR ''a'')" "letter_char (CHR ''s'')"
    by (simp_all add: letter_char_def)
  show "starts (''null'' @ rest) TNull rest" "starts (''true'' @ rest) (TBool True) rest"
    "starts (''false'' @ rest) (TBool False) rest"
    using d l by (simp_all add: starts_def lex_one_def json_space_def punct_def word_token_def number_char_def dec_digit_def)
qed

lemmas lex_number = starts_number [THEN lex_starts]
lemmas lex_string = starts_string [THEN lex_starts]
lemmas lex_punct = starts_punct [THEN lex_starts]
lemmas lex_word = starts_word [THEN lex_starts]

lemma lex_join:
  assumes "\<And>x r. x \<in> set xs \<Longrightarrow> at_end r \<Longrightarrow> lex (f x @ r) = lex_all (g x) r" and "at_end rest"
  shows "lex (join_with (CHR '','') (map f xs) @ rest) = lex_all (join_tokens (map g xs)) rest"
  using assms(1)
proof (induction xs)
  case Nil
  then show ?case by (cases "lex rest") (simp_all add: lex_all_def)
next
  case (Cons x xs)
  show ?case
  proof (cases xs)
    case Nil
    then show ?thesis using Cons.prems assms(2) by simp
  next
    case (Cons y ys)
    then have "lex (join_with (CHR '','') (map f xs) @ rest) = lex_all (join_tokens (map g xs)) rest"
      using Cons.IH Cons.prems by simp
    moreover have "lex (f x @ CHR '','' # s) = map_option (\<lambda>us. g x @ TComma # us) (lex s)" for s
      using Cons.prems [of x "CHR '','' # s"] lex_punct [of "CHR '',''" TComma s]
      by (simp add: lex_all_def punct_def option.map_comp comp_def)
    ultimately show ?thesis using Cons by (simp add: lex_all_def option.map_comp comp_def)
  qed
qed

lemma lex_print: "json_ok v \<Longrightarrow> at_end rest \<Longrightarrow> lex (json_print v @ rest) = lex_all (json_tokens v) rest"
proof (induction v arbitrary: rest rule: json_print.induct)
  case (5 vs)
  have "lex (join_with (CHR '','') (map json_print vs) @ CHR '']'' # rest) =
      lex_all (join_tokens (map json_tokens vs)) (CHR '']'' # rest)"
    by (rule lex_join) (use 5 in \<open>auto simp: list_all_iff\<close>)
  then show ?case
    using lex_punct [of "CHR ''[''" TLBrack "join_with (CHR '','') (map json_print vs) @ CHR '']'' # rest"]
      lex_punct [of "CHR '']''" TRBrack rest]
    by (simp add: punct_def lex_all_def option.map_comp comp_def)
next
  case (6 ms)
  have step: "lex (print_string k @ CHR '':'' # json_print v @ r) = lex_all (TStr k # TColon # json_tokens v) r"
    if "(k, v) \<in> set ms" "at_end r" for k v r
  proof -
    have "lex (json_print v @ r) = lex_all (json_tokens v) r"
      using 6(1) [OF that(1) refl] 6(2) that by (auto simp: list_all_iff)
    moreover have "valid_string k" using 6(2) that(1) by (auto simp: list_all_iff)
    ultimately show ?thesis
      using lex_string [of k "CHR '':'' # json_print v @ r"] lex_punct [of "CHR '':''" TColon "json_print v @ r"]
      by (simp add: punct_def lex_all_def option.map_comp comp_def)
  qed
  have "lex (join_with (CHR '','') (map (\<lambda>(k, v). print_string k @ CHR '':'' # json_print v) ms) @ CHR ''}'' # rest) =
      lex_all (join_tokens (map (\<lambda>(k, v). TStr k # TColon # json_tokens v) ms)) (CHR ''}'' # rest)"
    by (rule lex_join) (use step in \<open>auto simp: case_prod_beta\<close>)
  then show ?case
    using lex_punct [of "CHR ''{''" TLBrace "join_with (CHR '','') (map (\<lambda>(k, v). print_string k @ CHR '':'' # json_print v) ms) @ CHR ''}'' # rest"]
      lex_punct [of "CHR ''}''" TRBrace rest]
    by (simp add: punct_def lex_all_def option.map_comp comp_def)
qed (use lex_word lex_number lex_string in auto)

text \<open>The token reader continues after a value as \<open>deliver\<close> says.\<close>

definition resume :: "(jmode \<times> jframe list) + json \<Rightarrow> jtoken list \<Rightarrow> (json \<times> jtoken list) option" where
  "resume r ts = (case r of Inr v \<Rightarrow> Some (v, ts) | Inl (m, st) \<Rightarrow> parse_tokens m st ts)"

lemma parse_tokens_Cons:
  "parse_tokens m st (t # ts) = (case token_step m st t of None \<Rightarrow> None | Some r \<Rightarrow> resume r ts)"
  by (simp add: resume_def split: option.splits sum.splits)

lemma parse_elements:
  assumes "\<And>v m st ts. v \<in> set vs \<Longrightarrow> wants_value m \<Longrightarrow>
      parse_tokens m st (json_tokens v @ ts) = resume (deliver v st) ts"
    and "vs \<noteq> []" and "m = Array_Start \<or> m = Array_Value"
  shows "parse_tokens m (In_Array us # st) (join_tokens (map json_tokens vs) @ TRBrack # ts) =
     resume (deliver (JArr (rev us @ vs)) st) ts"
  using assms
proof (induction vs arbitrary: us m)
  case (Cons v vs)
  have m: "wants_value m" using Cons.prems(3) by (auto simp: wants_value_def)
  show ?case
  proof (cases vs)
    case Nil
    then show ?thesis using Cons.prems(1) [OF _ m]
      by (simp add: parse_tokens_Cons resume_def token_step_def wants_value_def)
  next
    case (Cons w ws)
    have "parse_tokens Array_Value (In_Array (v # us) # st) (join_tokens (map json_tokens vs) @ TRBrack # ts) =
        resume (deliver (JArr (rev (v # us) @ vs)) st) ts"
      by (rule Cons.IH) (use Cons.prems(1) Cons in auto)
    then show ?thesis using Cons.prems(1) [OF _ m] Cons
      by (simp add: parse_tokens_Cons resume_def token_step_def wants_value_def)
  qed
qed simp

lemma parse_members:
  assumes "\<And>k v m st ts. (k, v) \<in> set ms \<Longrightarrow> wants_value m \<Longrightarrow>
      parse_tokens m st (json_tokens v @ ts) = resume (deliver v st) ts"
    and "ms \<noteq> []" and "m = Object_Start \<or> m = Object_Key"
  shows "parse_tokens m (In_Object us k0 # st)
       (join_tokens (map (\<lambda>(k, v). TStr k # TColon # json_tokens v) ms) @ TRBrace # ts) =
     resume (deliver (JObj (rev us @ ms)) st) ts"
  using assms
proof (induction ms arbitrary: us m k0)
  case (Cons p ms)
  obtain k v where p: "p = (k, v)" by (cases p)
  have v: "parse_tokens Object_Value st (json_tokens v @ ts) = resume (deliver v st) ts" for st ts
    by (rule Cons.prems(1) [of k]) (simp_all add: p wants_value_def)
  have key: "parse_tokens m (In_Object us k0 # st) (TStr k # TColon # r) =
      parse_tokens Object_Value (In_Object us k # st) r" for r
    using Cons.prems(3) by (auto simp: parse_tokens_Cons resume_def token_step_def wants_value_def)
  show ?case
  proof (cases ms)
    case Nil
    then show ?thesis using key v
      by (simp add: p resume_def) (simp add: parse_tokens_Cons resume_def token_step_def wants_value_def)
  next
    case (Cons q qs)
    have ih: "parse_tokens Object_Key (In_Object ((k, v) # us) k # st)
        (join_tokens (map (\<lambda>(k, v). TStr k # TColon # json_tokens v) ms) @ TRBrace # ts) =
        resume (deliver (JObj (rev ((k, v) # us) @ ms)) st) ts"
    proof (rule Cons.IH)
      show "parse_tokens m st (json_tokens v @ ts) = resume (deliver v st) ts"
        if "(k, v) \<in> set ms" "wants_value m" for k v m st ts
        by (rule Cons.prems(1) [of k]) (use that in simp_all)
    qed (use Cons in simp_all)
    have comma: "parse_tokens Object_Comma (In_Object ((k, v) # us) k # st) (TComma # r) =
        parse_tokens Object_Key (In_Object ((k, v) # us) k # st) r" for r
      by (simp add: parse_tokens_Cons resume_def token_step_def wants_value_def)
    have "join_tokens (map (\<lambda>(k, v). TStr k # TColon # json_tokens v) (p # ms)) =
        TStr k # TColon # json_tokens v @ TComma # join_tokens (map (\<lambda>(k, v). TStr k # TColon # json_tokens v) ms)"
      using Cons by (simp add: p)
    then show ?thesis using ih by (simp del: parse_tokens.simps join_tokens.simps add: key v resume_def [of "Inl _"] comma p)
  qed
qed simp

lemma parse_json_tokens:
  "wants_value m \<Longrightarrow> parse_tokens m st (json_tokens v @ ts) = resume (deliver v st) ts"
proof (induction v arbitrary: m st ts rule: json_tokens.induct)
  case (5 vs)
  show ?case
  proof (cases "vs = []")
    case True
    then show ?thesis using 5(2)
      by (simp del: parse_tokens.simps add: parse_tokens_Cons resume_def token_step_def wants_value_def scalar_of_def)
  next
    case False
    have "parse_tokens Array_Start (In_Array [] # st) (join_tokens (map json_tokens vs) @ TRBrack # ts) =
        resume (deliver (JArr (rev [] @ vs)) st) ts"
      by (rule parse_elements) (use 5(1) False in auto)
    then show ?thesis using 5(2)
      by (simp del: parse_tokens.simps add: parse_tokens_Cons resume_def [of "Inl _"] token_step_def)
  qed
next
  case (6 ms)
  show ?case
  proof (cases "ms = []")
    case True
    then show ?thesis using 6(2)
      by (simp del: parse_tokens.simps add: parse_tokens_Cons resume_def token_step_def wants_value_def scalar_of_def)
  next
    case False
    have "parse_tokens Object_Start (In_Object [] [] # st)
         (join_tokens (map (\<lambda>(k, v). TStr k # TColon # json_tokens v) ms) @ TRBrace # ts) =
        resume (deliver (JObj (rev [] @ ms)) st) ts"
      by (rule parse_members) (use 6(1) False in auto)
    then show ?thesis using 6(2)
      by (simp del: parse_tokens.simps add: parse_tokens_Cons resume_def [of "Inl _"] token_step_def)
  qed
qed (simp_all del: parse_tokens.simps add: parse_tokens_Cons token_step_def scalar_of_def)

text \<open>What the writer produces is read back as the same value.\<close>

lemma parse_print: "json_ok v \<Longrightarrow> json_parse (json_print v) = Some v"
  using lex_print [of v "[]"] parse_json_tokens [of Top_Value "[]" v "[]"]
  by (simp add: json_parse_def lex_all_def resume_def wants_value_def)

subsection \<open>The bytes of a printed document\<close>

lemma decode_rune_prefix:
  assumes "decode_rune b rest = (r, True, suf)"
  obtains pre where "rest = pre @ suf" "\<And>x. decode_rune b (pre @ x) = (r, True, x)"
proof (cases "b < 128")
  case True
  then show ?thesis using assms that [of "[]"] by simp
next
  case False
  then have "multi_rune b rest = Some (r, suf)"
    using assms by (auto simp: decode_rune_def split: option.splits)
  then consider "rune2 b rest = Some (r, suf)" "194 \<le> b" "b \<le> 223"
    | "rune3 b rest = Some (r, suf)" "224 \<le> b" "b \<le> 239"
    | "rune4 b rest = Some (r, suf)" "240 \<le> b" "b \<le> 244"
    by (auto simp: multi_rune_def split: if_splits)
  then show ?thesis
  proof cases
    case 1
    then obtain c where "rest = c # suf" by (rule rune2_encode)
    then show ?thesis using 1 that [of "[c]"] by (simp add: decode_rune_def multi_rune_def split: if_splits)
  next
    case 2
    then obtain c d where "rest = c # d # suf" by (rule rune3_encode)
    then show ?thesis using 2 that [of "[c, d]"] by (simp add: decode_rune_def multi_rune_def split: if_splits)
  next
    case 3
    then obtain c d e where "rest = c # d # e # suf" by (rule rune4_encode)
    then show ?thesis using 3 that [of "[c, d, e]"] by (simp add: decode_rune_def multi_rune_def split: if_splits)
  qed
qed

lemma decode_rune_append:
  "decode_rune b rest = (r, True, suf) \<Longrightarrow> decode_rune b (rest @ x) = (r, True, suf @ x)"
  by (erule decode_rune_prefix) simp

lemma utf8_valid_append: "utf8_valid a \<Longrightarrow> utf8_valid (a @ x) = utf8_valid x"
proof (induction a rule: utf8_valid.induct)
  case (2 b rest)
  obtain r ok suf where d: "decode_rune b rest = (r, ok, suf)" by (metis prod_cases3)
  then have "decode_rune b (rest @ x) = (r, True, suf @ x)" using 2(2) by (auto intro: decode_rune_append)
  then show ?case using 2 d by simp
qed simp

lemma valid_string_append: "valid_string s \<Longrightarrow> valid_string (s @ t) = valid_string t"
  by (simp add: valid_string_def utf8_valid_append)

lemma valid_string_Cons: "(of_char c :: nat) < 128 \<Longrightarrow> valid_string (c # t) = valid_string t"
  by (simp add: valid_string_def)

lemma ascii_valid_append: "ascii_string s \<Longrightarrow> valid_string (s @ t) = valid_string t"
  by (simp add: valid_string_append valid_string_ascii)

lemma hex_lower_ascii: "n < 16 \<Longrightarrow> (of_char (hex_lower n) :: nat) < 128"
  by (simp add: hex_lower_def)

lemma escape_char_ascii: "(of_char c :: nat) < 128 \<Longrightarrow> ascii_string (escape_char c)"
  by (auto simp: escape_char_def ascii_string_def hex_lower_ascii)

lemma escape_string_valid: "valid_string s \<Longrightarrow> valid_string (escape_string s @ t) = valid_string t"
proof (induction s rule: escape_string.induct)
  case (2 c cs)
  show ?case
  proof (cases "(of_char c :: nat) < 128")
    case True
    then show ?thesis using 2
      by (simp add: escape_rune_def ascii_valid_append escape_char_ascii valid_string_Cons)
  next
    case False
    obtain r ok suf where d: "decode_rune (of_char c) (bytes_of cs) = (r, ok, suf)" by (metis prod_cases3)
    then have ok: "ok" "utf8_valid suf" using "2.prems" by (simp_all add: valid_string_def)
    have "128 \<le> (of_char c :: nat)" "decode_rune (of_char c) (bytes_of cs) = (r, True, suf)"
      using False d ok by simp_all
    then obtain pre suf' where m: "cs = pre @ suf'" "suf = bytes_of suf'"
      "escape_rune c cs = (if r = 8232 \<or> r = 8233 then bslash # ''u202'' @ [hex_lower (r mod 16)] else c # pre, suf')"
      by (rule escape_rune_multi)
    obtain q where q: "bytes_of cs = q @ suf" "\<And>x. decode_rune (of_char c) (q @ x) = (r, True, x)"
      using decode_rune_prefix [of "of_char c" "bytes_of cs" r suf] d ok by auto
    then have "q = bytes_of pre" using m(1,2) by simp
    then have "valid_string (c # pre @ x) = valid_string x" for x using q(2) by (simp add: valid_string_def)
    moreover have "valid_string ((bslash # ''u202'' @ [hex_lower (r mod 16)]) @ x) = valid_string x" for x
      by (rule ascii_valid_append) (simp add: ascii_string_def hex_lower_ascii)
    ultimately have "valid_string (fst (escape_rune c cs) @ x) = valid_string x" for x
      by (simp add: m(3))
    moreover have "valid_string (escape_string suf' @ t) = valid_string t"
      using "2.IH" m(2,3) ok by (simp add: valid_string_def)
    ultimately show ?thesis by (simp only: escape_string.simps m(3) snd_conv append_assoc)
  qed
qed simp

lemma print_string_valid: "valid_string s \<Longrightarrow> valid_string (print_string s @ t) = valid_string t"
  by (simp add: print_string_def valid_string_Cons escape_string_valid)

lemma number_char_ascii: "list_all number_char n \<Longrightarrow> ascii_string n"
  by (auto simp: ascii_string_def number_char_def dec_digit_def list_all_iff)

lemma join_with_transparent:
  assumes "\<And>x r. x \<in> set xs \<Longrightarrow> P (x @ r) = P r" and "\<And>r. P (d # r) = P r"
  shows "P (join_with d xs @ r) = P r"
  using assms
proof (induction d xs rule: join_with.induct)
  case (3 d w v va)
  have "P (join_with d (v # va) @ r) = P r" by (rule 3(1)) (use 3(2,3) in auto)
  then show ?case using 3(2) [of w] 3(3) by simp
qed simp_all

lemma json_print_valid: "json_ok v \<Longrightarrow> valid_string (json_print v @ t) = valid_string t"
proof (induction v arbitrary: t rule: json_print.induct)
  case (5 vs)
  have "valid_string (join_with (CHR '','') (map json_print vs) @ x) = valid_string x" for x
    by (rule join_with_transparent) (use 5 in \<open>auto simp: valid_string_Cons list_all_iff\<close>)
  then show ?case by (simp add: valid_string_Cons)
next
  case (6 ms)
  have "valid_string (join_with (CHR '','') (map (\<lambda>(k, v). print_string k @ CHR '':'' # json_print v) ms) @ x) = valid_string x" for x
    by (rule join_with_transparent) (use 6 in \<open>auto simp: valid_string_Cons list_all_iff print_string_valid\<close>)
  then show ?case by (simp add: valid_string_Cons)
qed (simp_all add: valid_string_Cons number_char_ascii ascii_valid_append print_string_valid)

subsection \<open>Go values in a document\<close>

text \<open>
  The conversions \<open>encoding/json\<close> applies to the fields of the structs of the sources: an absent
  member leaves the zero value. Documents with a null are refused before any conversion.
\<close>

fun json_string :: "json \<Rightarrow> string option" where
  "json_string (JStr s) = Some s"
| "json_string _ = None"

fun json_bool :: "json \<Rightarrow> bool option" where
  "json_bool (JBool b) = Some b"
| "json_bool _ = None"

fun json_uint :: "nat \<Rightarrow> json \<Rightarrow> nat option" where
  "json_uint bits (JNum n) = parse_uint bits n"
| "json_uint bits _ = None"

definition json_u64 :: "json \<Rightarrow> u64 option" where
  "json_u64 v = map_option of_nat (json_uint 64 v)"

definition json_u32 :: "json \<Rightarrow> u32 option" where
  "json_u32 v = map_option of_nat (json_uint 32 v)"

definition json_u16 :: "json \<Rightarrow> u16 option" where
  "json_u16 v = map_option of_nat (json_uint 16 v)"

fun json_int :: "json \<Rightarrow> int option" where
  "json_int (JNum n) =
     (case n of
        [] \<Rightarrow> None
      | c # cs \<Rightarrow>
          if c = CHR ''-'' then
            (case parse_uint 64 cs of None \<Rightarrow> None | Some k \<Rightarrow> if k \<le> 2 ^ 63 then Some (- int k) else None)
          else map_option int (parse_uint 63 n))"
| "json_int _ = None"

fun all_some :: "'a option list \<Rightarrow> 'a list option" where
  "all_some [] = Some []"
| "all_some (None # xs) = None"
| "all_some (Some x # xs) = map_option (\<lambda>ys. x # ys) (all_some xs)"

fun json_list :: "(json \<Rightarrow> 'a option) \<Rightarrow> json \<Rightarrow> 'a list option" where
  "json_list f (JArr vs) = all_some (map f vs)"
| "json_list f _ = None"

text \<open>A member of an object, and an object all of whose members are known.\<close>

definition json_member :: "(string \<times> json) list \<Rightarrow> string \<Rightarrow> (json \<Rightarrow> 'a option) \<Rightarrow> 'a \<Rightarrow> 'a option" where
  "json_member ms k f zero = (case map_of ms k of None \<Rightarrow> Some zero | Some v \<Rightarrow> f v)"

fun json_object :: "string list \<Rightarrow> json \<Rightarrow> (string \<times> json) list option" where
  "json_object fields (JObj ms) = (if list_all (\<lambda>(k, v). k \<in> set fields) ms then Some ms else None)"
| "json_object fields _ = None"

definition put_uint :: "nat \<Rightarrow> json" where
  "put_uint n = JNum (format_uint n)"

definition put_int :: "int \<Rightarrow> json" where
  "put_int i = JNum (if i < 0 then CHR ''-'' # format_uint (nat (- i)) else format_uint (nat i))"

text \<open>A nil slice is written as null.\<close>

definition put_list :: "('a \<Rightarrow> json) \<Rightarrow> 'a list option \<Rightarrow> json" where
  "put_list f xs = (case xs of None \<Rightarrow> JNull | Some ys \<Rightarrow> JArr (map f ys))"

lemma hd_format_uint: "0 < n \<Longrightarrow> hd (format_uint n) \<noteq> CHR ''0''"
proof (induction n rule: format_uint.induct)
  case (1 n)
  show ?case
  proof (cases "n < 10")
    case True
    then have "of_char (char_of (48 + n) :: char) \<noteq> (of_char (CHR ''0'') :: nat)" using 1(2) by simp
    then have "char_of (48 + n) \<noteq> CHR ''0''" by metis
    then show ?thesis using True by (subst format_uint.simps) simp
  next
    case False
    then show ?thesis using 1 format_uint_digits [of "n div 10"]
      by (subst format_uint.simps) simp
  qed
qed

lemma takeWhile_digits: "list_all dec_digit s \<Longrightarrow> takeWhile dec_digit s = s \<and> dropWhile dec_digit s = []"
  by (simp add: list_all_iff)

lemma digits_not_minus: "list_all dec_digit s \<Longrightarrow> s \<noteq> [] \<Longrightarrow> hd s \<noteq> CHR ''-''"
  by (cases s) (auto simp: dec_digit_def)

lemma format_uint_single: "hd (format_uint n) = CHR ''0'' \<Longrightarrow> length (format_uint n) = 1"
  using hd_format_uint [of n] by (cases "n = 0") (simp_all add: format_uint.simps)

lemma format_uint_number: "number_ok (format_uint n) \<and> list_all number_char (format_uint n)"
proof -
  have d: "list_all dec_digit (format_uint n)" "format_uint n \<noteq> []" using format_uint_digits by simp_all
  obtain c cs where c: "format_uint n = c # cs" using d(2) by (cases "format_uint n") auto
  have "c \<noteq> CHR ''-''" using digits_not_minus [OF d] c by simp
  then have "number_ok (format_uint n)"
    using takeWhile_digits [OF d(1)] format_uint_single [of n] d(2) c
    by (simp add: number_ok_def fraction_ok_def)
  moreover have "list_all number_char (format_uint n)" using d(1) by (auto simp: list_all_iff number_char_def)
  ultimately show ?thesis by simp
qed

lemma put_uint_ok [simp]: "json_ok (put_uint n)"
  by (simp add: put_uint_def format_uint_number)

lemma minus_number: "number_ok (CHR ''-'' # format_uint n)"
  using format_uint_number [of n] format_uint_digits [of n] digits_not_minus [of "format_uint n"]
  by (cases "format_uint n") (auto simp: number_ok_def Let_def)

lemma put_int_ok [simp]: "json_ok (put_int i)"
  using format_uint_number minus_number by (simp add: put_int_def number_char_def)

lemma json_uint_put: "n < 2 ^ bits \<Longrightarrow> json_uint bits (put_uint n) = Some n"
  by (simp add: put_uint_def parse_format_uint)

lemma json_u64_put [simp]: "json_u64 (put_uint (unat x)) = Some x"
  using json_uint_put [of "unat x" 64] unsigned_less [of x, where 'a = nat] by (simp add: json_u64_def)

lemma json_u32_put [simp]: "json_u32 (put_uint (unat x)) = Some x"
  using json_uint_put [of "unat x" 32] unsigned_less [of x, where 'a = nat] by (simp add: json_u32_def)

lemma json_u16_put [simp]: "json_u16 (put_uint (unat x)) = Some x"
  using json_uint_put [of "unat x" 16] unsigned_less [of x, where 'a = nat] by (simp add: json_u16_def)

lemma json_int_put: "- (2 ^ 63) \<le> i \<Longrightarrow> i < 2 ^ 63 \<Longrightarrow> json_int (put_int i) = Some i"
proof (cases "i < 0")
  case True
  assume "- (2 ^ 63) \<le> i"
  then have "nat (- i) \<le> 2 ^ 63" by simp
  then show ?thesis using True parse_format_uint [of "nat (- i)" 64] by (simp add: put_int_def)
next
  case False
  assume "i < 2 ^ 63"
  then have "nat i < 2 ^ 63" by simp
  moreover obtain c cs where c: "format_uint (nat i) = c # cs" "c \<noteq> CHR ''-''"
    using format_uint_digits [of "nat i"] digits_not_minus [of "format_uint (nat i)"] by (cases "format_uint (nat i)") auto
  ultimately show ?thesis using False parse_format_uint [of "nat i" 63] by (simp add: put_int_def)
qed

lemma all_some_map: "(\<And>x. x \<in> set xs \<Longrightarrow> f (g x) = Some x) \<Longrightarrow> all_some (map f (map g xs)) = Some xs"
  by (induction xs) simp_all

lemma all_some_iff: "all_some xs = Some ys \<longleftrightarrow> xs = map Some ys"
  by (induction xs arbitrary: ys rule: all_some.induct) auto

lemma json_list_put:
  "(\<And>x. x \<in> set xs \<Longrightarrow> f (g x) = Some x) \<Longrightarrow> json_list f (JArr (map g xs)) = Some xs"
  by (simp add: all_some_map del: map_map)

subsection \<open>Plain strings\<close>

text \<open>A string of ordinary ASCII characters is written as it is.\<close>

lemma escape_string_plain:
  "list_all (\<lambda>c. html_safe c \<and> (of_char c :: nat) < 128) s \<Longrightarrow> escape_string s = s"
  by (induction s rule: escape_string.induct) (auto simp: escape_rune_def escape_char_def)

lemma print_string_plain:
  "list_all (\<lambda>c. html_safe c \<and> (of_char c :: nat) < 128) s \<Longrightarrow> print_string s = quote_char # s @ [quote_char]"
  by (simp add: print_string_def escape_string_plain)

subsection \<open>Lengths\<close>

lemma length_format_uint: "n < 10 ^ k \<Longrightarrow> 0 < k \<Longrightarrow> length (format_uint n) \<le> k"
proof (induction k arbitrary: n)
  case (Suc k)
  show ?case
  proof (cases "n < 10")
    case True
    then show ?thesis by (subst format_uint.simps) simp
  next
    case False
    then have "0 < k" using Suc.prems(1) by (cases k) auto
    moreover have "n div 10 < 10 ^ k" using Suc.prems(1) by (simp add: less_mult_imp_div_less mult.commute)
    ultimately show ?thesis using Suc.IH [of "n div 10"] False by (subst format_uint.simps) simp
  qed
qed simp

lemma length_put_u64: "length (json_print (put_uint (unat (x :: u64)))) \<le> 20"
proof -
  have "unat x < 2 ^ 64" using unsigned_less [of x, where 'a = nat] by simp
  then have "unat x < 10 ^ 20" by simp
  then show ?thesis using length_format_uint [of "unat x" 20] by (simp add: put_uint_def)
qed

lemma length_put_u32: "length (json_print (put_uint (unat (x :: u32)))) \<le> 10"
proof -
  have "unat x < 2 ^ 32" using unsigned_less [of x, where 'a = nat] by simp
  then have "unat x < 10 ^ 10" by simp
  then show ?thesis using length_format_uint [of "unat x" 10] by (simp add: put_uint_def)
qed

end
