(* ===== verification/Config_Json.thy ===== *)
theory Config_Json
  imports Json_Text "HOL-Library.Monad_Syntax"
begin

section \<open>Strict configuration documents\<close>

text \<open>
  The model of \<open>internal/configjson\<close>: the bounded reader every persistent document goes
  through. It reads a bounded UTF-8 text, refuses unpaired surrogate escapes, nulls, duplicate
  and unknown keys, deep nesting and trailing text, and then fills the target struct. The
  lemmas give the conditions on which a document is accepted and show that every acceptable
  value tree survives being written and read.
\<close>

subsection \<open>Surrogate escapes\<close>

text \<open>
  The bytes after a backslash inside a string: what is left once the escape has been stepped
  over, or \<open>None\<close> where \<open>validSurrogates\<close> answers false.
\<close>

fun skip_unicode :: "string \<Rightarrow> string option" where
  "skip_unicode (h1 # h2 # h3 # h4 # rest) =
     (case hex4 h1 h2 h3 h4 of
        None \<Rightarrow> None
      | Some v \<Rightarrow>
          if low_surrogate v then None
          else if high_surrogate v then map_option snd (low_escape rest)
          else Some rest)"
| "skip_unicode _ = None"

fun skip_escape :: "string \<Rightarrow> string option" where
  "skip_escape [] = None"
| "skip_escape (e # es) = (if e \<noteq> CHR ''u'' then Some es else skip_unicode es)"

lemma skip_unicode_shorter: "skip_unicode cs = Some rest \<Longrightarrow> length rest < length cs"
  by (induction cs rule: skip_unicode.induct)
    (auto split: option.splits if_splits dest!: low_escape_shorter)

lemma skip_escape_shorter: "skip_escape cs = Some rest \<Longrightarrow> length rest < length cs"
  by (cases cs) (auto split: if_splits dest: skip_unicode_shorter)

function valid_surrogates :: "bool \<Rightarrow> string \<Rightarrow> bool" where
  "valid_surrogates in_string [] = True"
| "valid_surrogates in_string (c # cs) =
     (if c = quote_char then valid_surrogates (\<not> in_string) cs
      else if \<not> in_string \<or> c \<noteq> bslash then valid_surrogates in_string cs
      else (case skip_escape cs of None \<Rightarrow> False | Some rest \<Rightarrow> valid_surrogates in_string rest))"
  by pat_completeness auto
termination
  by (relation "measure (length \<circ> snd)") (auto dest: skip_escape_shorter)

subsection \<open>The scan\<close>

text \<open>The loop over the keys of an object; \<open>None\<close> is the nil key set of \<open>DecodeEnvelope\<close>.\<close>

fun scan_keys :: "string list option \<Rightarrow> string list \<Rightarrow> string list \<Rightarrow> bool" where
  "scan_keys keys seen [] = True"
| "scan_keys keys seen (k # ks) =
     (if k \<in> set seen \<or> (case keys of None \<Rightarrow> False | Some allowed \<Rightarrow> k \<notin> set allowed) then False
      else scan_keys keys (k # seen) ks)"

fun scan_value :: "int \<Rightarrow> int \<Rightarrow> string list option \<Rightarrow> json \<Rightarrow> bool" where
  "scan_value depth max_depth keys JNull = False"
| "scan_value depth max_depth keys (JArr vs) =
     (depth \<le> max_depth \<and> list_all (scan_value (depth + 1) max_depth keys) vs)"
| "scan_value depth max_depth keys (JObj ms) =
     (depth \<le> max_depth \<and> scan_keys keys [] (map fst ms) \<and>
      list_all (\<lambda>(k, v). scan_value (depth + 1) max_depth keys v) ms)"
| "scan_value depth max_depth keys v = (depth \<le> max_depth)"

subsection \<open>Decode\<close>

definition config_text :: "reader \<Rightarrow> int \<Rightarrow> string option" where
  "config_text input max_bytes =
     (case read_limited (nat max_bytes + 1) input of
        None \<Rightarrow> None
      | Some data \<Rightarrow>
          if int (length data) > max_bytes \<or> \<not> valid_string data \<or> \<not> valid_surrogates False data then None
          else Some data)"

definition config_decode ::
  "(json \<Rightarrow> 'a option) \<Rightarrow> reader \<Rightarrow> int \<Rightarrow> int \<Rightarrow> string list option \<Rightarrow> 'a option" where
  "config_decode target input max_bytes max_depth keys =
     (if max_bytes \<le> 0 \<or> max_depth \<le> 0 \<or> keys = None then None
      else case config_text input max_bytes of
        None \<Rightarrow> None
      | Some data \<Rightarrow> (case json_parse data of
          None \<Rightarrow> None
        | Some v \<Rightarrow> if scan_value 0 max_depth keys v then target v else None))"

subsection \<open>Accepted documents\<close>

lemma scan_keys_iff:
  "scan_keys keys seen ks \<longleftrightarrow> distinct ks \<and> set ks \<inter> set seen = {} \<and>
     (\<forall>allowed. keys = Some allowed \<longrightarrow> set ks \<subseteq> set allowed)"
  by (induction keys seen ks rule: scan_keys.induct) (auto split: option.splits)

lemma low_escape_u: "low_escape (c # cs) \<noteq> None \<Longrightarrow> c = bslash"
  by (induction "c # cs" rule: low_escape.induct) (auto split: if_splits)

lemma surrogates_plain:
  "c \<noteq> quote_char \<Longrightarrow> c \<noteq> bslash \<Longrightarrow> valid_surrogates b (c # cs) = valid_surrogates b cs"
  by simp

lemma surrogates_plain_append:
  "quote_char \<notin> set s \<Longrightarrow> bslash \<notin> set s \<Longrightarrow> valid_surrogates b (s @ t) = valid_surrogates b t"
  by (induction s) auto

lemma surrogates_u:
  "hex4 h1 h2 h3 h4 = Some v \<Longrightarrow> \<not> low_surrogate v \<Longrightarrow> \<not> high_surrogate v \<Longrightarrow>
     valid_surrogates True (bslash # CHR ''u'' # h1 # h2 # h3 # h4 # t) = valid_surrogates True t"
  by simp

lemma surrogates_escape_char:
  assumes "(of_char c :: nat) < 128"
  shows "valid_surrogates True (escape_char c @ t) = valid_surrogates True t"
proof (cases "html_safe c \<or> c \<in> {bslash, quote_char, CHR 0x08, CHR 0x0C, CHR 0x0A, CHR 0x0D, CHR 0x09}")
  case True
  then consider "html_safe c" | "c = bslash" | "c = quote_char" | "c = CHR 0x08" | "c = CHR 0x0C"
    | "c = CHR 0x0A" | "c = CHR 0x0D" | "c = CHR 0x09" by blast
  then show ?thesis by cases (simp_all add: escape_char_def html_safe_def)
next
  case False
  have "escape_char c = [bslash, CHR ''u'', CHR ''0'', CHR ''0'', hex_lower (of_char c div 16), hex_lower (of_char c mod 16)]"
    using False by (simp add: escape_char_def)
  moreover have "\<not> high_surrogate (of_char c)" "\<not> low_surrogate (of_char c)"
    using assms by (simp_all add: high_surrogate_def low_surrogate_def)
  ultimately show ?thesis
    using surrogates_u [OF hex4_code [of "of_char c"], of t] assms by simp
qed

lemma surrogates_separator:
  assumes "r = 8232 \<or> r = 8233"
  shows "valid_surrogates True ((bslash # ''u202'' @ [hex_lower (r mod 16)]) @ t) = valid_surrogates True t"
proof -
  have "hex4 (CHR ''2'') (CHR ''0'') (CHR ''2'') (hex_lower (r mod 16)) = Some r"
    using assms by (auto simp: hex4_def hex_digit_lower) (simp_all add: hex_digit_def)
  moreover have "\<not> high_surrogate r" "\<not> low_surrogate r"
    using assms by (auto simp: high_surrogate_def low_surrogate_def)
  ultimately show ?thesis using surrogates_u by simp
qed

lemma surrogates_escape_string:
  "valid_string s \<Longrightarrow> valid_surrogates True (escape_string s @ t) = valid_surrogates True t"
proof (induction s rule: escape_string.induct)
  case (2 c cs)
  show ?case
  proof (cases "(of_char c :: nat) < 128")
    case True
    then show ?thesis using 2 surrogates_escape_char [OF True]
      by (simp add: escape_rune_def valid_string_Cons)
  next
    case False
    obtain r ok suf where d: "decode_rune (of_char c) (bytes_of cs) = (r, ok, suf)" by (metis prod_cases3)
    then have ok: "ok" "utf8_valid suf" using "2.prems" by (simp_all add: valid_string_def)
    have "128 \<le> (of_char c :: nat)" "decode_rune (of_char c) (bytes_of cs) = (r, True, suf)"
      using False d ok by simp_all
    then obtain pre suf' where m: "suf = bytes_of suf'" "\<forall>x \<in> set (c # pre). 128 \<le> (of_char x :: nat)"
      "escape_rune c cs = (if r = 8232 \<or> r = 8233 then bslash # ''u202'' @ [hex_lower (r mod 16)] else c # pre, suf')"
      by (rule escape_rune_multi)
    have "quote_char \<notin> set (c # pre)" "bslash \<notin> set (c # pre)" using m(2) by force+
    then have "valid_surrogates True ((c # pre) @ x) = valid_surrogates True x" for x
      by (rule surrogates_plain_append)
    then have "valid_surrogates True (fst (escape_rune c cs) @ x) = valid_surrogates True x" for x
      using surrogates_separator [of r x] by (simp only: m(3) fst_conv split: if_split) blast
    moreover have "valid_surrogates True (escape_string suf' @ t) = valid_surrogates True t"
      using "2.IH" m(1,3) ok by (simp add: valid_string_def)
    ultimately show ?thesis by (simp only: escape_string.simps m(3) snd_conv append_assoc)
  qed
qed simp

lemma surrogates_print_string:
  "valid_string s \<Longrightarrow> valid_surrogates False (print_string s @ t) = valid_surrogates False t"
  using surrogates_escape_string [of s "quote_char # t"] by (simp add: print_string_def)

lemma number_surrogates:
  "list_all number_char n \<Longrightarrow> valid_surrogates b (n @ t) = valid_surrogates b t"
  by (rule surrogates_plain_append) (auto simp: number_char_def dec_digit_def list_all_iff)

lemma json_print_surrogates: "json_ok v \<Longrightarrow> valid_surrogates False (json_print v @ t) = valid_surrogates False t"
proof (induction v arbitrary: t rule: json_print.induct)
  case (5 vs)
  have "valid_surrogates False (join_with (CHR '','') (map json_print vs) @ x) = valid_surrogates False x" for x
    by (rule join_with_transparent) (use 5 in \<open>auto simp: list_all_iff\<close>)
  then show ?case by simp
next
  case (6 ms)
  have "valid_surrogates False (join_with (CHR '','') (map (\<lambda>(k, v). print_string k @ CHR '':'' # json_print v) ms) @ x) =
      valid_surrogates False x" for x
    by (rule join_with_transparent) (use 6 in \<open>auto simp: list_all_iff surrogates_print_string\<close>)
  then show ?case by simp
qed (simp_all add: number_surrogates surrogates_print_string)

text \<open>A failing reader, and the round trip through the strict reader.\<close>

lemma config_decode_fails: "config_decode target (bs, True) mb md keys = None"
  by (auto simp: config_decode_def config_text_def read_limited_def split: option.splits if_splits)

lemma config_decode_print:
  assumes "json_ok v" "scan_value 0 md keys v" "int (length (json_print v)) \<le> mb" "0 < mb" "0 < md" "keys \<noteq> None"
  shows "config_decode target (reader_of (json_print v)) mb md keys = target v"
proof -
  have "read_limited (nat mb + 1) (reader_of (json_print v)) = Some (json_print v)"
    by (rule read_limited_whole) (use assms(3,4) in linarith)
  moreover have "valid_string (json_print v)"
    using json_print_valid [OF assms(1), of "[]"] by (simp add: valid_string_def)
  moreover have "valid_surrogates False (json_print v)" using json_print_surrogates [OF assms(1), of "[]"] by simp
  ultimately have "config_text (reader_of (json_print v)) mb = Some (json_print v)"
    using assms(3) by (simp add: config_text_def)
  then show ?thesis using assms by (auto simp: config_decode_def parse_print)
qed

lemma config_decode_print_cases:
  assumes "json_ok v" "scan_value 0 md keys v"
  shows "config_decode target (reader_of (json_print v)) mb md keys \<in> {None, target v}"
proof (cases "int (length (json_print v)) \<le> mb \<and> 0 < mb \<and> 0 < md \<and> keys \<noteq> None")
  case True
  then show ?thesis using config_decode_print [OF assms, of mb target] by blast
next
  case False
  have "config_text (reader_of (json_print v)) mb = None" if "mb < int (length (json_print v))"
    using that by (auto simp: config_text_def read_limited_def reader_of_def)
  then show ?thesis using False by (auto simp: config_decode_def not_le)
qed

end
