(* ===== verification/Journal_Store.thy ===== *)
theory Journal_Store
  imports Revision_Store
begin

section \<open>Documents that evolve along a transition relation\<close>

text \<open>
  The account store and the two provisioning journals write through the revision store and
  expose only typed transitions. This theory holds what they share. The documents that may be
  found on the disk, now or after a power cut, are \<open>possible\<close>; a step of the program
  \<open>evolves\<close> them when each document possible afterwards is reached by transitions from one
  possible before. The lemmas say that commits of allowed transitions, and calls that leave
  the directory alone, evolve the document.
\<close>

text \<open>\<open>ctx.Err()\<close> may change between two reads, so reading it is a step of the world.\<close>

type_synonym 'w reading_ctx = "'w \<Rightarrow> ctx_error option \<times> 'w"

definition possible ::
  "('w \<Rightarrow> string \<Rightarrow> string option) \<Rightarrow> ('w \<Rightarrow> string \<Rightarrow> string option set) \<Rightarrow> 'd codec \<Rightarrow> 'w \<Rightarrow> 'd option set" where
  "possible dv cr C w = insert (doc_at dv C w) (crash_docs cr C w)"

definition evolves ::
  "('w \<Rightarrow> string \<Rightarrow> string option) \<Rightarrow> ('w \<Rightarrow> string \<Rightarrow> string option set) \<Rightarrow> 'd codec \<Rightarrow>
   ('d option \<Rightarrow> 'd option \<Rightarrow> bool) \<Rightarrow> 'w \<Rightarrow> 'w \<Rightarrow> bool" where
  "evolves dv cr C R w w' \<longleftrightarrow> (\<forall>d' \<in> possible dv cr C w'. \<exists>d \<in> possible dv cr C w. R\<^sup>*\<^sup>* d d')"

lemma evolves_refl [simp]: "evolves dv cr C R w w"
  by (auto simp: evolves_def)

lemma evolves_trans: "evolves dv cr C R w w' \<Longrightarrow> evolves dv cr C R w' w'' \<Longrightarrow> evolves dv cr C R w w''"
  unfolding evolves_def by (meson rtranclp_trans)

text \<open>Every document a world may hold is the start or reached from it.\<close>

definition reached :: "('d option \<Rightarrow> 'd option \<Rightarrow> bool) \<Rightarrow> 'd option \<Rightarrow> 'd option set" where
  "reached R d = {d'. R\<^sup>*\<^sup>* d d'}"

lemma evolves_reached:
  "evolves dv cr C R w w' \<Longrightarrow> possible dv cr C w \<subseteq> reached R d \<Longrightarrow> possible dv cr C w' \<subseteq> reached R d"
  unfolding evolves_def reached_def by (blast intro: rtranclp_trans)

context store_env
begin

lemma doc_valid: "doc_at dv C w = Some d \<Longrightarrow> codec_validate C d \<and> codec_revision C d \<noteq> 0"
  by (auto simp: doc_at_def split: option.splits dest!: decode_valid)

lemma possible_valid: "Some d \<in> possible dv cr C w \<Longrightarrow> codec_validate C d"
  by (auto simp: possible_def doc_at_def crash_docs_def split: option.splits dest: sym dest!: decode_valid)

lemma keeps_doc: "keeps dv syn cr {} w w' \<Longrightarrow> doc_at dv C w' = doc_at dv C w"
  by (simp add: keeps_def doc_at_def)

lemma keeps_pending_doc:
  assumes "keeps dv syn cr {codec_pending_name C} w w'"
  shows "doc_at dv C w' = doc_at dv C w \<and> crash_docs cr C w' \<subseteq> crash_docs cr C w"
proof -
  have "dv w' (codec_current_name C) = dv w (codec_current_name C)"
    "cr w' (codec_current_name C) \<subseteq> cr w (codec_current_name C)"
    using assms names_differ by (auto simp: keeps_def)
  then show ?thesis by (auto simp: doc_at_def crash_docs_def)
qed

lemma keeps_evolves: "keeps dv syn cr {} w w' \<Longrightarrow> evolves dv cr C R w w'"
  using keeps_pending_doc [OF keeps_mono [of dv syn cr "{}" w w' "{codec_pending_name C}"]]
  by (auto simp: evolves_def possible_def)

lemma load_keeps:
  assumes "store_load K s w = (r, w')" "store_codec s = C"
  shows "keeps dv syn cr {} w w' \<and> (\<forall>d. r = Inr d \<longrightarrow> doc_at dv C w' = Some d \<and> store_check s = None)"
proof (cases "store_check s")
  case (Some e)
  then show ?thesis using assms by (auto simp: store_load_def)
next
  case None
  then have "load_current K s w = (r, w')" using assms by (simp add: store_load_def)
  from load_current_spec [OF this assms(2)] show ?thesis using None keeps_doc by metis
qed

lemma store_close_keeps: "store_close K s w = (e, s', w') \<Longrightarrow> keeps dv syn cr {} w w'"
  using close_dir by (fastforce simp: store_close_def split: if_splits prod.splits)

text \<open>What a commit of an allowed transition does.\<close>

lemma commit_evolves:
  assumes c: "store_commit K s expected x w = (r, s', w')" and s: "store_codec s = C"
    and R: "expected \<noteq> - 1 \<Longrightarrow> codec_revision C x = expected + 1 \<Longrightarrow> (doc_at dv C w = None \<and> expected = 0 \<or>
       (\<exists>d. doc_at dv C w = Some d \<and> codec_revision C d = expected \<and>
         (\<forall>t. codec_transition C = Some t \<longrightarrow> t d x))) \<Longrightarrow> R (doc_at dv C w) (Some x)"
  shows "evolves dv cr C R w w' \<and> store_codec s' = C \<and>
    (r = None \<longrightarrow> doc_at dv C w' = Some x \<and> settled dv cr C w' \<and> s' = s \<and>
       expected \<noteq> - 1 \<and> codec_revision C x = expected + 1) \<and>
    (r \<noteq> None \<longrightarrow> doc_at dv C w' \<in> {doc_at dv C w, Some x})"
proof -
  consider (ok) "r = None" "s' = s" "R (doc_at dv C w) (Some x)" "doc_at dv C w' = Some x" "settled dv cr C w'" "expected \<noteq> - 1"
      "codec_revision C x = expected + 1"
    | (unc) "r = Some ErrUncertain" "s' = s\<lparr>store_uncertain := True\<rparr>" "R (doc_at dv C w) (Some x)"
      "doc_at dv C w' \<in> {doc_at dv C w, Some x}" "crash_docs cr C w' \<subseteq> crash_docs cr C w \<union> {Some x}"
    | (err) "r \<noteq> None" "s' = s" "keeps dv syn cr {codec_pending_name C} w w'"
    using store_commit_spec [OF c s] R by blast
  then show ?thesis
  proof cases
    case ok
    then have "possible dv cr C w' = {Some x}"
      using settled_crash_docs [of dv cr C w'] by (auto simp: possible_def)
    then show ?thesis using ok s by (auto simp: evolves_def possible_def)
  next
    case unc
    have sub: "possible dv cr C w' \<subseteq> possible dv cr C w \<union> {Some x}"
      unfolding possible_def using unc(4,5) by blast
    have "evolves dv cr C R w w'" unfolding evolves_def
    proof
      fix d' assume "d' \<in> possible dv cr C w'"
      then have "d' \<in> possible dv cr C w \<or> d' = Some x" using sub by blast
      then show "\<exists>d \<in> possible dv cr C w. R\<^sup>*\<^sup>* d d'"
      proof
        assume "d' = Some x"
        then show ?thesis using unc(3) by (intro bexI [of _ "doc_at dv C w"]) (auto simp: possible_def)
      qed blast
    qed
    then show ?thesis using unc s by simp
  next
    case err
    then show ?thesis using keeps_pending_doc [OF err(3)] s by (auto simp: evolves_def possible_def)
  qed
qed

lemma commit_edge:
  assumes c: "store_commit K s expected x w = (r, s', w')" and s: "store_codec s = C"
    and R: "expected \<noteq> - 1 \<Longrightarrow> R (doc_at dv C w) (Some x)"
  shows "evolves dv cr C R w w' \<and> store_codec s' = C \<and>
    (r = None \<longrightarrow> doc_at dv C w' = Some x \<and> settled dv cr C w' \<and> s' = s \<and>
       expected \<noteq> - 1 \<and> codec_revision C x = expected + 1) \<and>
    (r \<noteq> None \<longrightarrow> doc_at dv C w' \<in> {doc_at dv C w, Some x})"
  by (rule commit_evolves [where R = R, OF c s]) (rule R)

lemma commit_first:
  assumes c: "store_commit K s 0 x w = (r, s', w')" and s: "store_codec s = C" and R: "R None (Some x)"
  shows "evolves dv cr C R w w' \<and> store_codec s' = C \<and>
    (r = None \<longrightarrow> doc_at dv C w' = Some x \<and> settled dv cr C w' \<and> s' = s \<and> codec_revision C x = 1)"
proof -
  have "R (doc_at dv C w) (Some x)" if "doc_at dv C w = None \<and> (0 :: u64) = 0 \<or>
      (\<exists>d. doc_at dv C w = Some d \<and> codec_revision C d = 0 \<and> (\<forall>t. codec_transition C = Some t \<longrightarrow> t d x))"
    using that R by (auto simp: doc_at_def split: option.splits dest!: decode_valid)
  from commit_evolves [where R = R, OF c s, OF this] show ?thesis by simp
qed

end

subsection \<open>A host beside the directory\<close>

text \<open>
  Programs that run native commands act on more than the directory. \<open>beside K\<close> is the kernel
  \<open>K\<close> of a directory in a world that also has native state; it keeps the contract.
\<close>

definition aside :: "('w \<Rightarrow> 'a \<times> 'w) \<Rightarrow> 'n \<times> 'w \<Rightarrow> 'a \<times> 'n \<times> 'w" where
  "aside f x = (case f (snd x) of (r, w') \<Rightarrow> (r, fst x, w'))"

definition beside :: "'w kernel \<Rightarrow> ('n \<times> 'w) kernel" where
  "beside K = \<lparr>k_geteuid = k_geteuid K,
     k_open_dir = (\<lambda>d. aside (k_open_dir K d)), k_fstat_dir = aside (k_fstat_dir K),
     k_flock = aside (k_flock K), k_close_dir = aside (k_close_dir K),
     k_fsync_dir = aside (k_fsync_dir K), k_fstatat = (\<lambda>n. aside (k_fstatat K n)),
     k_openat = (\<lambda>b n. aside (k_openat K b n)), k_fstat = (\<lambda>fd. aside (k_fstat K fd)),
     k_read = (\<lambda>fd. aside (k_read K fd)), k_fsync = (\<lambda>fd. aside (k_fsync K fd)),
     k_close = (\<lambda>fd. aside (k_close K fd)), k_unlinkat = (\<lambda>n. aside (k_unlinkat K n)),
     k_create = (\<lambda>n. aside (k_create K n)), k_write = (\<lambda>fd s. aside (k_write K fd s)),
     k_rename = (\<lambda>p q. aside (k_rename K p q))\<rparr>"

lemma aside_iff: "aside f x = (r, y) \<longleftrightarrow> f (snd x) = (r, snd y) \<and> fst y = fst x"
  by (cases "f (snd x)"; cases y) (auto simp: aside_def)

lemma keeps_beside:
  "keeps (\<lambda>x. dv (snd x)) (\<lambda>x. syn (snd x)) (\<lambda>x. cr (snd x)) X x y = keeps dv syn cr X (snd x) (snd y)"
  by (simp add: keeps_def)

context posix_dir
begin

lemma beside_contract:
  "posix_dir (beside K) (\<lambda>x. dv (snd x)) (\<lambda>x. fv (snd x)) (\<lambda>x. syn (snd x)) (\<lambda>x. cr (snd x))"
  by (unfold_locales, simp_all only: beside_def kernel.simps aside_iff keeps_beside)
    (blast dest: open_dir fstat_dir flock close_dir fsync_dir fstatat openat fstat read fsync close unlinkat create write_data rename)+

end

abbreviation host_kernel :: "('n \<times> disk) kernel" where "host_kernel \<equiv> beside disk_kernel"

abbreviation host_files :: "'n \<times> disk \<Rightarrow> string \<Rightarrow> string option" where "host_files \<equiv> \<lambda>x. dk_files (snd x)"
abbreviation host_fds :: "'n \<times> disk \<Rightarrow> nat \<Rightarrow> string option" where "host_fds \<equiv> \<lambda>x. dk_fds (snd x)"
abbreviation host_synced :: "'n \<times> disk \<Rightarrow> string \<Rightarrow> bool" where "host_synced \<equiv> \<lambda>x. dk_synced (snd x)"
abbreviation host_crash :: "'n \<times> disk \<Rightarrow> string \<Rightarrow> string option set" where "host_crash \<equiv> \<lambda>x. dk_crash (snd x)"

interpretation host_dir: posix_dir host_kernel host_files host_fds host_synced host_crash
  by (rule disk_sim.beside_contract)

subsection \<open>Runs without faults\<close>

text \<open>The operations of the revision store act on the directory only.\<close>

lemma beside_simps [simp]:
  "k_geteuid (beside K) = k_geteuid K" "k_open_dir (beside K) d = aside (k_open_dir K d)"
  "k_fstat_dir (beside K) = aside (k_fstat_dir K)" "k_flock (beside K) = aside (k_flock K)"
  "k_close_dir (beside K) = aside (k_close_dir K)" "k_fsync_dir (beside K) = aside (k_fsync_dir K)"
  "k_fstatat (beside K) n = aside (k_fstatat K n)" "k_openat (beside K) b n = aside (k_openat K b n)"
  "k_fstat (beside K) fd = aside (k_fstat K fd)" "k_read (beside K) fd = aside (k_read K fd)"
  "k_fsync (beside K) fd = aside (k_fsync K fd)" "k_close (beside K) fd = aside (k_close K fd)"
  "k_unlinkat (beside K) n = aside (k_unlinkat K n)" "k_create (beside K) n = aside (k_create K n)"
  "k_write (beside K) fd s = aside (k_write K fd s)" "k_rename (beside K) p q = aside (k_rename K p q)"
  by (simp_all add: beside_def)

lemma aside_pair [simp]: "aside f (n, w) = (fst (f w), n, snd (f w))"
  by (simp add: aside_def case_prod_beta)

lemma open_current_beside: "open_current (beside K) s (n, w) = aside (open_current K s) (n, w)"
  by (auto simp: open_current_def Let_def current_stat_ok_def case_prod_beta split: sum.splits option.splits)

lemma load_current_beside: "load_current (beside K) s (n, w) = aside (load_current K s) (n, w)"
  by (auto simp: load_current_def open_current_beside case_prod_beta split: sum.splits option.splits)

lemma commit_current_beside: "commit_current (beside K) s e x (n, w) = aside (commit_current K s e x) (n, w)"
  by (auto simp: commit_current_def Let_def load_current_beside case_prod_beta split: sum.splits)

lemma discard_pending_beside: "discard_pending (beside K) s (n, w) = aside (discard_pending K s) (n, w)"
  by (auto simp: discard_pending_def Let_def pending_stat_ok_def case_prod_beta split: sum.splits)

lemma write_pending_beside: "write_pending (beside K) s data (n, w) = aside (write_pending K s data) (n, w)"
  by (auto simp: write_pending_def case_prod_beta split: option.splits)

lemma publish_beside:
  "publish (beside K) s (n, w) = (case publish K s w of (r, s', w') \<Rightarrow> (r, s', n, w'))"
  by (auto simp: publish_def case_prod_beta)

lemma replace_current_beside:
  "replace_current (beside K) s data (n, w) = (case replace_current K s data w of (r, s', w') \<Rightarrow> (r, s', n, w'))"
  by (auto simp: replace_current_def discard_pending_beside write_pending_beside publish_beside case_prod_beta
      split: option.splits)

lemma store_load_beside: "store_load (beside K) s (n, w) = aside (store_load K s) (n, w)"
  by (auto simp: store_load_def load_current_beside split: option.splits)

lemma store_commit_beside:
  "store_commit (beside K) s e x (n, w) = (case store_commit K s e x w of (r, s', w') \<Rightarrow> (r, s', n, w'))"
  by (auto simp: store_commit_def commit_current_beside replace_current_beside case_prod_beta
      split: option.splits sum.splits prod.splits)

text \<open>A disk on which no call will fail, and the document its current file decodes to.\<close>

definition calm :: "disk \<Rightarrow> bool" where "calm w \<longleftrightarrow> dk_faults w = []"

lemma calm_faulty [simp]: "calm w \<Longrightarrow> faulty w = (False, w)"
  by (simp add: calm_def faulty_def)

definition holds_doc :: "'d codec \<Rightarrow> disk \<Rightarrow> 'd option \<Rightarrow> bool" where
  "holds_doc C w d =
     (case dk_files w (codec_current_name C) of
        None \<Rightarrow> d = None
      | Some bs \<Rightarrow> d \<noteq> None \<and> codec_decode C (reader_of bs) = d \<and> int (length bs) \<le> codec_max_bytes C)"

lemmas calm_simps = disk_kernel_def disk_open_def disk_put_def disk_sync_dir_def disk_rename_def disk_call_def
  disk_fsync_dir_def disk_fstatat_def disk_openat_def disk_fstat_def disk_read_def disk_fsync_def disk_close_def
  disk_unlinkat_def disk_create_def disk_write_def disk_renameat_def disk_stat_def S_IFMT_def S_IFREG_def
  perm_mask_def mode_0600_def

lemma load_calm:
  assumes "calm w" "store_codec s = C" "holds_doc C w d"
  shows "\<exists>w'. load_current disk_kernel s w = (case d of None \<Rightarrow> Inl ErrNotInitialized | Some x \<Rightarrow> Inr x, w') \<and>
    calm w' \<and> dk_files w' = dk_files w"
proof (cases "dk_files w (codec_current_name C)")
  case None
  then show ?thesis using assms
    by (simp add: load_current_def open_current_def calm_simps holds_doc_def not_found_def calm_def)
next
  case (Some bs)
  then obtain x where x: "d = Some x" "codec_decode C (reader_of bs) = Some x" "int (length bs) \<le> codec_max_bytes C"
    using assms(3) by (auto simp: holds_doc_def)
  have c: "calm (w\<lparr>dk_fds := f, dk_next := m\<rparr>)" for f m using assms(1) by (simp add: calm_def)
  show ?thesis using assms(1,2) Some x c
    by (simp add: load_current_def open_current_def calm_simps current_stat_ok_def reader_of_def Let_def)
      (simp add: calm_def)
qed

lemma discard_calm:
  assumes "calm w" "store_codec s = C"
  shows "\<exists>w'. discard_pending disk_kernel s w = (None, w') \<and> calm w' \<and>
    dk_files w' = (dk_files w)(codec_pending_name C := None)"
  using assms
  by (cases "dk_files w (codec_pending_name C)")
    (auto simp: discard_pending_def calm_simps pending_stat_ok_def calm_def Let_def)

lemma write_calm:
  assumes "calm w" "store_codec s = C"
  shows "\<exists>w'. write_pending disk_kernel s data w = (None, w') \<and> calm w' \<and>
    dk_files w' = (dk_files w)(codec_pending_name C := Some data) \<and> dk_synced w' (codec_pending_name C)"
proof -
  have c: "calm (w\<lparr>dk_files := a, dk_synced := b, dk_crash := c, dk_fds := f, dk_next := m\<rparr>)" for a b c f m
    using assms(1) by (simp add: calm_def)
  show ?thesis using assms c by (simp add: write_pending_def calm_simps) (simp add: calm_def)
qed

lemma publish_calm:
  assumes "calm w" "store_codec s = C" "dk_files w (codec_pending_name C) = Some data"
    "codec_current_name C \<noteq> codec_pending_name C"
  shows "\<exists>w'. publish disk_kernel s w = (None, s, w') \<and> calm w' \<and>
    dk_files w' = (dk_files w)(codec_current_name C := Some data, codec_pending_name C := None)"
proof -
  have c: "calm (w\<lparr>dk_files := a, dk_synced := b, dk_crash := c\<rparr>)" for a b c using assms(1) by (simp add: calm_def)
  show ?thesis using assms c by (simp add: publish_def calm_simps)
qed

text \<open>On a calm disk a commit of the next revision succeeds and the document is there.\<close>

lemma commit_calm:
  assumes w: "calm w" "holds_doc C w d" and s: "store_codec s = C" "store_check s = None" and C: "doc_codec C"
    and x: "codec_validate C x" "codec_marshal C x = Some data" "int (length data) \<le> codec_max_bytes C"
      "codec_decode C (reader_of data) = Some x" "codec_transition C = None"
    and e: "expected = doc_revision C d" "expected \<noteq> - 1" "codec_revision C x = expected + 1"
  shows "\<exists>w'. store_commit disk_kernel s expected x w = (None, s, w') \<and> calm w' \<and> holds_doc C w' (Some x)"
proof -
  have names: "codec_current_name C \<noteq> codec_pending_name C"
    using doc_codec.codec_ok [OF C] by (simp add: codec_valid_def)
  obtain w1 where 1: "load_current disk_kernel s w = (case d of None \<Rightarrow> Inl ErrNotInitialized | Some x \<Rightarrow> Inr x, w1)"
    "calm w1" using load_calm [OF w(1) s(1) w(2)] by blast
  obtain w2 where 2: "discard_pending disk_kernel s w1 = (None, w2)" "calm w2"
    using discard_calm [OF 1(2) s(1)] by blast
  obtain w3 where 3: "write_pending disk_kernel s data w2 = (None, w3)" "calm w3"
    "dk_files w3 (codec_pending_name C) = Some data"
    using write_calm [OF 2(2) s(1), of data] by fastforce
  obtain w4 where 4: "publish disk_kernel s w3 = (None, s, w4)" "calm w4"
    "dk_files w4 = (dk_files w3)(codec_current_name C := Some data, codec_pending_name C := None)"
    using publish_calm [OF 3(2) s(1) 3(3) names] by blast
  have "commit_current disk_kernel s expected x w = (None, w1)"
    using 1 e(1) s(1) x(5) by (cases d) (simp_all add: commit_current_def Let_def doc_revision_def)
  moreover have "commit_input s expected x = Inr (data, x)"
    using x e(2,3) s(1) by (simp add: commit_input_def Let_def)
  ultimately have "store_commit disk_kernel s expected x w = (None, s, w4)"
    using s(2) 2 3 4 by (simp add: store_commit_def replace_current_def)
  moreover have "holds_doc C w4 (Some x)" using 4(3) names x(3,4) by (simp add: holds_doc_def)
  ultimately show ?thesis using 4(2) by blast
qed

lemma store_load_calm:
  assumes "calm w" "holds_doc C w (Some x)" "store_codec s = C" "store_check s = None"
  shows "\<exists>w'. store_load disk_kernel s w = (Inr x, w') \<and> calm w' \<and> holds_doc C w' (Some x)"
  using load_calm [OF assms(1,3,2)] assms(2,4) by (auto simp: store_load_def holds_doc_def)

text \<open>A disk that durably holds one document.\<close>

definition disk_with :: "'d codec \<Rightarrow> string \<Rightarrow> disk" where
  "disk_with C bs =
     (let files = (\<lambda>_. None)(codec_current_name C := Some bs) in
      (empty_disk [])\<lparr>dk_files := files, dk_crash := (\<lambda>name. {files name})\<rparr>)"

lemma disk_with_possible:
  "codec_decode C (reader_of bs) = Some d \<Longrightarrow> possible dk_files dk_crash C (disk_with C bs) = {Some d}"
  "codec_decode C (reader_of bs) = Some d \<Longrightarrow> possible host_files host_crash C (n, disk_with C bs) = {Some d}"
  by (simp_all add: possible_def doc_at_def crash_docs_def disk_with_def Let_def)

lemma disk_with_calm [simp]: "calm (disk_with C bs)"
  by (simp add: calm_def disk_with_def Let_def empty_disk_def)

lemma disk_with_holds:
  "codec_decode C (reader_of bs) = Some d \<Longrightarrow> int (length bs) \<le> codec_max_bytes C \<Longrightarrow> holds_doc C (disk_with C bs) (Some d)"
  by (simp add: holds_doc_def disk_with_def Let_def)

subsection \<open>Histories of commits\<close>

text \<open>
  The steps that \<open>Commit\<close> may take on the documents of a codec, whoever calls it: the first
  document has revision 1, every other the next revision and a transition that the codec
  accepts.
\<close>

definition codec_edge :: "'d codec \<Rightarrow> 'd option \<Rightarrow> 'd option \<Rightarrow> bool" where
  "codec_edge C d d' =
     (case (d, d') of
        (None, Some x) \<Rightarrow> codec_revision C x = 1
      | (Some c, Some x) \<Rightarrow> codec_revision C c \<noteq> - 1 \<and> codec_revision C x = codec_revision C c + 1 \<and>
          (\<forall>t. codec_transition C = Some t \<longrightarrow> t c x)
      | _ \<Rightarrow> False)"

context store_env
begin

lemma commit_run_evolves:
  "commit_run K s ops w = (rs, s', w') \<Longrightarrow> store_codec s = C \<Longrightarrow> evolves dv cr C (codec_edge C) w w'"
proof (induction ops arbitrary: s w rs s' w')
  case (Cons op ops)
  obtain expected x where op: "op = (expected, x)" by (cases op)
  obtain r s1 w1 where c: "store_commit K s expected x w = (r, s1, w1)" by (metis prod.collapse)
  obtain rs2 s2 w2 where run: "commit_run K s1 ops w1 = (rs2, s2, w2)" by (metis prod.collapse)
  then have w': "w' = w2" using Cons.prems(1) c op by simp
  have "codec_edge C (doc_at dv C w) (Some x)"
    if "expected \<noteq> - 1" "codec_revision C x = expected + 1" "doc_at dv C w = None \<and> expected = 0 \<or>
       (\<exists>d. doc_at dv C w = Some d \<and> codec_revision C d = expected \<and>
         (\<forall>t. codec_transition C = Some t \<longrightarrow> t d x))"
    using that by (auto simp: codec_edge_def)
  from commit_evolves [where R = "codec_edge C", OF c Cons.prems(2) this]
  have "evolves dv cr C (codec_edge C) w w1" "store_codec s1 = C" by simp_all
  then show ?case using Cons.IH [OF run] evolves_trans w' by metis
qed simp

end

end
