(* ===== verification/Account_Store.thy ===== *)
theory Account_Store
  imports Service_Accounts Config_Json Journal_Store
begin

section \<open>The durable account ledger\<close>

text \<open>
  The model of the document form of the account registry (\<open>serviceaccounts.Decode\<close> and
  \<open>json.Marshal\<close>) and of \<open>serviceaccountstore/store_linux.go\<close>, which writes it through the
  revision store and exposes only the typed transitions \<open>Initialize\<close>, \<open>Create\<close> and
  \<open>SetState\<close>. The lemmas discharge the codec laws the revision store relies on, and show
  that whatever is called and whatever fails, the ledger found on the disk, now or after a
  power cut, grew from an earlier one by accepted transitions.
\<close>

subsection \<open>The document\<close>

definition accounts_max_bytes :: int where "accounts_max_bytes = 262144"

definition account_keys :: "string list" where
  "account_keys = [''format'', ''schema_version'', ''revision'', ''first_id'', ''last_id'', ''accounts'',
     ''id'', ''name'', ''uid'', ''gid'', ''state'']"

definition json_account :: "json \<Rightarrow> account option" where
  "json_account v = do {
     ms \<leftarrow> json_object [''id'', ''name'', ''uid'', ''gid'', ''state''] v;
     i \<leftarrow> json_member ms ''id'' json_string [];
     n \<leftarrow> json_member ms ''name'' json_string [];
     u \<leftarrow> json_member ms ''uid'' json_u32 0;
     g \<leftarrow> json_member ms ''gid'' json_u32 0;
     st \<leftarrow> json_member ms ''state'' json_string [];
     Some \<lparr>acc_id = i, acc_name = n, acc_uid = u, acc_gid = g, acc_state = st\<rparr> }"

definition json_registry :: "json \<Rightarrow> registry option" where
  "json_registry v = do {
     ms \<leftarrow> json_object [''format'', ''schema_version'', ''revision'', ''first_id'', ''last_id'', ''accounts''] v;
     f \<leftarrow> json_member ms ''format'' json_string [];
     sv \<leftarrow> json_member ms ''schema_version'' json_int 0;
     r \<leftarrow> json_member ms ''revision'' json_u64 0;
     lo \<leftarrow> json_member ms ''first_id'' json_u32 0;
     hi \<leftarrow> json_member ms ''last_id'' json_u32 0;
     as \<leftarrow> json_member ms ''accounts'' (\<lambda>x. map_option Some (json_list json_account x)) None;
     Some \<lparr>reg_format = f, reg_schema_version = sv, reg_revision = r, reg_first_id = lo,
           reg_last_id = hi, reg_accounts = as\<rparr> }"

definition registry_decode :: "reader \<Rightarrow> account_error + registry" where
  "registry_decode input =
     (case config_decode json_registry input accounts_max_bytes 5 (Some account_keys) of
        None \<Rightarrow> Inl AccInvalid
      | Some r \<Rightarrow> if is_ok (registry_validate r) then Inr r else Inl AccInvalid)"

definition put_account :: "account \<Rightarrow> json" where
  "put_account a = JObj [(''id'', JStr (acc_id a)), (''name'', JStr (acc_name a)),
     (''uid'', put_uint (unat (acc_uid a))), (''gid'', put_uint (unat (acc_gid a))),
     (''state'', JStr (acc_state a))]"

definition put_registry :: "registry \<Rightarrow> json" where
  "put_registry r = JObj [(''format'', JStr (reg_format r)), (''schema_version'', put_int (reg_schema_version r)),
     (''revision'', put_uint (unat (reg_revision r))), (''first_id'', put_uint (unat (reg_first_id r))),
     (''last_id'', put_uint (unat (reg_last_id r))), (''accounts'', put_list put_account (reg_accounts r))]"

subsection \<open>The store\<close>

definition account_codec :: "registry codec" where
  "account_codec = \<lparr>codec_current_name = ''service-accounts.json'',
     codec_pending_name = ''.service-accounts.pending'', codec_max_bytes = accounts_max_bytes,
     codec_complete = True,
     codec_decode = (\<lambda>input. case registry_decode input of Inl _ \<Rightarrow> None | Inr r \<Rightarrow> Some r),
     codec_validate = (\<lambda>r. is_ok (registry_validate r)), codec_revision = reg_revision,
     codec_transition = None, codec_marshal = (\<lambda>r. Some (json_print (put_registry r)))\<rparr>"

datatype ledger_error = Ledger_Store store_error | Ledger_Plan account_error

type_synonym ledger = "registry store option"

definition ledger_open :: "'w kernel \<Rightarrow> string \<Rightarrow> 'w \<Rightarrow> (store_error + ledger) \<times> 'w" where
  "ledger_open K directory w =
     (case open_with_codec K directory account_codec w of
        (Inl e, w1) \<Rightarrow> (Inl e, w1)
      | (Inr engine, w1) \<Rightarrow> (Inr (Some engine), w1))"

definition ledger_load :: "'w kernel \<Rightarrow> ledger \<Rightarrow> 'w \<Rightarrow> (store_error + registry) \<times> 'w" where
  "ledger_load K s w =
     (case s of None \<Rightarrow> (Inl ErrClosed, w) | Some engine \<Rightarrow> store_load K engine w)"

definition ledger_close :: "'w kernel \<Rightarrow> ledger \<Rightarrow> 'w \<Rightarrow> store_error option \<times> ledger \<times> 'w" where
  "ledger_close K s w =
     (case s of
        None \<Rightarrow> (None, None, w)
      | Some engine \<Rightarrow> (case store_close K engine w of (e, _, w1) \<Rightarrow> (e, None, w1)))"

definition ledger_initialize ::
  "'w kernel \<Rightarrow> ledger \<Rightarrow> u32 \<Rightarrow> u32 \<Rightarrow> 'w \<Rightarrow> ledger_error option \<times> ledger \<times> 'w" where
  "ledger_initialize K s lo hi w =
     (case s of
        None \<Rightarrow> (Some (Ledger_Store ErrClosed), s, w)
      | Some engine \<Rightarrow> (case registry_new lo hi of
          (r, Inl e) \<Rightarrow> (Some (Ledger_Plan e), s, w)
        | (r, Inr _) \<Rightarrow> (case store_commit K engine 0 r w of
            (e, engine', w1) \<Rightarrow> (map_option Ledger_Store e, Some engine', w1))))"

definition ledger_change ::
  "'w kernel \<Rightarrow> ledger \<Rightarrow> u64 \<Rightarrow> (registry \<Rightarrow> account_error + registry) \<Rightarrow> 'w \<Rightarrow>
   ledger_error option \<times> ledger \<times> 'w" where
  "ledger_change K s expected plan w =
     (case s of
        None \<Rightarrow> (Some (Ledger_Store ErrClosed), s, w)
      | Some engine \<Rightarrow> (case store_load K engine w of
          (Inl e, w1) \<Rightarrow> (Some (Ledger_Store e), s, w1)
        | (Inr r, w1) \<Rightarrow> (case plan r of
            Inl e \<Rightarrow> (Some (Ledger_Plan e), s, w1)
          | Inr next \<Rightarrow> (case store_commit K engine expected next w1 of
              (e, engine', w2) \<Rightarrow> (map_option Ledger_Store e, Some engine', w2)))))"

definition ledger_create ::
  "'w kernel \<Rightarrow> ledger \<Rightarrow> u64 \<Rightarrow> string \<Rightarrow> string \<Rightarrow> reservations \<Rightarrow> 'w \<Rightarrow> ledger_error option \<times> ledger \<times> 'w" where
  "ledger_create K s expected ident name reserved w =
     ledger_change K s expected (\<lambda>r. registry_create r expected ident name reserved) w"

definition ledger_set_state ::
  "'w kernel \<Rightarrow> ledger \<Rightarrow> u64 \<Rightarrow> string \<Rightarrow> string \<Rightarrow> 'w \<Rightarrow> ledger_error option \<times> ledger \<times> 'w" where
  "ledger_set_state K s expected ident state w =
     ledger_change K s expected (\<lambda>r. registry_set_state r expected ident state) w"

subsection \<open>The codec laws\<close>

lemma first_lower_ascii: "identifier_ok s \<or> accountName s \<Longrightarrow> valid_string s"
proof -
  assume "identifier_ok s \<or> accountName s"
  then have "list_all (\<lambda>ch. ch < 128) (runes s)"
    by (auto simp: identifier_ok_def accountName_def list_all_iff rune_class_defs)
  then have "ascii_string s"
    using runes_all_ascii [of "\<lambda>ch. ch < 128" s] by (simp add: ascii_string_def)
  then show ?thesis by (rule valid_string_ascii)
qed

lemma state_valid_string: "s \<in> {st_disabled, st_enabled, st_retired} \<Longrightarrow> valid_string s"
  by (rule valid_string_ascii) (auto simp: state_defs ascii_string_def)

lemma put_account_ok: "account_wf lo hi a \<Longrightarrow> json_ok (put_account a)"
  by (auto simp: put_account_def account_wf_def valid_string_ascii ascii_string_def
      intro: first_lower_ascii state_valid_string)

lemma json_account_put [simp]: "json_account (put_account a) = Some a"
  by (simp add: json_account_def put_account_def json_member_def)

lemma put_account_scan2: "scan_value 2 5 (Some account_keys) (put_account a)"
  by (simp add: put_account_def scan_keys_iff account_keys_def put_uint_def)

lemma put_registry_ok: "registry_wf r \<Longrightarrow> json_ok (put_registry r)"
proof -
  assume r: "registry_wf r"
  then obtain as where as: "reg_accounts r = Some as" "\<forall>a \<in> set as. account_wf (reg_first_id r) (reg_last_id r) a"
    by (auto simp: registry_wf_def accounts_wf_def)
  then have "list_all (\<lambda>a. json_ok (put_account a)) as" by (auto simp: list_all_iff intro: put_account_ok)
  then show ?thesis using r as(1)
    by (simp add: put_registry_def put_list_def registry_wf_def registry_format_def valid_string_ascii
        ascii_string_def list.pred_map comp_def)
qed

lemma put_registry_scan: "registry_wf r \<Longrightarrow> scan_value 0 5 (Some account_keys) (put_registry r)"
  by (auto simp: put_registry_def put_list_def registry_wf_def scan_keys_iff put_uint_def put_int_def
      account_keys_def list.pred_map comp_def list_all_iff put_account_scan2 [unfolded account_keys_def])

lemma json_registry_put: "registry_wf r \<Longrightarrow> json_registry (put_registry r) = Some r"
  by (auto simp: json_registry_def put_registry_def json_member_def put_list_def registry_wf_def
      json_int_put json_list_put simp del: json_list.simps)

lemma registry_decode_iff:
  "registry_decode input = Inr r \<longleftrightarrow>
     config_decode json_registry input accounts_max_bytes 5 (Some account_keys) = Some r \<and> registry_wf r"
  by (auto simp: registry_decode_def registry_validate_iff split: option.splits)

lemma registry_decode_marshal:
  assumes "registry_wf r" "int (length (json_print (put_registry r))) \<le> accounts_max_bytes"
  shows "registry_decode (reader_of (json_print (put_registry r))) = Inr r"
  unfolding registry_decode_iff
  using config_decode_print [OF put_registry_ok [OF assms(1)] put_registry_scan [OF assms(1)] assms(2), of json_registry]
    json_registry_put [OF assms(1)] assms(1)
  by (simp add: accounts_max_bytes_def)

lemma registry_decode_print:
  "registry_wf r \<Longrightarrow> registry_decode (reader_of (json_print (put_registry r))) = Inr r' \<Longrightarrow> r' = r"
  using config_decode_print_cases [OF put_registry_ok put_registry_scan, of r json_registry accounts_max_bytes]
  by (auto simp: registry_decode_iff json_registry_put)

lemma account_codec_simps [simp]:
  "codec_decode account_codec input = Some r \<longleftrightarrow> registry_decode input = Inr r"
  "codec_validate account_codec r \<longleftrightarrow> registry_wf r"
  "codec_revision account_codec = reg_revision"
  "codec_transition account_codec = None"
  "codec_marshal account_codec r = Some (json_print (put_registry r))"
  by (auto simp: account_codec_def registry_validate_iff split: sum.splits)

interpretation account_doc: doc_codec account_codec
proof
  show "codec_valid account_codec" by code_simp
  show "codec_decode account_codec (bs, True) = None" for bs
    by (simp add: account_codec_def registry_decode_def config_decode_fails)
  show "codec_validate account_codec d \<and> codec_revision account_codec d \<noteq> 0"
    if "codec_decode account_codec r = Some d" for r d
    using that by (simp add: registry_decode_iff registry_wf_def)
  show "d' = d" if "codec_validate account_codec d" "codec_marshal account_codec d = Some bs"
    "codec_decode account_codec (reader_of bs) = Some d'" for d bs d'
    using that registry_decode_print by simp
qed

interpretation account_disk: store_env disk_kernel dk_files dk_fds dk_synced dk_crash account_codec
  by unfold_locales

subsection \<open>What a call may do to the ledger\<close>

definition ledger_edge :: "registry option \<Rightarrow> registry option \<Rightarrow> bool" where
  "ledger_edge d d' =
     (case (d, d') of
        (None, Some r) \<Rightarrow> \<exists>lo hi. registry_new lo hi = (r, Inr ())
      | (Some r, Some r') \<Rightarrow> registry_step r r'
      | _ \<Rightarrow> False)"

datatype ledger_call =
    Initialize_Call u32 u32
  | Create_Call u64 string string reservations
  | State_Call u64 string string
  | Load_Call
  | Close_Call

definition ledger_exec :: "'w kernel \<Rightarrow> ledger_call \<Rightarrow> ledger \<Rightarrow> 'w \<Rightarrow> ledger \<times> 'w" where
  "ledger_exec K c s w =
     (case c of
        Initialize_Call lo hi \<Rightarrow> snd (ledger_initialize K s lo hi w)
      | Create_Call e i n res \<Rightarrow> snd (ledger_create K s e i n res w)
      | State_Call e i st \<Rightarrow> snd (ledger_set_state K s e i st w)
      | Load_Call \<Rightarrow> (s, snd (ledger_load K s w))
      | Close_Call \<Rightarrow> snd (ledger_close K s w))"

fun ledger_run :: "'w kernel \<Rightarrow> ledger_call list \<Rightarrow> ledger \<Rightarrow> 'w \<Rightarrow> ledger \<times> 'w" where
  "ledger_run K [] s w = (s, w)"
| "ledger_run K (c # cs) s w = (case ledger_exec K c s w of (s1, w1) \<Rightarrow> ledger_run K cs s1 w1)"

definition ledger_codec_ok :: "ledger \<Rightarrow> bool" where
  "ledger_codec_ok s \<longleftrightarrow> (\<forall>engine. s = Some engine \<longrightarrow> store_codec engine = account_codec)"

locale ledger_env = store_env K dv fv syn cr account_codec
  for K :: "'w kernel" and dv fv syn cr
begin

lemma initialize_evolves:
  assumes "ledger_initialize K s lo hi w = (e, s', w')" "ledger_codec_ok s"
  shows "evolves dv cr account_codec ledger_edge w w' \<and> ledger_codec_ok s'"
proof (cases "s = None \<or> snd (registry_new lo hi) \<noteq> Inr ()")
  case True
  then show ?thesis using assms
    by (auto simp: ledger_initialize_def split: option.splits prod.splits sum.splits)
next
  case False
  then obtain engine r where s: "s = Some engine" and new: "registry_new lo hi = (r, Inr ())"
    by (cases "registry_new lo hi") auto
  obtain e1 engine' w1 where c: "store_commit K engine 0 r w = (e1, engine', w1)" by (metis prod.collapse)
  have codec: "store_codec engine = account_codec" using assms(2) s by (simp add: ledger_codec_ok_def)
  have "ledger_edge None (Some r)" using new by (auto simp: ledger_edge_def)
  from commit_first [where R = ledger_edge, OF c codec this] have
    "evolves dv cr account_codec ledger_edge w w1 \<and> store_codec engine' = account_codec" by simp
  then show ?thesis using assms(1) s new c by (auto simp: ledger_initialize_def ledger_codec_ok_def)
qed

lemma change_evolves:
  assumes "ledger_change K s expected plan w = (e, s', w')" "ledger_codec_ok s"
    and plan: "\<And>r r'. plan r = Inr r' \<Longrightarrow> registry_step r r'"
  shows "evolves dv cr account_codec ledger_edge w w' \<and> ledger_codec_ok s'"
proof (cases s)
  case None
  then show ?thesis using assms by (simp add: ledger_change_def)
next
  case (Some engine)
  obtain r w1 where l: "store_load K engine w = (r, w1)" by fastforce
  have codec: "store_codec engine = account_codec" using assms(2) Some by (simp add: ledger_codec_ok_def)
  note k = load_keeps [OF l codec]
  then have ev: "evolves dv cr account_codec ledger_edge w w1" using keeps_evolves by blast
  show ?thesis
  proof (cases "\<exists>d d'. r = Inr d \<and> plan d = Inr d'")
    case False
    then show ?thesis using assms(1,2) Some l ev
      by (auto simp: ledger_change_def split: sum.splits)
  next
    case True
    then obtain d d' where d: "r = Inr d" "plan d = Inr d'" by blast
    obtain e1 engine' w2 where c: "store_commit K engine expected d' w1 = (e1, engine', w2)" by (metis prod.collapse)
    have "ledger_edge (doc_at dv account_codec w1) (Some d')"
      using k d plan [OF d(2)] by (simp add: ledger_edge_def)
    from commit_edge [where R = ledger_edge, OF c codec this]
    have "evolves dv cr account_codec ledger_edge w1 w2 \<and> store_codec engine' = account_codec" by simp
    then show ?thesis using assms(1) Some l d c evolves_trans [OF ev]
      by (auto simp: ledger_change_def ledger_codec_ok_def)
  qed
qed

lemma exec_evolves:
  assumes "ledger_exec K c s w = (s', w')" "ledger_codec_ok s"
  shows "evolves dv cr account_codec ledger_edge w w' \<and> ledger_codec_ok s'"
proof (cases c)
  case (Initialize_Call lo hi)
  then show ?thesis using assms initialize_evolves [of s lo hi w]
    by (cases "ledger_initialize K s lo hi w") (simp add: ledger_exec_def)
next
  case (Create_Call e i n res)
  then show ?thesis using assms change_evolves [of s e "\<lambda>r. registry_create r e i n res" w]
    by (cases "ledger_create K s e i n res w") (simp add: ledger_exec_def ledger_create_def step_create)
next
  case (State_Call e i st)
  then show ?thesis using assms change_evolves [of s e "\<lambda>r. registry_set_state r e i st" w]
    by (cases "ledger_set_state K s e i st w") (simp add: ledger_exec_def ledger_set_state_def step_set_state)
next
  case Load_Call
  have "keeps dv syn cr {} w w'"
  proof (cases s)
    case (Some engine)
    then show ?thesis using assms Load_Call load_keeps [of engine w]
      by (cases "store_load K engine w") (simp add: ledger_exec_def ledger_load_def ledger_codec_ok_def)
  qed (use assms Load_Call in \<open>simp add: ledger_exec_def ledger_load_def\<close>)
  then show ?thesis using assms Load_Call keeps_evolves by (simp add: ledger_exec_def)
next
  case Close_Call
  have "keeps dv syn cr {} w w' \<and> s' = None"
  proof (cases s)
    case (Some engine)
    then show ?thesis using assms Close_Call store_close_keeps [of engine w]
      by (cases "store_close K engine w") (simp add: ledger_exec_def ledger_close_def)
  qed (use assms Close_Call in \<open>simp add: ledger_exec_def ledger_close_def\<close>)
  then show ?thesis using keeps_evolves by (simp add: ledger_codec_ok_def)
qed

lemma run_evolves:
  "ledger_run K cs s w = (s', w') \<Longrightarrow> ledger_codec_ok s \<Longrightarrow>
     evolves dv cr account_codec ledger_edge w w' \<and> ledger_codec_ok s'"
proof (induction cs arbitrary: s w)
  case (Cons c cs)
  obtain s1 w1 where 1: "ledger_exec K c s w = (s1, w1)" by fastforce
  then show ?case using Cons exec_evolves [OF 1] by (auto intro: evolves_trans)
qed simp

end

interpretation ledger_disk: ledger_env disk_kernel dk_files dk_fds dk_synced dk_crash
  by unfold_locales

text \<open>Transitions keep every identity and never lower the revision.\<close>

lemma ledger_edges_keep:
  assumes "ledger_edge\<^sup>*\<^sup>* d d'"
  shows "\<forall>r. d = Some r \<longrightarrow> (\<exists>r'. d' = Some r' \<and> registry_step\<^sup>*\<^sup>* r r')"
  using assms
  by (induction rule: rtranclp_induct) (auto simp: ledger_edge_def split: option.splits intro: rtranclp.rtrancl_into_rtrancl)

subsection \<open>Sizes\<close>

lemma plain_name:
  assumes "identifier_ok s \<or> accountName s"
  shows "list_all (\<lambda>c. html_safe c \<and> (of_char c :: nat) < 128) s \<and> length s \<le> 64"
proof -
  have "list_all (\<lambda>ch. lower_rune ch \<or> digit_rune ch \<or> ch = 45 \<or> ch = 95) (runes s)"
    using assms by (auto simp: identifier_ok_def accountName_def list_all_iff)
  then have "list_all (\<lambda>c. lower_rune (of_char c) \<or> digit_rune (of_char c) \<or> of_char c = (45 :: nat) \<or> of_char c = (95 :: nat)) s"
    by (subst (asm) runes_all_ascii) (auto simp: rune_class_defs)
  then have "list_all (\<lambda>c. html_safe c \<and> (of_char c :: nat) < 128) s"
    by (rule list.pred_mono_strong) (auto simp: html_safe_def rune_class_defs)
  then show ?thesis using assms by (auto simp: identifier_ok_def accountName_def)
qed

lemma length_print_name: "identifier_ok s \<or> accountName s \<Longrightarrow> length (print_string s) \<le> 66"
  using plain_name [of s] by (simp add: print_string_plain)

lemma length_print_state: "s \<in> {st_disabled, st_enabled, st_retired} \<Longrightarrow> length (print_string s) \<le> 10"
  by (auto simp: state_defs print_string_plain html_safe_def)

lemma length_put_account: "account_wf lo hi a \<Longrightarrow> length (json_print (put_account a)) \<le> 210"
  using length_print_name [of "acc_id a"] length_print_name [of "acc_name a"] length_print_state [of "acc_state a"]
    length_put_u32 [of "acc_uid a"] length_put_u32 [of "acc_gid a"]
  by (simp add: put_account_def account_wf_def print_string_plain html_safe_def)

text \<open>Every valid registry is written within the size bound of its document.\<close>

lemma length_join: "(\<And>x. x \<in> set xs \<Longrightarrow> length x \<le> k) \<Longrightarrow> length (join_with c xs) \<le> length xs * (k + 1)"
proof (induction c xs rule: join_with.induct)
  case (3 d w v va)
  have "length (join_with d (v # va)) \<le> length (v # va) * (k + 1)" by (rule 3(1)) (use 3(2) in simp)
  moreover have "length w \<le> k" using 3(2) by simp
  ultimately show ?case by simp
qed (auto simp: le_SucI)

lemma length_put_registry:
  assumes "registry_wf r"
  shows "int (length (json_print (put_registry r))) \<le> accounts_max_bytes"
proof -
  obtain as where as: "reg_accounts r = Some as" "length as \<le> 1024"
    "\<forall>a \<in> set as. account_wf (reg_first_id r) (reg_last_id r) a"
    using assms by (auto simp: registry_wf_def accounts_wf_def max_records_def)
  have "length (join_with (CHR '','') (map json_print (map put_account as))) \<le> length (map json_print (map put_account as)) * (210 + 1)"
    by (rule length_join) (use as(3) length_put_account in auto)
  also have "\<dots> \<le> 1024 * 211" using as(2) by simp
  finally have "length (json_print (put_list put_account (reg_accounts r))) \<le> 216066"
    by (simp add: put_list_def as(1))
  then show ?thesis
    using assms length_put_u64 [of "reg_revision r"] length_put_u32 [of "reg_first_id r"] length_put_u32 [of "reg_last_id r"]
    by (simp add: put_registry_def registry_wf_def registry_format_def print_string_plain html_safe_def
        accounts_max_bytes_def put_int_def format_uint.simps)
qed

subsection \<open>Properties\<close>

text \<open>
  C27: the document form of the registry loses nothing and always fits. What \<open>json.Marshal\<close>
  writes for a registry is read back by \<open>Decode\<close> as that registry exactly when the registry is
  valid; in particular a valid registry with all its 1024 records is never too large for its own
  size limit, and no valid registry is refused or altered by the strict reader.
\<close>

theorem registry_document_roundtrip:
  "registry_decode (reader_of (json_print (put_registry r))) = Inr r \<longleftrightarrow> registry_wf r"
  using registry_decode_marshal length_put_registry registry_decode_iff by blast


definition ledger_start :: ledger where
  "ledger_start = Some \<lparr>store_ready = True, store_closed = False, store_uncertain = False,
     store_noatime = False, store_codec = account_codec\<rparr>"


end
