(* ===== verification/Share_Store.thy ===== *)
theory Share_Store
  imports Account_Store
begin

section \<open>The durable share policy\<close>

text \<open>
  The document form of the desired share policy (\<open>shareconfig.Decode\<close> and \<open>json.Marshal\<close>)
  and the codec with which \<open>sharestore/store_linux.go\<close> opens the revision store. Its lemmas
  show that a valid policy within the size bound is read back from what is written, which
  discharges the codec laws for this document.
\<close>

definition share_max_bytes :: int where "share_max_bytes = 262144"

definition share_fields :: "string list" where
  "share_fields = [''format'', ''schema_version'', ''revision'', ''volumes'', ''users'', ''shares'', ''id'',
     ''filesystem_uuid'', ''name'', ''volume_id'', ''relative_path'', ''grants'', ''user_id'', ''access'']"

definition json_volume :: "json \<Rightarrow> volume option" where
  "json_volume v = do {
     ms \<leftarrow> json_object [''id'', ''filesystem_uuid''] v;
     i \<leftarrow> json_member ms ''id'' json_string [];
     u \<leftarrow> json_member ms ''filesystem_uuid'' json_string [];
     Some \<lparr>vol_id = i, vol_filesystem_uuid = u\<rparr> }"

definition json_user :: "json \<Rightarrow> user option" where
  "json_user v = do {
     ms \<leftarrow> json_object [''id'', ''name''] v;
     i \<leftarrow> json_member ms ''id'' json_string [];
     n \<leftarrow> json_member ms ''name'' json_string [];
     Some \<lparr>user_id = i, user_name = n\<rparr> }"

definition json_grant :: "json \<Rightarrow> grant option" where
  "json_grant v = do {
     ms \<leftarrow> json_object [''user_id'', ''access''] v;
     u \<leftarrow> json_member ms ''user_id'' json_string [];
     a \<leftarrow> json_member ms ''access'' json_string [];
     Some \<lparr>grant_user_id = u, grant_access = a\<rparr> }"

definition json_share :: "json \<Rightarrow> share option" where
  "json_share v = do {
     ms \<leftarrow> json_object [''id'', ''name'', ''volume_id'', ''relative_path'', ''grants''] v;
     i \<leftarrow> json_member ms ''id'' json_string [];
     n \<leftarrow> json_member ms ''name'' json_string [];
     vol \<leftarrow> json_member ms ''volume_id'' json_string [];
     p \<leftarrow> json_member ms ''relative_path'' json_string [];
     gs \<leftarrow> json_member ms ''grants'' (json_list json_grant) [];
     Some \<lparr>share_id = i, share_label = n, share_volume_id = vol, share_relative_path = p, share_grants = gs\<rparr> }"

definition json_share_config :: "json \<Rightarrow> share_config option" where
  "json_share_config v = do {
     ms \<leftarrow> json_object [''format'', ''schema_version'', ''revision'', ''volumes'', ''users'', ''shares''] v;
     f \<leftarrow> json_member ms ''format'' json_string [];
     sv \<leftarrow> json_member ms ''schema_version'' json_int 0;
     r \<leftarrow> json_member ms ''revision'' json_u64 0;
     vs \<leftarrow> json_member ms ''volumes'' (\<lambda>x. map_option Some (json_list json_volume x)) None;
     us \<leftarrow> json_member ms ''users'' (\<lambda>x. map_option Some (json_list json_user x)) None;
     ss \<leftarrow> json_member ms ''shares'' (\<lambda>x. map_option Some (json_list json_share x)) None;
     Some \<lparr>sc_format = f, sc_schema_version = sv, sc_revision = r, sc_volumes = vs, sc_users = us,
           sc_shares = ss\<rparr> }"

datatype share_decode_error = ShareFields | ShareRelations share_error

definition share_decode :: "reader \<Rightarrow> share_decode_error + share_config" where
  "share_decode input =
     (case config_decode json_share_config input share_max_bytes 8 (Some share_fields) of
        None \<Rightarrow> Inl ShareFields
      | Some c \<Rightarrow> (case share_validate c of Inl e \<Rightarrow> Inl (ShareRelations e) | Inr _ \<Rightarrow> Inr c))"

definition put_volume :: "volume \<Rightarrow> json" where
  "put_volume v = JObj [(''id'', JStr (vol_id v)), (''filesystem_uuid'', JStr (vol_filesystem_uuid v))]"

definition put_user :: "user \<Rightarrow> json" where
  "put_user u = JObj [(''id'', JStr (user_id u)), (''name'', JStr (user_name u))]"

definition put_grant :: "grant \<Rightarrow> json" where
  "put_grant g = JObj [(''user_id'', JStr (grant_user_id g)), (''access'', JStr (grant_access g))]"

text \<open>
  A share's grants are a list here and a slice that may be nil there; \<open>Validate\<close> refuses
  both the nil and the empty slice, so that no accepted document has one of them.
\<close>

definition put_share :: "share \<Rightarrow> json" where
  "put_share s = JObj [(''id'', JStr (share_id s)), (''name'', JStr (share_label s)),
     (''volume_id'', JStr (share_volume_id s)), (''relative_path'', JStr (share_relative_path s)),
     (''grants'', put_list put_grant (Some (share_grants s)))]"

definition put_share_config :: "share_config \<Rightarrow> json" where
  "put_share_config c = JObj [(''format'', JStr (sc_format c)),
     (''schema_version'', put_int (sc_schema_version c)), (''revision'', put_uint (unat (sc_revision c))),
     (''volumes'', put_list put_volume (sc_volumes c)), (''users'', put_list put_user (sc_users c)),
     (''shares'', put_list put_share (sc_shares c))]"

definition share_codec :: "share_config codec" where
  "share_codec = \<lparr>codec_current_name = ''shares.json'', codec_pending_name = ''.shares.pending'',
     codec_max_bytes = share_max_bytes, codec_complete = True,
     codec_decode = (\<lambda>input. case share_decode input of Inl _ \<Rightarrow> None | Inr c \<Rightarrow> Some c),
     codec_validate = (\<lambda>c. is_ok (share_validate c)), codec_revision = sc_revision,
     codec_transition = None, codec_marshal = (\<lambda>c. Some (json_print (put_share_config c)))\<rparr>"

definition share_open :: "'w kernel \<Rightarrow> string \<Rightarrow> 'w \<Rightarrow> (store_error + share_config store) \<times> 'w" where
  "share_open K directory w = open_with_codec K directory share_codec w"

subsection \<open>The codec laws\<close>

lemma uuid_loop_ascii: "uuid_loop i nz rs \<Longrightarrow> list_all (\<lambda>ch. ch < 128) rs"
  by (induction i nz rs rule: uuid_loop.induct) (auto simp: rune_class_defs split: if_splits)

lemma ascii_runes_valid: "list_all (\<lambda>ch. ch < 128) (runes s) \<Longrightarrow> valid_string s"
  using runes_all_ascii [of "\<lambda>ch. ch < 128" s] by (simp add: ascii_string_def valid_string_ascii)

lemma filesystemUUID_valid: "filesystemUUID s \<Longrightarrow> valid_string s"
  by (auto simp: filesystemUUID_def intro: ascii_runes_valid uuid_loop_ascii)

lemma shareName_valid: "shareName s \<Longrightarrow> valid_string s"
  by (rule ascii_runes_valid) (auto simp: shareName_def list_all_iff)

lemma access_valid: "a \<in> {''ro'', ''rw''} \<Longrightarrow> valid_string a"
  by (rule valid_string_ascii) (auto simp: ascii_string_def)

lemmas key_ascii = valid_string_ascii ascii_string_def

lemma put_volume_ok: "volume_wf v \<Longrightarrow> json_ok (put_volume v)"
  by (simp add: put_volume_def volume_wf_def filesystemUUID_valid first_lower_ascii key_ascii)

lemma put_user_ok: "user_wf u \<Longrightarrow> json_ok (put_user u)"
  by (simp add: put_user_def user_wf_def first_lower_ascii key_ascii)

lemma put_grant_ok: "valid_string (grant_user_id g) \<Longrightarrow> grant_access g \<in> {''ro'', ''rw''} \<Longrightarrow> json_ok (put_grant g)"
  by (simp add: put_grant_def access_valid key_ascii)

lemma put_share_ok:
  assumes "share_wf volumes users s" "\<And>v. v \<in> volumes \<Longrightarrow> valid_string v" "\<And>u. u \<in> users \<Longrightarrow> valid_string u"
  shows "json_ok (put_share s)"
proof -
  have "list_all (\<lambda>g. json_ok (put_grant g)) (share_grants s)"
    using assms(1,3) by (auto simp: share_wf_def grants_wf_def list_all_iff intro!: put_grant_ok)
  then show ?thesis using assms
    by (simp add: put_share_def put_list_def share_wf_def relativePath_def shareName_valid first_lower_ascii
        key_ascii list.pred_map comp_def)
qed

lemma put_list_ok: "list_all (\<lambda>x. json_ok (f x)) xs \<Longrightarrow> json_ok (put_list f (Some xs))"
  by (simp add: put_list_def list.pred_map comp_def)

lemma put_share_config_ok:
  assumes "share_config_wf c"
  shows "json_ok (put_share_config c)"
proof -
  obtain vs us ss where s: "sc_volumes c = Some vs" "sc_users c = Some us" "sc_shares c = Some ss"
    and v: "\<forall>v \<in> set vs. volume_wf v" and u: "\<forall>u \<in> set us. user_wf u"
    and sh: "\<forall>s \<in> set ss. share_wf (vol_id ` set vs) (user_id ` set us) s"
    using assms unfolding share_config_wf_def by blast
  have "list_all (\<lambda>x. json_ok (put_volume x)) vs" using v by (simp add: list_all_iff put_volume_ok)
  moreover have "list_all (\<lambda>x. json_ok (put_user x)) us" using u by (simp add: list_all_iff put_user_ok)
  moreover have "list_all (\<lambda>x. json_ok (put_share x)) ss"
    unfolding list_all_iff
  proof
    fix x assume "x \<in> set ss"
    then show "json_ok (put_share x)" using sh v u
      by (intro put_share_ok [of "vol_id ` set vs" "user_id ` set us"])
        (auto simp: volume_wf_def user_wf_def first_lower_ascii)
  qed
  ultimately show ?thesis using assms s
    by (simp add: put_share_config_def put_list_ok share_config_wf_def share_format_def key_ascii)
qed

lemma put_share_scans:
  "scan_value 2 8 (Some share_fields) (put_volume v)" "scan_value 2 8 (Some share_fields) (put_user u)"
  "scan_value 4 8 (Some share_fields) (put_grant g)" "scan_value 2 8 (Some share_fields) (put_share s)"
  by (simp_all add: put_volume_def put_user_def put_grant_def put_share_def put_list_def scan_keys_iff
      share_fields_def list.pred_map comp_def list_all_iff)

lemma put_share_config_scan: "share_config_wf c \<Longrightarrow> scan_value 0 8 (Some share_fields) (put_share_config c)"
  by (auto simp: put_share_config_def put_list_def share_config_wf_def scan_keys_iff put_uint_def put_int_def
      share_fields_def list.pred_map comp_def list_all_iff put_share_scans [unfolded share_fields_def])

lemma json_share_parts [simp]:
  "json_volume (put_volume v) = Some v" "json_user (put_user u) = Some u" "json_grant (put_grant g) = Some g"
  by (simp_all add: json_volume_def put_volume_def json_user_def put_user_def json_grant_def put_grant_def json_member_def)

lemma json_share_put [simp]: "json_share (put_share s) = Some s"
  by (auto simp: json_share_def put_share_def put_list_def json_member_def json_list_put simp del: json_list.simps)

lemma json_share_config_put: "share_config_wf c \<Longrightarrow> json_share_config (put_share_config c) = Some c"
  by (auto simp: json_share_config_def put_share_config_def put_list_def json_member_def share_config_wf_def
      json_int_put json_list_put simp del: json_list.simps)

lemma share_decode_iff:
  "share_decode input = Inr c \<longleftrightarrow>
     config_decode json_share_config input share_max_bytes 8 (Some share_fields) = Some c \<and> share_config_wf c"
  by (auto simp: share_decode_def share_validate_iff [symmetric] split: option.splits sum.splits)

lemma share_decode_marshal:
  assumes "share_config_wf c" "int (length (json_print (put_share_config c))) \<le> share_max_bytes"
  shows "share_decode (reader_of (json_print (put_share_config c))) = Inr c"
  unfolding share_decode_iff
  using config_decode_print [OF put_share_config_ok [OF assms(1)] put_share_config_scan [OF assms(1)] assms(2),
      of json_share_config] json_share_config_put [OF assms(1)] assms(1)
  by (simp add: share_max_bytes_def)

lemma share_decode_print:
  "share_config_wf c \<Longrightarrow> share_decode (reader_of (json_print (put_share_config c))) = Inr c' \<Longrightarrow> c' = c"
  using config_decode_print_cases [OF put_share_config_ok put_share_config_scan, of c json_share_config share_max_bytes]
  by (auto simp: share_decode_iff json_share_config_put)

lemma share_codec_simps [simp]:
  "codec_decode share_codec input = Some c \<longleftrightarrow> share_decode input = Inr c"
  "codec_validate share_codec c \<longleftrightarrow> share_config_wf c"
  "codec_revision share_codec = sc_revision"
  "codec_marshal share_codec c = Some (json_print (put_share_config c))"
  by (auto simp: share_codec_def share_ok_iff split: sum.splits)

interpretation share_doc: doc_codec share_codec
proof
  show "codec_valid share_codec" by code_simp
  show "codec_decode share_codec (bs, True) = None" for bs
    by (simp add: share_codec_def share_decode_def config_decode_fails)
  show "codec_validate share_codec d \<and> codec_revision share_codec d \<noteq> 0"
    if "codec_decode share_codec r = Some d" for r d
    using that by (simp add: share_decode_iff share_config_wf_def)
  show "d' = d" if "codec_validate share_codec d" "codec_marshal share_codec d = Some bs"
    "codec_decode share_codec (reader_of bs) = Some d'" for d bs d'
    using that share_decode_print by simp
qed

interpretation share_disk: store_env disk_kernel dk_files dk_fds dk_synced dk_crash share_codec
  by unfold_locales

end
