(* ===== verification/Go_Net.thy ===== *)
theory Go_Net
  imports Json_Text "HOL-Library.List_Lexorder" "HOL-Library.Char_ord" "HOL-Library.Sublist"
begin

section \<open>Network prefixes and joined paths\<close>

text \<open>
  The parts of the Go standard library that the policy documents are checked and rendered
  with: \<open>net/netip\<close> (\<open>ParsePrefix\<close>, \<open>Prefix.Masked\<close>, \<open>Prefix.String\<close>, \<open>Prefix.Overlaps\<close>)
  and \<open>path.Join\<close>. An address is its family and its bits; the zone of an IPv6 address does
  not appear, because \<open>ParsePrefix\<close> refuses every text with one. The lemmas show that two
  prefixes overlap exactly when some address lies in both, and that for clean relative
  paths the overlap of two joined paths is the prefix order on their elements.
\<close>

unbundle bit_operations_syntax

subsection \<open>Addresses\<close>

datatype addr = IP4 "32 word" | IP6 "128 word"

record net_prefix =
  px_addr :: addr
  px_bits :: nat

definition addr_width :: "addr \<Rightarrow> nat" where
  "addr_width a = (case a of IP4 _ \<Rightarrow> 32 | IP6 _ \<Rightarrow> 128)"

text \<open>\<open>parseIPv4Fields\<close>: four decimal octets without leading zeros.\<close>

fun ipv4_fields :: "nat list \<Rightarrow> nat \<Rightarrow> nat \<Rightarrow> string \<Rightarrow> nat list option" where
  "ipv4_fields fs val digLen [] = (if length fs < 3 then None else Some (fs @ [val]))"
| "ipv4_fields fs val digLen (c # cs) =
     (if dec_digit c then
        if digLen = 1 \<and> val = 0 then None
        else let val' = 10 * val + (of_char c - 48) in
          if 255 < val' then None else ipv4_fields fs val' (Suc digLen) cs
      else if c = CHR ''.'' then
        if digLen = 0 \<or> cs = [] \<or> length fs = 3 then None
        else ipv4_fields (fs @ [val]) 0 0 cs
      else None)"

definition hex_char :: "char \<Rightarrow> bool" where
  "hex_char c \<longleftrightarrow> (let n = of_char c :: nat in
     48 \<le> n \<and> n \<le> 57 \<or> 97 \<le> n \<and> n \<le> 102 \<or> 65 \<le> n \<and> n \<le> 70)"

definition hex_char_value :: "char \<Rightarrow> nat" where
  "hex_char_value c = (let n = of_char c in if n \<le> 57 then n - 48 else if 97 \<le> n then n - 87 else n - 55)"

definition hex_number :: "string \<Rightarrow> nat" where
  "hex_number s = foldl (\<lambda>a c. 16 * a + hex_char_value c) 0 s"

text \<open>
  The loop of \<open>parseIPv6\<close> over the sixteen-bit fields: \<open>n\<close> fields are still free, \<open>gs\<close> are
  the fields read, \<open>ell\<close> is the position of \<open>::\<close>. It ends with the fields, the position and
  the text that is left.
\<close>

fun ipv6_loop :: "nat \<Rightarrow> nat list \<Rightarrow> nat option \<Rightarrow> string \<Rightarrow> (nat list \<times> nat option \<times> string) option" where
  "ipv6_loop 0 gs ell s = Some (gs, ell, s)"
| "ipv6_loop (Suc n) gs ell s =
     (let ds = takeWhile hex_char s; s1 = dropWhile hex_char s in
      if 4 < length ds \<or> ds = [] then None
      else if s1 \<noteq> [] \<and> hd s1 = CHR ''.'' then
        (if ell = None \<and> length gs \<noteq> 6 \<or> 6 < length gs then None
         else case ipv4_fields [] 0 0 s of
           Some [a, b, c, d] \<Rightarrow> Some (gs @ [256 * a + b, 256 * c + d], ell, [])
         | _ \<Rightarrow> None)
      else (let gs' = gs @ [hex_number ds] in
        case s1 of
          [] \<Rightarrow> Some (gs', ell, [])
        | c # s2 \<Rightarrow>
            if c \<noteq> CHR '':'' \<or> s2 = [] then None
            else if hd s2 = CHR '':'' then
              (if ell \<noteq> None then None
               else if tl s2 = [] then Some (gs', Some (length gs'), [])
               else ipv6_loop n gs' (Some (length gs')) (tl s2))
            else ipv6_loop n gs' ell s2))"

definition ipv6_fields :: "string \<Rightarrow> nat list option" where
  "ipv6_fields s =
     (let lead = has_prefix s ''::''; s0 = (if lead then drop 2 s else s);
          ell0 = (if lead then Some 0 else None) in
      if lead \<and> s0 = [] then Some (replicate 8 0)
      else case ipv6_loop 8 [] ell0 s0 of
        None \<Rightarrow> None
      | Some (gs, ell, rest) \<Rightarrow>
          if rest \<noteq> [] then None
          else if length gs < 8 then
            (case ell of
               None \<Rightarrow> None
             | Some e \<Rightarrow> Some (take e gs @ replicate (8 - length gs) 0 @ drop e gs))
          else if ell \<noteq> None then None
          else Some gs)"

definition addr_of_octets :: "nat list \<Rightarrow> addr" where
  "addr_of_octets fs = IP4 (of_nat (foldl (\<lambda>a f. 256 * a + f) 0 fs))"

definition addr_of_fields :: "nat list \<Rightarrow> addr" where
  "addr_of_fields gs = IP6 (of_nat (foldl (\<lambda>a f. 65536 * a + f) 0 gs))"

text \<open>\<open>ParseAddr\<close> chooses the family by the first of the characters \<open>.\<close>, \<open>:\<close> and \<open>%\<close>.\<close>

definition parse_addr :: "string \<Rightarrow> addr option" where
  "parse_addr s =
     (case find (\<lambda>c. c = CHR ''.'' \<or> c = CHR '':'' \<or> c = CHR ''%'') s of
        None \<Rightarrow> None
      | Some c \<Rightarrow>
          if c = CHR ''.'' then map_option addr_of_octets (ipv4_fields [] 0 0 s)
          else if c = CHR '':'' \<and> CHR ''%'' \<notin> set s then map_option addr_of_fields (ipv6_fields s)
          else None)"

definition parse_prefix :: "string \<Rightarrow> net_prefix option" where
  "parse_prefix s =
     (if CHR ''/'' \<notin> set s then None
      else let b = rev (takeWhile (\<lambda>c. c \<noteq> CHR ''/'') (rev s));
               t = take (length s - Suc (length b)) s in
        case parse_addr t of
          None \<Rightarrow> None
        | Some a \<Rightarrow>
            if b = [] \<or> \<not> list_all dec_digit b \<or> (1 < length b \<and> hd b = CHR ''0'') \<or>
               addr_width a < dec_value b
            then None else Some \<lparr>px_addr = a, px_bits = dec_value b\<rparr>)"

subsection \<open>Rendering\<close>

fun format_hex :: "nat \<Rightarrow> string" where
  "format_hex n = (if n < 16 then [hex_lower n] else format_hex (n div 16) @ [hex_lower (n mod 16)])"

declare format_hex.simps [simp del]

definition octets_of :: "32 word \<Rightarrow> nat list" where
  "octets_of w = map (\<lambda>i. unat w div 256 ^ (3 - i) mod 256) [0..<4]"

definition fields_of :: "128 word \<Rightarrow> nat list" where
  "fields_of w = map (\<lambda>i. unat w div 65536 ^ (7 - i) mod 65536) [0..<8]"

text \<open>The first of the longest runs of at least two zero fields, as \<open>appendTo6\<close> finds it.\<close>

fun zero_span :: "nat \<Rightarrow> nat \<times> nat \<Rightarrow> nat list \<Rightarrow> nat \<times> nat" where
  "zero_span i best [] = best"
| "zero_span i best (g # gs) =
     (let l = length (takeWhile (\<lambda>x. x = 0) (g # gs)) in
      zero_span (Suc i) (if 2 \<le> l \<and> snd best - fst best < l then (i, i + l) else best) gs)"

definition format_ip6 :: "nat list \<Rightarrow> string" where
  "format_ip6 gs =
     (let (s, e) = zero_span 0 (255, 255) gs; hex = map format_hex in
      if s = 255 then join_with CHR '':'' (hex gs)
      else join_with CHR '':'' (hex (take s gs)) @ ''::'' @ join_with CHR '':'' (hex (drop e gs)))"

definition format_ip4 :: "nat list \<Rightarrow> string" where
  "format_ip4 fs = join_with CHR ''.'' (map format_uint fs)"

definition is_4in6 :: "addr \<Rightarrow> bool" where
  "is_4in6 a = (case a of IP4 _ \<Rightarrow> False | IP6 w \<Rightarrow> drop_bit 32 w = 65535)"

definition is_unspecified :: "addr \<Rightarrow> bool" where
  "is_unspecified a = (case a of IP4 w \<Rightarrow> w = 0 | IP6 w \<Rightarrow> w = 0)"

definition addr_string :: "addr \<Rightarrow> string" where
  "addr_string a =
     (case a of
        IP4 w \<Rightarrow> format_ip4 (octets_of w)
      | IP6 w \<Rightarrow> if is_4in6 a then ''::ffff:'' @ format_ip4 (octets_of (ucast w))
               else format_ip6 (fields_of w))"

definition prefix_string :: "net_prefix \<Rightarrow> string" where
  "prefix_string p = addr_string (px_addr p) @ CHR ''/'' # format_uint (px_bits p)"

subsection \<open>Masks and overlap\<close>

definition keep_high :: "nat \<Rightarrow> 'a::len word \<Rightarrow> 'a word" where
  "keep_high b w = push_bit (LENGTH('a) - b) (drop_bit (LENGTH('a) - b) w)"

definition addr_prefix :: "nat \<Rightarrow> addr \<Rightarrow> addr" where
  "addr_prefix b a = (case a of IP4 w \<Rightarrow> IP4 (keep_high b w) | IP6 w \<Rightarrow> IP6 (keep_high b w))"

definition masked :: "net_prefix \<Rightarrow> net_prefix" where
  "masked p = p\<lparr>px_addr := addr_prefix (px_bits p) (px_addr p)\<rparr>"

definition same_family :: "addr \<Rightarrow> addr \<Rightarrow> bool" where
  "same_family a b = (case (a, b) of (IP4 _, IP4 _) \<Rightarrow> True | (IP6 _, IP6 _) \<Rightarrow> True | _ \<Rightarrow> False)"

definition prefix_overlaps :: "net_prefix \<Rightarrow> net_prefix \<Rightarrow> bool" where
  "prefix_overlaps p q \<longleftrightarrow>
     p = q \<or> same_family (px_addr p) (px_addr q) \<and>
       (let b = min (px_bits p) (px_bits q) in
        b = 0 \<or> addr_prefix b (px_addr p) = addr_prefix b (px_addr q))"

text \<open>\<open>Prefix.Contains\<close>, the addresses a prefix stands for.\<close>

definition in_prefix :: "addr \<Rightarrow> net_prefix \<Rightarrow> bool" where
  "in_prefix a p \<longleftrightarrow> same_family a (px_addr p) \<and> addr_prefix (px_bits p) a = addr_prefix (px_bits p) (px_addr p)"

lemma keep_high_bit:
  fixes w :: "'a::len word"
  shows "bit (keep_high b w) n \<longleftrightarrow> LENGTH('a) - b \<le> n \<and> n < LENGTH('a) \<and> bit w n"
  by (auto simp: keep_high_def bit_push_bit_iff bit_drop_bit_eq)

lemma keep_high_iff:
  fixes v w :: "'a::len word"
  shows "keep_high b v = keep_high b w \<longleftrightarrow> (\<forall>n < LENGTH('a). LENGTH('a) - b \<le> n \<longrightarrow> bit v n = bit w n)"
  unfolding bit_eq_iff keep_high_bit possible_bit_word by blast

lemma keep_high_less: "keep_high b v = keep_high b w \<Longrightarrow> c \<le> b \<Longrightarrow> keep_high c v = keep_high c w"
  by (auto simp: keep_high_iff)

lemma keep_high_idem: "keep_high b (keep_high b w) = keep_high b w"
  by (simp add: keep_high_iff keep_high_bit)

lemma keep_high_0: "keep_high 0 w = 0"
  by (simp add: bit_eq_iff keep_high_bit)

lemma same_family_cases:
  assumes "same_family a b"
  obtains v w where "a = IP4 v" "b = IP4 w" | v w where "a = IP6 v" "b = IP6 w"
  using assms by (cases a; cases b) (auto simp: same_family_def)

lemma addr_prefix_less:
  "addr_prefix b x = addr_prefix b y \<Longrightarrow> c \<le> b \<Longrightarrow> addr_prefix c x = addr_prefix c y"
  by (cases x; cases y) (auto simp: addr_prefix_def intro: keep_high_less)

lemma addr_prefix_idem: "addr_prefix b (addr_prefix b x) = addr_prefix b x"
  by (cases x) (auto simp: addr_prefix_def keep_high_idem)

lemma same_family_simps [simp]:
  "same_family a a" "same_family (addr_prefix b a) c = same_family a c" "same_family c (addr_prefix b a) = same_family c a"
  by (cases a; cases c; simp add: same_family_def addr_prefix_def)+

lemma same_family_trans: "same_family x a \<Longrightarrow> same_family x b \<Longrightarrow> same_family a b"
  by (cases x; cases a; cases b) (auto simp: same_family_def)

text \<open>Two prefixes overlap exactly when an address lies in both.\<close>

lemma overlaps_iff: "prefix_overlaps p q \<longleftrightarrow> (\<exists>a. in_prefix a p \<and> in_prefix a q)"
proof
  assume o: "prefix_overlaps p q"
  have widen: "\<exists>a. in_prefix a p \<and> in_prefix a q"
    if "same_family (px_addr p) (px_addr q)" "px_bits p \<le> px_bits q"
      "px_bits p = 0 \<or> addr_prefix (px_bits p) (px_addr p) = addr_prefix (px_bits p) (px_addr q)" for p q
  proof -
    have "in_prefix (px_addr q) p" using that(1)
      by (rule same_family_cases)
        (use that(3) in \<open>auto simp: in_prefix_def addr_prefix_def keep_high_0 same_family_def\<close>)
    moreover have "in_prefix (px_addr q) q" by (simp add: in_prefix_def)
    ultimately show ?thesis by blast
  qed
  show "\<exists>a. in_prefix a p \<and> in_prefix a q"
  proof (cases "p = q")
    case True
    then show ?thesis by (auto simp: in_prefix_def intro: exI [of _ "px_addr q"])
  next
    case False
    then have f: "same_family (px_addr p) (px_addr q)" "same_family (px_addr q) (px_addr p)"
      using o by (auto simp: prefix_overlaps_def same_family_def split: addr.splits)
    show ?thesis
    proof (cases "px_bits p \<le> px_bits q")
      case True
      then show ?thesis using widen [OF f(1)] o False by (auto simp: prefix_overlaps_def min_def Let_def)
    next
      case 2: False
      then show ?thesis using widen [OF f(2)] o False by (auto simp: prefix_overlaps_def min_def Let_def)
    qed
  qed
next
  assume "\<exists>a. in_prefix a p \<and> in_prefix a q"
  then obtain a where a: "in_prefix a p" "in_prefix a q" by blast
  let ?b = "min (px_bits p) (px_bits q)"
  have "addr_prefix ?b a = addr_prefix ?b (px_addr p)" "addr_prefix ?b a = addr_prefix ?b (px_addr q)"
    using a by (auto simp: in_prefix_def intro: addr_prefix_less)
  moreover have "same_family (px_addr p) (px_addr q)" using a same_family_trans by (auto simp: in_prefix_def)
  ultimately show "prefix_overlaps p q" by (auto simp: prefix_overlaps_def Let_def)
qed

subsection \<open>Joined paths\<close>

text \<open>\<open>path.Join\<close>: the elements that are not empty, separated by slashes, and cleaned.\<close>

definition path_join :: "string list \<Rightarrow> string" where
  "path_join ps =
     (let qs = filter (\<lambda>p. p \<noteq> []) ps in if qs = [] then [] else path_clean (join_with CHR ''/'' qs))"

text \<open>The elements of a path that \<open>fs.ValidPath\<close> accepts; the path \<open>.\<close> has none.\<close>

definition path_elems :: "string \<Rightarrow> string list" where
  "path_elems p = (if p = ''.'' then [] else split_on CHR ''/'' p)"

definition rooted_path :: "string list \<Rightarrow> string" where
  "rooted_path es = CHR ''/'' # join_with CHR ''/'' es"

lemma valid_path_elems: "valid_path p \<Longrightarrow> list_all path_elem (path_elems p)"
  by (auto simp: valid_path_def path_elems_def)

lemma clean_path_elems: "list_all path_elem es \<Longrightarrow> clean_elems rooted out es = rev out @ es"
  by (induction es arbitrary: out) (auto simp: path_elem_def)

lemma clean_elems_skip: "clean_elems rooted out (filter (\<lambda>e. e \<noteq> [] \<and> e \<noteq> ''.'') es) = clean_elems rooted out es"
  by (induction rooted out es rule: clean_elems.induct) (auto split: list.splits)

lemma split_on_join:
  "ws \<noteq> [] \<Longrightarrow> (\<And>w. w \<in> set ws \<Longrightarrow> d \<notin> set w) \<Longrightarrow> split_on d (join_with d ws) = ws"
  by (induction d ws rule: join_with.induct) (auto simp: split_on_append split_on_single)

lemma path_elems_no_slash: "e \<in> set (path_elems p) \<Longrightarrow> CHR ''/'' \<notin> set e"
  by (auto simp: path_elems_def split: if_splits dest: split_on_no_sep)

text \<open>A clean absolute path joined with a valid relative one is the concatenation of their elements.\<close>

lemma path_join_root:
  assumes "valid_path p" "p \<noteq> []"
  shows "path_join [''/'', p] = rooted_path (path_elems p)"
proof -
  have e: "list_all path_elem (path_elems p)" using valid_path_elems [OF assms(1)] .
  have "clean_elems True [] (split_on CHR ''/'' (''//'' @ p)) = path_elems p"
  proof (cases "p = ''.''")
    case False
    then show ?thesis using clean_path_elems [OF e, of True "[]"] by (simp add: path_elems_def)
  qed (simp add: path_elems_def)
  then show ?thesis using assms(2) by (simp add: path_join_def path_clean_def rooted_path_def Let_def)
qed

lemma path_join_under:
  assumes "list_all path_elem ms" "ms \<noteq> []" "\<And>m. m \<in> set ms \<Longrightarrow> CHR ''/'' \<notin> set m"
    and "valid_path p" "p \<noteq> []"
  shows "path_join [rooted_path ms, p] = rooted_path (ms @ path_elems p)"
proof -
  have e: "list_all path_elem (ms @ path_elems p)" using valid_path_elems [OF assms(4)] assms(1) by simp
  have s: "split_on CHR ''/'' (rooted_path ms @ CHR ''/'' # p) = [] # ms @ split_on CHR ''/'' p"
    using split_on_join [OF assms(2,3)] split_on_append [of "CHR ''/''" "rooted_path ms" p] by (simp add: rooted_path_def)
  have "clean_elems True [] ([] # ms @ split_on CHR ''/'' p) = ms @ path_elems p"
  proof (cases "p = ''.''")
    case True
    then show ?thesis
      using clean_elems_skip [of True "[]" "[] # ms @ [''.'']", symmetric] clean_path_elems [OF assms(1), of True "[]"]
        assms(1) by (simp add: path_elems_def list_all_iff path_elem_def filter_id_conv [THEN iffD2])
  next
    case False
    then show ?thesis using clean_path_elems [OF e, of True "[]"] by (simp add: path_elems_def)
  qed
  then show ?thesis using s assms(5) by (simp add: path_join_def path_clean_def rooted_path_def Let_def)
qed

subsection \<open>Overlap of joined paths\<close>

lemma join_with_append:
  "vs \<noteq> [] \<Longrightarrow> ws \<noteq> [] \<Longrightarrow> join_with d (vs @ ws) = join_with d vs @ d # join_with d ws"
proof (induction d vs rule: join_with.induct)
  case (2 d w)
  then show ?case by (cases ws) auto
qed auto

definition slash_free :: "string list \<Rightarrow> bool" where
  "slash_free es \<longleftrightarrow> list_all path_elem es \<and> list_all (\<lambda>e. CHR ''/'' \<notin> set e) es"

lemma slash_free_elems: "valid_path p \<Longrightarrow> slash_free (path_elems p)"
  using valid_path_elems path_elems_no_slash by (auto simp: slash_free_def list_all_iff)

lemma slash_free_append [simp]: "slash_free (es @ fs) \<longleftrightarrow> slash_free es \<and> slash_free fs"
  by (auto simp: slash_free_def)

lemma split_slash_free: "slash_free es \<Longrightarrow> es \<noteq> [] \<Longrightarrow> split_on CHR ''/'' (join_with CHR ''/'' es) = es"
  by (rule split_on_join) (auto simp: slash_free_def list_all_iff)

lemma join_slash_free_Nil: "slash_free es \<Longrightarrow> join_with CHR ''/'' es = [] \<longleftrightarrow> es = []"
  using split_slash_free [of es] by (cases "es = []") (auto simp: slash_free_def path_elem_def)

lemma rooted_path_root: "slash_free es \<Longrightarrow> rooted_path es = ''/'' \<longleftrightarrow> es = []"
  by (simp add: rooted_path_def join_slash_free_Nil)

lemma rooted_path_eq:
  assumes "slash_free es" "slash_free fs"
  shows "rooted_path es = rooted_path fs \<longleftrightarrow> es = fs"
proof
  assume "rooted_path es = rooted_path fs"
  then have j: "join_with CHR ''/'' es = join_with CHR ''/'' fs" by (simp add: rooted_path_def)
  show "es = fs"
  proof (cases "es = []")
    case True
    then show ?thesis using j join_slash_free_Nil [OF assms(2)] by simp
  next
    case False
    then have "fs \<noteq> []" using j join_slash_free_Nil [OF assms(1)] by auto
    then show ?thesis using j False split_slash_free assms by metis
  qed
qed simp

lemma rooted_path_below:
  assumes "slash_free es" "slash_free fs" "fs \<noteq> []"
  shows "has_prefix (rooted_path es) (rooted_path fs @ ''/'') \<longleftrightarrow> strict_prefix fs es"
proof
  assume "has_prefix (rooted_path es) (rooted_path fs @ ''/'')"
  then obtain t where t: "join_with CHR ''/'' es = join_with CHR ''/'' fs @ CHR ''/'' # t"
    by (auto simp: has_prefix_iff rooted_path_def)
  then have "es \<noteq> []" by auto
  then have "es = fs @ split_on CHR ''/'' t"
    using t split_slash_free [OF assms(1)] split_slash_free [OF assms(2,3)]
      split_on_append [of "CHR ''/''" "join_with CHR ''/'' fs" t] by simp
  then show "strict_prefix fs es" by (auto simp: strict_prefix_def)
next
  assume "strict_prefix fs es"
  then obtain gs where gs: "es = fs @ gs" "gs \<noteq> []" by (auto simp: strict_prefix_def prefix_def)
  then have "rooted_path es = (rooted_path fs @ ''/'') @ join_with CHR ''/'' gs"
    using join_with_append [OF assms(3) gs(2)] by (simp add: rooted_path_def)
  then show "has_prefix (rooted_path es) (rooted_path fs @ ''/'')" unfolding has_prefix_iff by blast
qed

text \<open>
  Two absolute paths are related by \<open>==\<close>, or by one having the other and a slash as its
  prefix, exactly when the elements of one are a prefix of the other's. The root is a prefix
  of every path but has no such spelling.
\<close>

lemma rooted_paths_related:
  assumes "slash_free es" "slash_free fs" "es \<noteq> []" "fs \<noteq> []"
  shows "rooted_path es = rooted_path fs \<or> has_prefix (rooted_path es) (rooted_path fs @ ''/'') \<or>
     has_prefix (rooted_path fs) (rooted_path es @ ''/'') \<longleftrightarrow> prefix es fs \<or> prefix fs es"
  using rooted_path_eq [OF assms(1,2)] rooted_path_below [OF assms(1,2,4)] rooted_path_below [OF assms(2,1,3)]
  by (auto simp: strict_prefix_def)

lemma prefixes_related: "prefix es xs \<Longrightarrow> prefix fs xs \<Longrightarrow> prefix es fs \<or> prefix fs es"
  using prefix_same_cases by blast

end
