(* ===== verification/Nfs_Config.thy ===== *)
theory Nfs_Config
  imports Share_Store Go_Net MD_Metadata
begin

section \<open>Desired NFS policy\<close>

text \<open>
  The model of \<open>nfsconfig/policy.go\<close>: the export policy, its document form, \<open>Policy.Validate\<close>
  against the share configuration whose volumes it names, and \<open>Build\<close>, which renders the
  candidate exports table. The lemmas show that in an accepted policy at most one client
  entry decides what an address may do with a path, and that the rendered table, read by the
  rules of exports(5), says exactly what the policy says.
\<close>

subsection \<open>Data\<close>

record nfs_client =
  cl_network :: string
  cl_access :: string
  cl_squash :: string
  cl_anonymous_uid :: u32
  cl_anonymous_gid :: u32
  cl_security :: string

record nfs_export =
  ex_id :: string
  ex_volume_id :: string
  ex_relative_path :: string
  ex_clients :: "nfs_client list"

record nfs_policy =
  np_format :: string
  np_schema_version :: int
  np_revision :: u64
  np_volume_revision :: u64
  np_exports :: "nfs_export list option"

datatype nfs_error =
    BadNfsJson
  | BadSharedVolumes
  | StalePolicy
  | BadExportList
  | BadExport nat
  | OverlappingPaths
  | BadClient nat nat
  | OverlappingNetworks
  | PolicyTooLarge

definition nfs_format :: string where "nfs_format = ''phantowd-nfs-policy''"
definition nfs_max_bytes :: int where "nfs_max_bytes = 262144"
definition max_exports :: nat where "max_exports = 128"
definition max_clients :: nat where "max_clients = 64"

subsection \<open>The document\<close>

definition nfs_fields :: "string list" where
  "nfs_fields = [''format'', ''schema_version'', ''revision'', ''volume_revision'', ''exports'', ''id'',
     ''volume_id'', ''relative_path'', ''clients'', ''network'', ''access'', ''squash'', ''anonymous_uid'',
     ''anonymous_gid'', ''security'']"

definition json_client :: "json \<Rightarrow> nfs_client option" where
  "json_client v = do {
     ms \<leftarrow> json_object [''network'', ''access'', ''squash'', ''anonymous_uid'', ''anonymous_gid'', ''security''] v;
     n \<leftarrow> json_member ms ''network'' json_string [];
     a \<leftarrow> json_member ms ''access'' json_string [];
     s \<leftarrow> json_member ms ''squash'' json_string [];
     u \<leftarrow> json_member ms ''anonymous_uid'' json_u32 0;
     g \<leftarrow> json_member ms ''anonymous_gid'' json_u32 0;
     sec \<leftarrow> json_member ms ''security'' json_string [];
     Some \<lparr>cl_network = n, cl_access = a, cl_squash = s, cl_anonymous_uid = u, cl_anonymous_gid = g,
           cl_security = sec\<rparr> }"

definition json_export :: "json \<Rightarrow> nfs_export option" where
  "json_export v = do {
     ms \<leftarrow> json_object [''id'', ''volume_id'', ''relative_path'', ''clients''] v;
     i \<leftarrow> json_member ms ''id'' json_string [];
     vol \<leftarrow> json_member ms ''volume_id'' json_string [];
     p \<leftarrow> json_member ms ''relative_path'' json_string [];
     cs \<leftarrow> json_member ms ''clients'' (json_list json_client) [];
     Some \<lparr>ex_id = i, ex_volume_id = vol, ex_relative_path = p, ex_clients = cs\<rparr> }"

definition json_policy :: "json \<Rightarrow> nfs_policy option" where
  "json_policy v = do {
     ms \<leftarrow> json_object [''format'', ''schema_version'', ''revision'', ''volume_revision'', ''exports''] v;
     f \<leftarrow> json_member ms ''format'' json_string [];
     sv \<leftarrow> json_member ms ''schema_version'' json_int 0;
     r \<leftarrow> json_member ms ''revision'' json_u64 0;
     vr \<leftarrow> json_member ms ''volume_revision'' json_u64 0;
     es \<leftarrow> json_member ms ''exports'' (\<lambda>x. map_option Some (json_list json_export x)) None;
     Some \<lparr>np_format = f, np_schema_version = sv, np_revision = r, np_volume_revision = vr,
           np_exports = es\<rparr> }"

definition put_client :: "nfs_client \<Rightarrow> json" where
  "put_client c = JObj [(''network'', JStr (cl_network c)), (''access'', JStr (cl_access c)),
     (''squash'', JStr (cl_squash c)), (''anonymous_uid'', put_uint (unat (cl_anonymous_uid c))),
     (''anonymous_gid'', put_uint (unat (cl_anonymous_gid c))), (''security'', JStr (cl_security c))]"

definition put_export :: "nfs_export \<Rightarrow> json" where
  "put_export e = JObj [(''id'', JStr (ex_id e)), (''volume_id'', JStr (ex_volume_id e)),
     (''relative_path'', JStr (ex_relative_path e)), (''clients'', put_list put_client (Some (ex_clients e)))]"

definition put_policy :: "nfs_policy \<Rightarrow> json" where
  "put_policy p = JObj [(''format'', JStr (np_format p)), (''schema_version'', put_int (np_schema_version p)),
     (''revision'', put_uint (unat (np_revision p))), (''volume_revision'', put_uint (unat (np_volume_revision p))),
     (''exports'', put_list put_export (np_exports p))]"

subsection \<open>Policy.Validate\<close>

definition anonymousID :: "u32 \<Rightarrow> bool" where
  "anonymousID i \<longleftrightarrow> i \<noteq> 0 \<and> i \<noteq> - 1"

text \<open>
  \<open>strings.ToLower\<close> stands before the hexadecimal decoding, which refuses every string with
  a rune outside ASCII whatever the comparison says.
\<close>

definition nfs_uuid :: "string \<Rightarrow> bool" where
  "nfs_uuid s \<longleftrightarrow>
     length s = 36 \<and> s ! 8 = CHR ''-'' \<and> s ! 13 = CHR ''-'' \<and> s ! 18 = CHR ''-'' \<and> s ! 23 = CHR ''-'' \<and>
     to_lower s = s \<and>
     (let raw = filter (\<lambda>c. c \<noteq> CHR ''-'') s in
      length raw = 32 \<and> raw \<noteq> replicate 32 CHR ''0'' \<and> hex_decode raw \<noteq> None)"

definition nfs_relativePath :: "string \<Rightarrow> bool" where
  "nfs_relativePath s \<longleftrightarrow>
     s \<noteq> [] \<and> length s \<le> 1024 \<and> valid_string s \<and> valid_path s \<and> CHR 0x5C \<notin> set s \<and>
     list_all (\<lambda>ch. 32 \<le> ch \<and> ch \<noteq> 127) (runes s)"

definition forbidden_networks :: "net_prefix list" where
  "forbidden_networks = map (the \<circ> parse_prefix) [''224.0.0.0/4'', ''240.0.0.0/4'', ''ff00::/8'']"

text \<open>A prefix that \<open>ParsePrefix\<close> returns is valid, the first of the conditions here.\<close>

definition validNetwork :: "net_prefix \<Rightarrow> string \<Rightarrow> bool" where
  "validNetwork p spelling \<longleftrightarrow>
     px_bits p \<noteq> 0 \<and> p = masked p \<and> prefix_string p = spelling \<and> \<not> is_4in6 (px_addr p) \<and>
     \<not> is_unspecified (px_addr p) \<and> \<not> list_ex (prefix_overlaps p) forbidden_networks"

definition nfs_overlaps :: "string \<Rightarrow> string \<Rightarrow> bool" where
  "nfs_overlaps a b \<longleftrightarrow>
     a = b \<or> a = ''/'' \<or> b = ''/'' \<or> has_prefix a (b @ ''/'') \<or> has_prefix b (a @ ''/'')"

definition client_fields_ok :: "nfs_client \<Rightarrow> bool" where
  "client_fields_ok c \<longleftrightarrow>
     (cl_access c = ''ro'' \<or> cl_access c = ''rw'') \<and> (cl_squash c = ''root'' \<or> cl_squash c = ''all'') \<and>
     anonymousID (cl_anonymous_uid c) \<and> anonymousID (cl_anonymous_gid c) \<and>
     (cl_security c = ''sys'' \<or> cl_security c = ''krb5'' \<or> cl_security c = ''krb5i'' \<or> cl_security c = ''krb5p'')"

fun check_clients :: "nat \<Rightarrow> nat \<Rightarrow> net_prefix list \<Rightarrow> nfs_client list \<Rightarrow> nfs_error + unit" where
  "check_clients i j seen [] = Inr ()"
| "check_clients i j seen (c # cs) =
     (case parse_prefix (cl_network c) of
        None \<Rightarrow> Inl (BadClient i j)
      | Some px \<Rightarrow>
          if \<not> validNetwork px (cl_network c) \<or> \<not> client_fields_ok c then Inl (BadClient i j)
          else if list_ex (prefix_overlaps px) seen then Inl OverlappingNetworks
          else check_clients i (Suc j) (seen @ [px]) cs)"

definition export_paths_overlap :: "nfs_export \<Rightarrow> nfs_export \<Rightarrow> bool" where
  "export_paths_overlap other e \<longleftrightarrow>
     ex_volume_id other = ex_volume_id e \<and>
     nfs_overlaps (path_join [''/'', ex_relative_path other]) (path_join [''/'', ex_relative_path e])"

fun check_exports :: "nat \<Rightarrow> string list \<Rightarrow> nfs_export list \<Rightarrow> nfs_export list \<Rightarrow> nfs_error + unit" where
  "check_exports i known earlier [] = Inr ()"
| "check_exports i known earlier (e # es) =
     (if \<not> nfs_uuid (ex_id e) \<or> ex_id e \<in> set (map ex_id earlier) \<or> ex_volume_id e \<notin> set known \<or>
         \<not> nfs_relativePath (ex_relative_path e) \<or> length (ex_clients e) = 0 \<or> max_clients < length (ex_clients e)
      then Inl (BadExport i)
      else if list_ex (\<lambda>other. export_paths_overlap other e) earlier then Inl OverlappingPaths
      else case check_clients i 0 [] (ex_clients e) of
        Inl err \<Rightarrow> Inl err
      | Inr _ \<Rightarrow> check_exports (Suc i) known (earlier @ [e]) es)"

definition nfs_validate :: "nfs_policy \<Rightarrow> share_config \<Rightarrow> nfs_error + unit" where
  "nfs_validate p volumes =
     (case share_validate volumes of
        Inl _ \<Rightarrow> Inl BadSharedVolumes
      | Inr _ \<Rightarrow>
          if np_format p \<noteq> nfs_format \<or> np_schema_version p \<noteq> 1 \<or> np_revision p = 0 \<or>
             np_volume_revision p \<noteq> sc_revision volumes
          then Inl StalePolicy
          else case np_exports p of
            None \<Rightarrow> Inl BadExportList
          | Some es \<Rightarrow>
              if max_exports < length es then Inl BadExportList
              else case check_exports 0 (map vol_id (the (sc_volumes volumes))) [] es of
                Inl err \<Rightarrow> Inl err
              | Inr _ \<Rightarrow>
                  if nfs_max_bytes < int (length (json_print (put_policy p))) then Inl PolicyTooLarge
                  else Inr ())"

definition nfs_decode :: "reader \<Rightarrow> share_config \<Rightarrow> nfs_error + nfs_policy" where
  "nfs_decode input volumes =
     (case config_decode json_policy input nfs_max_bytes 8 (Some nfs_fields) of
        None \<Rightarrow> Inl BadNfsJson
      | Some p \<Rightarrow> (case nfs_validate p volumes of Inl e \<Rightarrow> Inl e | Inr _ \<Rightarrow> Inr p))"

subsection \<open>Build\<close>

record export_preview =
  ep_id :: string
  ep_volume_id :: string
  ep_filesystem_uuid :: string
  ep_mount_path :: string
  ep_path :: string
  ep_clients :: "nfs_client list"

record nfs_preview =
  nv_schema_version :: int
  nv_revision :: u64
  nv_volume_revision :: u64
  nv_exports :: "export_preview list"
  nv_table :: string
  nv_uses_auth_sys :: bool
  nv_requires_kerberos :: bool

text \<open>\<open>fmt.Fprintf("\%03o", b)\<close> of the bytes that the exports syntax gives a meaning to.\<close>

definition octal3 :: "nat \<Rightarrow> string" where
  "octal3 b = map (\<lambda>d. char_of (48 + d)) [b div 64, b div 8 mod 8, b mod 8]"

definition escaped_char :: "char \<Rightarrow> bool" where
  "escaped_char c \<longleftrightarrow> c = CHR '' '' \<or> c = CHR 0x22 \<or> c = CHR ''#'' \<or> c = CHR 0x5C"

definition escapePath :: "string \<Rightarrow> string" where
  "escapePath s = concat (map (\<lambda>c. if escaped_char c then CHR 0x5C # octal3 (of_char c) else [c]) s)"

text \<open>
  The sort is by a key that no two elements share, so that an unstable sort has one result.
\<close>

definition preview_export :: "volume list \<Rightarrow> nfs_export \<Rightarrow> export_preview" where
  "preview_export vs e =
     (let mount = path_join [volume_mount_root, ex_volume_id e] in
      \<lparr>ep_id = ex_id e, ep_volume_id = ex_volume_id e,
       ep_filesystem_uuid = (case find (\<lambda>v. vol_id v = ex_volume_id e) vs of
          None \<Rightarrow> [] | Some v \<Rightarrow> vol_filesystem_uuid v),
       ep_mount_path = mount, ep_path = path_join [mount, ex_relative_path e],
       ep_clients = sort_key cl_network (ex_clients e)\<rparr>)"

definition client_entry :: "export_preview \<Rightarrow> nfs_client \<Rightarrow> string" where
  "client_entry e c =
     (let squash = ''root_squash'' @ (if cl_squash c = ''all'' then '',all_squash'' else []);
          subtree = (if ep_path e = ep_mount_path e then ''no_subtree_check'' else ''subtree_check'') in
      '' '' @ cl_network c @ ''('' @ cl_access c @ '',sync,secure,'' @ squash @ '','' @ subtree @
      '',nocrossmnt,sec='' @ cl_security c @ '',anonuid='' @ format_uint (unat (cl_anonymous_uid c)) @
      '',anongid='' @ format_uint (unat (cl_anonymous_gid c)) @ '',fsid='' @ ep_id e @
      '',mountpoint='' @ ep_mount_path e @ '')'')"

definition table_banner :: string where
  "table_banner = ''# PhantoWD candidate exports; verify identities, containment and credentials before activation.''"

definition export_line :: "export_preview \<Rightarrow> string" where
  "export_line e = escapePath (ep_path e) @ concat (map (client_entry e) (ep_clients e))"

definition exports_table :: "export_preview list \<Rightarrow> string" where
  "exports_table es = table_banner @ [CHR 0x0A] @ concat (map (\<lambda>e. export_line e @ [CHR 0x0A]) es)"

definition nfs_build :: "nfs_policy \<Rightarrow> share_config \<Rightarrow> nfs_error + nfs_preview" where
  "nfs_build p volumes =
     (case nfs_validate p volumes of
        Inl e \<Rightarrow> Inl e
      | Inr _ \<Rightarrow>
          let exports = sort_key ep_id (map (preview_export (the (sc_volumes volumes))) (the (np_exports p)));
              clients = concat (map ep_clients exports) in
          Inr \<lparr>nv_schema_version = 1, nv_revision = np_revision p, nv_volume_revision = np_volume_revision p,
            nv_exports = exports, nv_table = exports_table exports,
            nv_uses_auth_sys = list_ex (\<lambda>c. cl_security c = ''sys'') clients,
            nv_requires_kerberos = list_ex (\<lambda>c. cl_security c \<noteq> ''sys'') clients\<rparr>)"

subsection \<open>What an accepted policy promises\<close>

definition client_wf :: "nfs_client \<Rightarrow> bool" where
  "client_wf c \<longleftrightarrow>
     (\<exists>px. parse_prefix (cl_network c) = Some px \<and> validNetwork px (cl_network c)) \<and> client_fields_ok c"

definition client_px :: "nfs_client \<Rightarrow> net_prefix" where
  "client_px c = the (parse_prefix (cl_network c))"

definition clients_wf :: "nfs_client list \<Rightarrow> bool" where
  "clients_wf cs \<longleftrightarrow>
     (\<forall>c \<in> set cs. client_wf c) \<and> sorted_wrt (\<lambda>a b. \<not> prefix_overlaps (client_px b) (client_px a)) cs"

definition export_wf :: "string set \<Rightarrow> nfs_export \<Rightarrow> bool" where
  "export_wf known e \<longleftrightarrow>
     nfs_uuid (ex_id e) \<and> ex_volume_id e \<in> known \<and> nfs_relativePath (ex_relative_path e) \<and>
     ex_clients e \<noteq> [] \<and> length (ex_clients e) \<le> max_clients \<and> clients_wf (ex_clients e)"

definition exports_wf :: "string set \<Rightarrow> nfs_export list \<Rightarrow> bool" where
  "exports_wf known es \<longleftrightarrow>
     (\<forall>e \<in> set es. export_wf known e) \<and> distinct (map ex_id es) \<and>
     sorted_wrt (\<lambda>a b. \<not> export_paths_overlap a b) es"

definition nfs_policy_wf :: "nfs_policy \<Rightarrow> share_config \<Rightarrow> bool" where
  "nfs_policy_wf p volumes \<longleftrightarrow>
     share_config_wf volumes \<and> np_format p = nfs_format \<and> np_schema_version p = 1 \<and> np_revision p \<noteq> 0 \<and>
     np_volume_revision p = sc_revision volumes \<and>
     (\<exists>es. np_exports p = Some es \<and> length es \<le> max_exports \<and>
        exports_wf (vol_id ` set (the (sc_volumes volumes))) es) \<and>
     int (length (json_print (put_policy p))) \<le> nfs_max_bytes"

lemma client_wf_px: "parse_prefix (cl_network c) = Some px \<Longrightarrow> client_px c = px"
  by (simp add: client_px_def)

lemma check_clients_ok_iff:
  "check_clients i j seen cs = Inr () \<longleftrightarrow>
     clients_wf cs \<and> (\<forall>c \<in> set cs. \<forall>px \<in> set seen. \<not> prefix_overlaps (client_px c) px)"
proof (induction cs arbitrary: j seen)
  case (Cons c cs)
  show ?case
  proof (cases "parse_prefix (cl_network c)")
    case None
    then show ?thesis by (auto simp: clients_wf_def client_wf_def)
  next
    case (Some px)
    then show ?thesis using Cons [of "Suc j" "seen @ [px]"]
      by (auto simp: clients_wf_def client_wf_def client_wf_px list_ex_iff)
  qed
qed (simp add: clients_wf_def)

lemma check_exports_ok_iff:
  "check_exports i known earlier es = Inr () \<longleftrightarrow>
     exports_wf (set known) es \<and> (\<forall>e \<in> set es. ex_id e \<notin> ex_id ` set earlier) \<and>
     (\<forall>e \<in> set es. \<forall>other \<in> set earlier. \<not> export_paths_overlap other e)"
proof (induction es arbitrary: i earlier)
  case (Cons e es)
  have ok: "check_clients i 0 [] (ex_clients e) = Inr () \<longleftrightarrow> clients_wf (ex_clients e)"
    by (simp add: check_clients_ok_iff)
  show ?case
  proof (cases "check_clients i 0 [] (ex_clients e)")
    case (Inl err)
    then have "\<not> clients_wf (ex_clients e)" using ok by simp
    then show ?thesis using Inl by (simp add: exports_wf_def export_wf_def)
  next
    case (Inr u)
    then have "clients_wf (ex_clients e)" using ok by simp
    then show ?thesis using Inr Cons [of "Suc i" "earlier @ [e]"]
      by (auto simp: exports_wf_def export_wf_def list_ex_iff intro: rev_image_eqI)
  qed
qed (simp add: exports_wf_def)

lemma nfs_validate_iff: "nfs_validate p volumes = Inr () \<longleftrightarrow> nfs_policy_wf p volumes"
proof (cases "share_validate volumes")
  case (Inl e)
  then have "\<not> share_config_wf volumes" using share_validate_iff [of volumes] by simp
  then show ?thesis using Inl by (simp add: nfs_validate_def nfs_policy_wf_def)
next
  case (Inr u)
  then have v: "share_config_wf volumes" using share_validate_iff [of volumes] by simp
  show ?thesis
  proof (cases "np_exports p")
    case None
    then show ?thesis using Inr by (simp add: nfs_validate_def nfs_policy_wf_def)
  next
    case (Some es)
    have "check_exports 0 (map vol_id (the (sc_volumes volumes))) [] es = Inr () \<longleftrightarrow>
        exports_wf (vol_id ` set (the (sc_volumes volumes))) es"
      by (simp add: check_exports_ok_iff)
    then show ?thesis using Inr Some v
      by (auto simp: nfs_validate_def nfs_policy_wf_def not_less split: sum.splits)
  qed
qed

lemma nfs_decode_iff:
  "nfs_decode input volumes = Inr p \<longleftrightarrow>
     config_decode json_policy input nfs_max_bytes 8 (Some nfs_fields) = Some p \<and> nfs_policy_wf p volumes"
  by (auto simp: nfs_decode_def nfs_validate_iff [symmetric] split: option.splits sum.splits)

subsection \<open>Which entry decides\<close>

lemma relative_paths_overlap:
  assumes "valid_path a" "a \<noteq> []" "valid_path b" "b \<noteq> []"
  shows "nfs_overlaps (path_join [''/'', a]) (path_join [''/'', b]) \<longleftrightarrow>
     prefix (path_elems a) (path_elems b) \<or> prefix (path_elems b) (path_elems a)"
proof -
  note s = slash_free_elems [OF assms(1)] slash_free_elems [OF assms(3)]
  show ?thesis
  proof (cases "path_elems a = [] \<or> path_elems b = []")
    case True
    then show ?thesis using s by (auto simp: nfs_overlaps_def path_join_root assms rooted_path_root)
  next
    case False
    then show ?thesis using rooted_paths_related [OF s] s
      by (simp add: nfs_overlaps_def path_join_root assms rooted_path_root)
  qed
qed

text \<open>
  The entries of a policy that speak of a path on a volume for an address: the export is at
  the path or above it, and the address lies in the client's network.
\<close>

definition export_covers :: "nfs_export \<Rightarrow> string \<Rightarrow> string list \<Rightarrow> bool" where
  "export_covers e vol path \<longleftrightarrow> ex_volume_id e = vol \<and> prefix (path_elems (ex_relative_path e)) path"

definition client_covers :: "nfs_client \<Rightarrow> addr \<Rightarrow> bool" where
  "client_covers c a = (case parse_prefix (cl_network c) of None \<Rightarrow> False | Some px \<Rightarrow> in_prefix a px)"

definition nfs_rules :: "nfs_policy \<Rightarrow> string \<Rightarrow> string list \<Rightarrow> addr \<Rightarrow> (nfs_export \<times> nfs_client) list" where
  "nfs_rules p vol path a =
     concat (map (\<lambda>e. map (Pair e) (filter (\<lambda>c. client_covers c a) (ex_clients e)))
       (filter (\<lambda>e. export_covers e vol path) (case np_exports p of None \<Rightarrow> [] | Some es \<Rightarrow> es)))"

lemma sorted_wrt_filter_one:
  assumes "sorted_wrt R xs" "\<And>x y. x \<in> set xs \<Longrightarrow> y \<in> set xs \<Longrightarrow> R x y \<Longrightarrow> \<not> (P x \<and> P y)"
  shows "length (filter P xs) \<le> 1"
  using assms
proof (induction xs)
  case (Cons x xs)
  show ?case
  proof (cases "P x")
    case True
    then have "filter P xs = []" using Cons.prems by (auto simp: filter_empty_conv)
    then show ?thesis by simp
  next
    case False
    then show ?thesis using Cons by simp
  qed
qed simp

lemma one_export_covers:
  assumes "exports_wf known es"
  shows "length (filter (\<lambda>e. export_covers e vol path) es) \<le> 1"
proof (rule sorted_wrt_filter_one)
  show "sorted_wrt (\<lambda>a b. \<not> export_paths_overlap a b) es" using assms by (simp add: exports_wf_def)
  fix a b assume ab: "a \<in> set es" "b \<in> set es" "\<not> export_paths_overlap a b"
  have "valid_path (ex_relative_path e) \<and> ex_relative_path e \<noteq> []" if "e \<in> set es" for e
    using assms that by (auto simp: exports_wf_def export_wf_def nfs_relativePath_def)
  then show "\<not> (export_covers a vol path \<and> export_covers b vol path)"
    using ab relative_paths_overlap [of "ex_relative_path a" "ex_relative_path b"] prefixes_related
    by (auto simp: export_covers_def export_paths_overlap_def)
qed

lemma one_client_covers:
  assumes "clients_wf cs"
  shows "length (filter (\<lambda>c. client_covers c a) cs) \<le> 1"
proof (rule sorted_wrt_filter_one)
  show "sorted_wrt (\<lambda>a b. \<not> prefix_overlaps (client_px b) (client_px a)) cs"
    using assms by (simp add: clients_wf_def)
  fix c d assume "\<not> prefix_overlaps (client_px d) (client_px c)"
  then show "\<not> (client_covers c a \<and> client_covers d a)"
    by (auto simp: client_covers_def client_px_def overlaps_iff split: option.splits)
qed

lemma nfs_rules_one:
  assumes "nfs_policy_wf p volumes"
  shows "length (nfs_rules p vol path a) \<le> 1"
proof -
  obtain es where es: "np_exports p = Some es" "exports_wf (vol_id ` set (the (sc_volumes volumes))) es"
    using assms by (auto simp: nfs_policy_wf_def)
  let ?fs = "filter (\<lambda>e. export_covers e vol path) es"
  have "length ?fs \<le> 1" by (rule one_export_covers [OF es(2)])
  then consider "?fs = []" | e where "?fs = [e]" "e \<in> set es"
    by (cases ?fs) (auto dest: filter_eq_ConsD)
  then show ?thesis
  proof cases
    case 2
    then have "clients_wf (ex_clients e)" using es by (simp add: exports_wf_def export_wf_def)
    then show ?thesis using one_client_covers es 2 by (simp add: nfs_rules_def)
  qed (use es in \<open>simp add: nfs_rules_def\<close>)
qed

subsection \<open>Reading the rendered table\<close>

text \<open>
  A reader for the table by the rules of exports(5): a line that is empty or starts with
  \<open>#\<close> says nothing; otherwise its words are separated by spaces, the first is the path with
  octal escapes, and each other is a client and its options in parentheses.
\<close>

definition octal_char :: "char \<Rightarrow> bool" where
  "octal_char c \<longleftrightarrow> 48 \<le> (of_char c :: nat) \<and> (of_char c :: nat) \<le> 55"

fun exports_unescape :: "string \<Rightarrow> string" where
  "exports_unescape (c # x # y # z # cs) =
     (if c = CHR 0x5C \<and> octal_char x \<and> octal_char y \<and> octal_char z
      then char_of (64 * (of_char x - 48) + 8 * (of_char y - 48) + (of_char z - 48 :: nat)) # exports_unescape cs
      else c # exports_unescape (x # y # z # cs))"
| "exports_unescape s = s"

definition read_client :: "string \<Rightarrow> string \<times> string list" where
  "read_client w =
     (takeWhile (\<lambda>c. c \<noteq> CHR ''('') w, split_on CHR '','' (butlast (tl (dropWhile (\<lambda>c. c \<noteq> CHR ''('') w))))"

definition read_export_line :: "string \<Rightarrow> string \<times> (string \<times> string list) list" where
  "read_export_line l =
     (exports_unescape (hd (split_on CHR '' '' l)), map read_client (tl (split_on CHR '' '' l)))"

definition read_exports :: "string \<Rightarrow> (string \<times> (string \<times> string list) list) list" where
  "read_exports t = map read_export_line (filter (\<lambda>l. l \<noteq> [] \<and> hd l \<noteq> CHR ''#'') (split_on CHR 0x0A t))"

text \<open>The options of a client, one by one.\<close>

definition client_options :: "export_preview \<Rightarrow> nfs_client \<Rightarrow> string list" where
  "client_options e c =
     [cl_access c, ''sync'', ''secure'', ''root_squash''] @
     (if cl_squash c = ''all'' then [''all_squash''] else []) @
     [if ep_path e = ep_mount_path e then ''no_subtree_check'' else ''subtree_check'', ''nocrossmnt'',
      ''sec='' @ cl_security c, ''anonuid='' @ format_uint (unat (cl_anonymous_uid c)),
      ''anongid='' @ format_uint (unat (cl_anonymous_gid c)), ''fsid='' @ ep_id e,
      ''mountpoint='' @ ep_mount_path e]"

definition client_word :: "export_preview \<Rightarrow> nfs_client \<Rightarrow> string" where
  "client_word e c = cl_network c @ CHR ''('' # join_with CHR '','' (client_options e c) @ [CHR '')'']"

lemma client_entry_word: "client_entry e = (\<lambda>c. CHR '' '' # client_word e c)"
  by (rule ext) (simp add: client_entry_def client_word_def client_options_def Let_def)

lemma join_with_words: "concat (map (\<lambda>w. d # w) ws) = (if ws = [] then [] else d # join_with d ws)"
  by (induction d ws rule: join_with.induct) auto

lemma export_line_words:
  "export_line e = join_with CHR '' '' (escapePath (ep_path e) # map (client_word e) (ep_clients e))"
proof (cases "ep_clients e")
  case (Cons c cs)
  have "concat (map (client_entry e) (ep_clients e)) = concat (map (\<lambda>w. CHR '' '' # w) (map (client_word e) (ep_clients e)))"
    by (simp add: client_entry_word comp_def)
  then show ?thesis unfolding export_line_def join_with_words using Cons by simp
qed (simp add: export_line_def)

lemma unescape_other: "c \<noteq> CHR 0x5C \<Longrightarrow> exports_unescape (c # s) = c # exports_unescape s"
  by (cases "c # s" rule: exports_unescape.cases) auto

lemma octal3_digits:
  assumes "b < 256"
  obtains x y z where "octal3 b = [x, y, z]" "octal_char x" "octal_char y" "octal_char z"
    "64 * (of_char x - 48) + 8 * (of_char y - 48) + (of_char z - 48) = b"
proof -
  have "b div 64 < 8" "b div 8 mod 8 < 8" "b mod 8 < 8" using assms by simp_all
  then have "(of_char (char_of (48 + b div 64) :: char) :: nat) = 48 + b div 64"
    "(of_char (char_of (48 + b div 8 mod 8) :: char) :: nat) = 48 + b div 8 mod 8"
    "(of_char (char_of (48 + b mod 8) :: char) :: nat) = 48 + b mod 8"
    by (simp_all add: of_char_of)
  moreover have "64 * (b div 64) + 8 * (b div 8 mod 8) + b mod 8 = b"
  proof -
    have "b div 64 = b div 8 div 8" using div_mult2_eq [of b 8 8] by simp
    then show ?thesis using mult_div_mod_eq [of 8 "b div 8"] mult_div_mod_eq [of 8 b] by linarith
  qed
  ultimately show thesis using that [of "char_of (48 + b div 64)" "char_of (48 + b div 8 mod 8)" "char_of (48 + b mod 8)"]
      \<open>b div 64 < 8\<close> by (simp add: octal3_def octal_char_def)
qed

lemma unescape_escape: "exports_unescape (escapePath s) = s"
proof (induction s)
  case (Cons c s)
  show ?case
  proof (cases "escaped_char c")
    case True
    have "(of_char c :: nat) < 256" by simp
    then obtain x y z where o: "octal3 (of_char c) = [x, y, z]" "octal_char x" "octal_char y" "octal_char z"
      "64 * (of_char x - 48) + 8 * (of_char y - 48) + (of_char z - 48) = (of_char c :: nat)"
      by (rule octal3_digits)
    then have "exports_unescape (escapePath (c # s)) = c # exports_unescape (escapePath s)"
      using True by (simp add: escapePath_def)
    then show ?thesis using Cons by simp
  next
    case False
    then show ?thesis using Cons unescape_other [of c] by (simp add: escapePath_def escaped_char_def)
  qed
qed (simp add: escapePath_def)

text \<open>Characters that no reader of the table treats as a delimiter.\<close>

definition plain_char :: "char \<Rightarrow> bool" where
  "plain_char c \<longleftrightarrow> c \<notin> {CHR '' '', CHR ''('', CHR '')'', CHR '','', CHR 0x0A}"

lemma escapePath_set:
  assumes "c \<in> set (escapePath s)"
  shows "c = CHR 0x5C \<or> octal_char c \<or> (c \<in> set s \<and> \<not> escaped_char c)"
proof -
  obtain b where b: "b \<in> set s" "c \<in> set (if escaped_char b then CHR 0x5C # octal3 (of_char b) else [b])"
    using assms unfolding escapePath_def set_concat set_map by blast
  obtain x y z where "octal3 (of_char b) = [x, y, z]" "octal_char x" "octal_char y" "octal_char z"
    by (rule octal3_digits [of "of_char b"]) simp
  then show ?thesis using b by (auto split: if_splits)
qed

lemma octal_char_plain: "octal_char c \<Longrightarrow> plain_char c"
  by (auto simp: octal_char_def plain_char_def)

lemma dec_digit_plain: "dec_digit c \<Longrightarrow> plain_char c"
  by (auto simp: dec_digit_def plain_char_def)

lemma format_uint_plain: "list_all plain_char (format_uint n)"
  using format_uint_digits [of n] dec_digit_plain by (auto simp: list_all_iff)

lemma hex_lower_plain: "n < 16 \<Longrightarrow> plain_char (hex_lower n)"
proof -
  have "list_all (\<lambda>n. plain_char (hex_lower n)) [0..<16]" by code_simp
  then show "n < 16 \<Longrightarrow> plain_char (hex_lower n)" by (simp add: list_all_iff)
qed

lemma format_hex_plain: "list_all plain_char (format_hex n)"
proof (induction n rule: format_hex.induct)
  case (1 n)
  then show ?case by (subst format_hex.simps) (auto simp: hex_lower_plain)
qed

lemma join_with_all: "P d \<Longrightarrow> list_all (list_all P) ws \<Longrightarrow> list_all P (join_with d ws)"
  by (induction d ws rule: join_with.induct) auto

lemma plain_colon: "plain_char CHR '':''" "plain_char CHR ''.''" "plain_char CHR ''/''" "plain_char CHR ''f''"
  "plain_char CHR ''-''" "plain_char CHR ''=''"
  by (simp_all add: plain_char_def)

lemma addr_string_plain: "list_all plain_char (addr_string a)"
  by (auto simp: addr_string_def format_ip4_def format_ip6_def list.pred_map comp_def format_uint_plain
      format_hex_plain plain_colon list.pred_True Let_def split: addr.split prod.split intro!: join_with_all)

lemma prefix_string_plain: "list_all plain_char (prefix_string p)"
  by (simp add: prefix_string_def addr_string_plain format_uint_plain plain_colon)

subsection \<open>Where an export lies\<close>

definition mount_elems :: "string \<Rightarrow> string list" where
  "mount_elems vol = [''srv'', ''phantowd'', ''volumes'', vol]"

lemma identifier_chars: "identifier_ok s \<Longrightarrow> list_all (\<lambda>c. lower_rune (of_char c) \<or> digit_rune (of_char c) \<or> c = CHR ''-'') s"
proof -
  assume "identifier_ok s"
  then have "list_all (\<lambda>ch. lower_rune ch \<or> digit_rune ch \<or> ch = 45) (runes s)" by (simp add: identifier_ok_def)
  then have "list_all (\<lambda>c. lower_rune (of_char c) \<or> digit_rune (of_char c) \<or> of_char c = (45 :: nat)) s"
    by (subst (asm) runes_all_ascii) (auto simp: rune_class_defs)
  moreover have "of_char c = (45 :: nat) \<longleftrightarrow> c = CHR ''-''" for c
    using of_char_eq_iff [of c "CHR ''-''", where 'a = nat] by simp
  ultimately show ?thesis by simp
qed

lemma identifier_elem: "identifier_ok s \<Longrightarrow> path_elem s \<and> CHR ''/'' \<notin> set s \<and> list_all plain_char s \<and> s \<noteq> []"
proof -
  assume s: "identifier_ok s"
  then have "s \<noteq> []" by (simp add: identifier_ok_def first_lower_def)
  then have "CHR ''/'' \<notin> set s \<and> CHR ''.'' \<notin> set s \<and> list_all plain_char s"
    using identifier_chars [OF s] by (auto simp: list_all_iff plain_char_def rune_class_defs)
  then show ?thesis using \<open>s \<noteq> []\<close> by (auto simp: path_elem_def)
qed

lemma identifier_path: "identifier_ok s \<Longrightarrow> valid_path s \<and> path_elems s = [s]"
  using identifier_elem [of s] first_lower_ascii [of s]
  by (auto simp: valid_path_def path_elems_def split_on_single path_elem_def)

lemma mount_elems_free: "identifier_ok v \<Longrightarrow> slash_free (mount_elems v)"
  using identifier_elem [of v] by (simp add: slash_free_def mount_elems_def path_elem_def)

lemma mount_root_elems: "volume_mount_root = rooted_path [''srv'', ''phantowd'', ''volumes'']"
  by (simp add: volume_mount_root_def rooted_path_def)

lemma mount_path: "identifier_ok v \<Longrightarrow> path_join [volume_mount_root, v] = rooted_path (mount_elems v)"
  unfolding mount_root_elems using identifier_path [of v] identifier_elem [of v]
  by (subst path_join_under) (auto simp: path_elem_def mount_elems_def)

lemma path_under_mount:
  "identifier_ok v \<Longrightarrow> valid_path p \<Longrightarrow> p \<noteq> [] \<Longrightarrow>
     path_join [rooted_path (mount_elems v), p] = rooted_path (mount_elems v @ path_elems p)"
  using mount_elems_free [of v] by (intro path_join_under) (auto simp: slash_free_def mount_elems_def list_all_iff)

lemma join_with_set: "c \<in> set (join_with d ws) \<Longrightarrow> c = d \<or> (\<exists>w \<in> set ws. c \<in> set w)"
  by (induction d ws rule: join_with.induct) auto

lemma split_on_set: "w \<in> set (split_on d s) \<Longrightarrow> set w \<subseteq> set s"
proof (induction s arbitrary: w)
  case (Cons c s)
  obtain v vs where vs: "split_on d s = v # vs" by (cases "split_on d s") auto
  then have all: "set w' \<subseteq> set s" if "w' \<in> set (v # vs)" for w' using Cons.IH [of w'] that by simp
  have "w = [] \<or> w \<in> set (v # vs) \<or> w = c # v" using Cons.prems vs by (auto split: if_splits)
  then show ?case using all [of w] all [of v] by auto
qed simp

lemma rooted_path_set:
  "c \<in> set (rooted_path (mount_elems v @ path_elems p)) \<Longrightarrow>
     c = CHR ''/'' \<or> plain_char c \<or> c \<in> set v \<or> c \<in> set p"
proof -
  assume "c \<in> set (rooted_path (mount_elems v @ path_elems p))"
  then consider "c = CHR ''/''" | w where "w \<in> set (mount_elems v)" "c \<in> set w" | w where "w \<in> set (path_elems p)" "c \<in> set w"
    by (auto simp: rooted_path_def dest!: join_with_set)
  then show ?thesis
  proof cases
    case 2
    then show ?thesis by (auto simp: mount_elems_def plain_char_def)
  next
    case 3
    then show ?thesis by (auto simp: path_elems_def split: if_splits dest: split_on_set)
  qed simp
qed

lemma hex_value_plain: "hex_value c \<noteq> None \<Longrightarrow> plain_char c"
  by (auto simp: hex_value_def plain_char_def Let_def split: if_splits)

lemma hex_decode_plain: "hex_decode s \<noteq> None \<Longrightarrow> list_all plain_char s"
  by (induction s rule: hex_decode.induct) (auto split: option.splits intro: hex_value_plain)

lemma nfs_uuid_plain: "nfs_uuid s \<Longrightarrow> list_all plain_char s"
proof -
  assume "nfs_uuid s"
  then have "list_all plain_char (filter (\<lambda>c. c \<noteq> CHR ''-'') s)"
    by (simp add: nfs_uuid_def Let_def hex_decode_plain)
  then show ?thesis by (auto simp: list_all_iff plain_char_def)
qed

lemma relative_path_chars: "nfs_relativePath p \<Longrightarrow> c \<in> set p \<Longrightarrow> c \<noteq> CHR 0x0A \<and> c \<noteq> CHR 0x5C"
proof -
  assume p: "nfs_relativePath p" and c: "c \<in> set p"
  have "list_all (\<lambda>ch. 32 \<le> ch \<and> ch \<noteq> 127) (runes p)" using p by (simp add: nfs_relativePath_def)
  then have "32 \<le> (of_char c :: nat)" using c by (subst (asm) runes_all_high) (auto simp: list_all_iff)
  then show ?thesis using p c by (auto simp: nfs_relativePath_def)
qed

text \<open>What the rendering of one export rests on.\<close>

lemma preview_export_facts:
  assumes "export_wf known e" "\<And>v. v \<in> known \<Longrightarrow> identifier_ok v"
  shows "ep_mount_path (preview_export vs e) = rooted_path (mount_elems (ex_volume_id e))"
    and "ep_path (preview_export vs e) = rooted_path (mount_elems (ex_volume_id e) @ path_elems (ex_relative_path e))"
    and "list_all plain_char (ep_id (preview_export vs e))"
    and "list_all plain_char (ep_mount_path (preview_export vs e))"
    and "CHR 0x0A \<notin> set (ep_path (preview_export vs e))"
    and "c \<in> set (ep_clients (preview_export vs e)) \<Longrightarrow> client_wf c"
proof -
  have v: "identifier_ok (ex_volume_id e)" and r: "nfs_relativePath (ex_relative_path e)"
    using assms by (auto simp: export_wf_def)
  show m: "ep_mount_path (preview_export vs e) = rooted_path (mount_elems (ex_volume_id e))"
    by (simp add: preview_export_def Let_def mount_path v)
  show p: "ep_path (preview_export vs e) = rooted_path (mount_elems (ex_volume_id e) @ path_elems (ex_relative_path e))"
    using r by (simp add: preview_export_def Let_def mount_path v path_under_mount nfs_relativePath_def)
  show "list_all plain_char (ep_id (preview_export vs e))"
    using assms by (simp add: preview_export_def Let_def export_wf_def nfs_uuid_plain)
  show "list_all plain_char (ep_mount_path (preview_export vs e))"
    unfolding m using rooted_path_set [of _ "ex_volume_id e" "''.''"] identifier_elem [OF v] plain_colon
    by (auto simp: list_all_iff path_elems_def)
  show "CHR 0x0A \<notin> set (ep_path (preview_export vs e))"
    unfolding p using rooted_path_set [of "CHR 0x0A"] identifier_elem [OF v] relative_path_chars [OF r, of "CHR 0x0A"]
    by (auto simp: list_all_iff plain_char_def)
  show "client_wf c" if "c \<in> set (ep_clients (preview_export vs e))"
    using that assms by (simp add: preview_export_def Let_def export_wf_def clients_wf_def)
qed

subsection \<open>The table says what the policy says\<close>

lemma split_lines:
  "(\<And>l. l \<in> set ls \<Longrightarrow> d \<notin> set l) \<Longrightarrow> split_on d (concat (map (\<lambda>l. l @ [d]) ls)) = ls @ [[]]"
proof (induction ls)
  case (Cons l ls)
  then show ?case using split_on_append [of d l "concat (map (\<lambda>l. l @ [d]) ls)"] by (simp add: split_on_single)
qed simp

lemma client_options_plain:
  assumes "client_wf c" "list_all plain_char (ep_id e)" "list_all plain_char (ep_mount_path e)"
  shows "list_all (list_all plain_char) (client_options e c)" "list_all plain_char (cl_network c)"
proof -
  have "list_all plain_char (cl_access c) \<and> list_all plain_char (cl_security c)"
    using assms(1) by (auto simp: client_wf_def client_fields_ok_def plain_char_def)
  then show "list_all (list_all plain_char) (client_options e c)"
    using assms(2,3) by (simp add: client_options_def format_uint_plain plain_char_def)
  obtain px where "prefix_string px = cl_network c"
    using assms(1) by (auto simp: client_wf_def validNetwork_def)
  then show "list_all plain_char (cl_network c)" using prefix_string_plain [of px] by simp
qed

lemma until_paren:
  "d \<notin> set a \<Longrightarrow> takeWhile (\<lambda>c. c \<noteq> d) (a @ d # b) = a"
  "d \<notin> set a \<Longrightarrow> dropWhile (\<lambda>c. c \<noteq> d) (a @ d # b) = d # b"
  by (induction a) auto

lemma read_client_word:
  assumes "client_wf c" "list_all plain_char (ep_id e)" "list_all plain_char (ep_mount_path e)"
  shows "read_client (client_word e c) = (cl_network c, client_options e c)"
    "CHR '' '' \<notin> set (client_word e c)" "CHR 0x0A \<notin> set (client_word e c)"
proof -
  note o = client_options_plain [OF assms]
  have n: "CHR ''('' \<notin> set (cl_network c)" using o(2) by (auto simp: list_all_iff plain_char_def)
  have "CHR '','' \<notin> set w" if "w \<in> set (client_options e c)" for w
    using o(1) that unfolding list_all_iff plain_char_def by blast
  then have "split_on CHR '','' (join_with CHR '','' (client_options e c)) = client_options e c"
    by (intro split_on_join) (simp_all add: client_options_def)
  then show "read_client (client_word e c) = (cl_network c, client_options e c)"
    unfolding read_client_def client_word_def using until_paren [OF n] by simp
  have "list_all (\<lambda>x. x \<noteq> CHR '' '' \<and> x \<noteq> CHR 0x0A) (join_with CHR '','' (client_options e c))"
    using o(1) by (intro join_with_all) (unfold list_all_iff plain_char_def, simp, blast)
  then show "CHR '' '' \<notin> set (client_word e c)" "CHR 0x0A \<notin> set (client_word e c)"
    using o(2) by (auto simp: client_word_def list_all_iff plain_char_def)
qed

definition export_meaning :: "export_preview \<Rightarrow> string \<times> (string \<times> string list) list" where
  "export_meaning e = (ep_path e, map (\<lambda>c. (cl_network c, client_options e c)) (ep_clients e))"

lemma read_preview_line:
  assumes "export_wf known e" "\<And>v. v \<in> known \<Longrightarrow> identifier_ok v" "x = preview_export vs e"
  shows "read_export_line (export_line x) = export_meaning x" "CHR 0x0A \<notin> set (export_line x)"
    "export_line x \<noteq> []" "hd (export_line x) \<noteq> CHR ''#''"
proof -
  note f = preview_export_facts [OF assms(1,2), where vs = vs, folded assms(3)]
  note w = read_client_word [OF f(6) f(3,4)]
  have p: "CHR '' '' \<notin> set (escapePath (ep_path x))" "CHR 0x0A \<notin> set (escapePath (ep_path x))"
    using escapePath_set [of _ "ep_path x"] f(5) octal_char_plain
    by (auto simp: escaped_char_def plain_char_def)
  let ?ws = "escapePath (ep_path x) # map (client_word x) (ep_clients x)"
  have "split_on CHR '' '' (export_line x) = ?ws"
    unfolding export_line_words using p w(2) by (intro split_on_join) auto
  then show "read_export_line (export_line x) = export_meaning x"
    by (simp add: read_export_line_def export_meaning_def unescape_escape w(1))
  have "list_all (\<lambda>c. c \<noteq> CHR 0x0A) (join_with CHR '' '' ?ws)"
    using p w(3) by (intro join_with_all) (auto simp: list_all_iff)
  then show "CHR 0x0A \<notin> set (export_line x)" unfolding export_line_words by (auto simp: list_all_iff)
  obtain t where "ep_path x = CHR ''/'' # t" using f(2) by (simp add: rooted_path_def)
  then show "export_line x \<noteq> []" "hd (export_line x) \<noteq> CHR ''#''"
    by (simp_all add: export_line_def escapePath_def escaped_char_def)
qed

lemma policy_volume_ids:
  "nfs_policy_wf p volumes \<Longrightarrow> v \<in> vol_id ` set (the (sc_volumes volumes)) \<Longrightarrow> identifier_ok v"
  by (auto simp: nfs_policy_wf_def share_config_wf_def volume_wf_def)

lemma nfs_build_ok:
  assumes "nfs_build p volumes = Inr pv"
  obtains es where "nfs_policy_wf p volumes" "np_exports p = Some es"
    "exports_wf (vol_id ` set (the (sc_volumes volumes))) es"
    "nv_exports pv = sort_key ep_id (map (preview_export (the (sc_volumes volumes))) es)"
    "nv_table pv = exports_table (nv_exports pv)"
    "nv_revision pv = np_revision p" "nv_volume_revision pv = np_volume_revision p"
proof -
  have "nfs_validate p volumes = Inr ()" using assms by (auto simp: nfs_build_def split: sum.splits)
  then have wf: "nfs_policy_wf p volumes" by (simp add: nfs_validate_iff)
  then obtain es where "np_exports p = Some es" "exports_wf (vol_id ` set (the (sc_volumes volumes))) es"
    by (auto simp: nfs_policy_wf_def)
  then show thesis using that [of es] wf assms by (auto simp: nfs_build_def Let_def split: sum.splits)
qed

lemma read_table:
  assumes "nfs_build p volumes = Inr pv"
  shows "read_exports (nv_table pv) = map export_meaning (nv_exports pv)"
proof -
  from assms obtain es where wf: "nfs_policy_wf p volumes"
    and es: "exports_wf (vol_id ` set (the (sc_volumes volumes))) es"
    and x: "nv_exports pv = sort_key ep_id (map (preview_export (the (sc_volumes volumes))) es)"
    and t: "nv_table pv = exports_table (nv_exports pv)"
    by (rule nfs_build_ok)
  have l: "read_export_line (export_line e) = export_meaning e \<and> CHR 0x0A \<notin> set (export_line e) \<and>
      export_line e \<noteq> [] \<and> hd (export_line e) \<noteq> CHR ''#''" if e: "e \<in> set (nv_exports pv)" for e
  proof -
    obtain e0 where e0: "e0 \<in> set es" "e = preview_export (the (sc_volumes volumes)) e0" using e x by auto
    then have "export_wf (vol_id ` set (the (sc_volumes volumes))) e0" using es by (simp add: exports_wf_def)
    from read_preview_line [OF this policy_volume_ids [OF wf] e0(2)] show ?thesis by simp
  qed
  have "CHR 0x0A \<notin> set r" if "r \<in> set (table_banner # map export_line (nv_exports pv))" for r
    using that l by (auto simp: table_banner_def)
  then have "split_on CHR 0x0A (concat (map (\<lambda>l. l @ [CHR 0x0A]) (table_banner # map export_line (nv_exports pv)))) =
      (table_banner # map export_line (nv_exports pv)) @ [[]]"
    by (rule split_lines)
  then have "split_on CHR 0x0A (nv_table pv) = table_banner # map export_line (nv_exports pv) @ [[]]"
    unfolding t exports_table_def by (simp add: comp_def)
  moreover have "filter (\<lambda>l. l \<noteq> [] \<and> hd l \<noteq> CHR ''#'') (map export_line (nv_exports pv)) = map export_line (nv_exports pv)"
    using l by (auto simp: filter_id_conv)
  ultimately show ?thesis using l by (simp add: read_exports_def table_banner_def)
qed

subsection \<open>Which element an error names\<close>

lemma check_clients_error:
  assumes "check_clients i j seen cs = Inl e"
  shows "(\<exists>k < length cs. e = BadClient i (j + k) \<and> \<not> client_wf (cs ! k) \<and> list_all client_wf (take k cs)) \<or>
     e = OverlappingNetworks \<and> (\<exists>k < length cs. list_all client_wf (take (Suc k) cs) \<and>
        (\<exists>px \<in> set (seen @ map client_px (take k cs)). prefix_overlaps (client_px (cs ! k)) px))"
  using assms
proof (induction cs arbitrary: j seen)
  case (Cons c cs)
  show ?case
  proof (cases "client_wf c")
    case False
    then have "e = BadClient i j" using Cons.prems by (auto simp: client_wf_def split: option.splits if_splits)
    then show ?thesis using False by (intro disjI1 exI [of _ 0]) simp
  next
    case True
    then obtain px where px: "parse_prefix (cl_network c) = Some px" "validNetwork px (cl_network c)" "client_fields_ok c"
      by (auto simp: client_wf_def)
    show ?thesis
    proof (cases "list_ex (prefix_overlaps px) seen")
      case over: True
      then have "e = OverlappingNetworks" using Cons.prems px by simp
      then show ?thesis using over True px
        by (intro disjI2 conjI exI [of _ 0]) (auto simp: client_wf_px list_ex_iff)
    next
      case False
      then have "check_clients i (Suc j) (seen @ [px]) cs = Inl e" using Cons.prems px by simp
      from Cons.IH [OF this] show ?thesis
      proof (elim disjE exE conjE)
        fix k assume "k < length cs" "e = BadClient i (Suc j + k)" "\<not> client_wf (cs ! k)" "list_all client_wf (take k cs)"
        then show ?thesis using True by (intro disjI1 exI [of _ "Suc k"]) simp
      next
        fix k assume "e = OverlappingNetworks" "k < length cs" "list_all client_wf (take (Suc k) cs)"
          "\<exists>q \<in> set ((seen @ [px]) @ map client_px (take k cs)). prefix_overlaps (client_px (cs ! k)) q"
        then show ?thesis using True px by (intro disjI2 conjI exI [of _ "Suc k"]) (auto simp: client_wf_px)
      qed
    qed
  qed
qed simp

text \<open>An export that is acceptable by itself, apart from its clients and the other exports.\<close>

definition export_head_wf :: "string set \<Rightarrow> nfs_export \<Rightarrow> bool" where
  "export_head_wf known e \<longleftrightarrow>
     nfs_uuid (ex_id e) \<and> ex_volume_id e \<in> known \<and> nfs_relativePath (ex_relative_path e) \<and>
     ex_clients e \<noteq> [] \<and> length (ex_clients e) \<le> max_clients"

text \<open>
  What is wrong with export \<open>i\<close> of \<open>es\<close> when validation stops there with error \<open>err\<close>, the
  exports before it being acceptable.
\<close>

definition export_fault :: "string set \<Rightarrow> nfs_export list \<Rightarrow> nat \<Rightarrow> nfs_error \<Rightarrow> bool" where
  "export_fault known es i err =
     (let e = es ! i; cs = ex_clients e in
      case err of
        BadExport k \<Rightarrow> k = i \<and> (\<not> export_head_wf known e \<or> ex_id e \<in> ex_id ` set (take i es))
      | OverlappingPaths \<Rightarrow> \<exists>other \<in> set (take i es). export_paths_overlap other e
      | BadClient k j \<Rightarrow> k = i \<and> j < length cs \<and> \<not> client_wf (cs ! j) \<and> list_all client_wf (take j cs)
      | OverlappingNetworks \<Rightarrow> \<exists>j < length cs. \<exists>k < j. prefix_overlaps (client_px (cs ! j)) (client_px (cs ! k))
      | _ \<Rightarrow> False)"

lemma client_error_fault:
  assumes "check_clients (length earlier) 0 [] (ex_clients e) = Inl err"
  shows "export_fault known (earlier @ e # es) (length earlier) err"
  using check_clients_error [OF assms]
  by (auto simp: export_fault_def Let_def in_set_conv_nth) blast

lemma exports_wf_snoc:
  assumes "exports_wf known earlier" "export_head_wf known e" "ex_id e \<notin> ex_id ` set earlier"
    "\<not> list_ex (\<lambda>other. export_paths_overlap other e) earlier" "clients_wf (ex_clients e)"
  shows "exports_wf known (earlier @ [e])"
  using assms by (auto simp: exports_wf_def export_wf_def export_head_wf_def sorted_wrt_append list_ex_iff)

lemma check_exports_error:
  assumes "check_exports (length earlier) known earlier es = Inl err" "exports_wf (set known) earlier"
  shows "\<exists>i < length (earlier @ es). exports_wf (set known) (take i (earlier @ es)) \<and>
     export_fault (set known) (earlier @ es) i err"
  using assms
proof (induction es arbitrary: earlier)
  case (Cons e es)
  let ?all = "earlier @ e # es"
  have here: ?case if "export_fault (set known) ?all (length earlier) err"
    using that Cons.prems(2) by (intro exI [of _ "length earlier"]) simp
  show ?case
  proof (cases "export_head_wf (set known) e \<and> ex_id e \<notin> ex_id ` set earlier")
    case False
    then have "err = BadExport (length earlier)"
      using Cons.prems(1) by (auto simp: export_head_wf_def split: if_splits)
    then show ?thesis using False by (intro here) (auto simp: export_fault_def Let_def)
  next
    case head: True
    then have pre: "check_exports (length earlier) known earlier (e # es) =
        (if list_ex (\<lambda>other. export_paths_overlap other e) earlier then Inl OverlappingPaths
         else case check_clients (length earlier) 0 [] (ex_clients e) of
           Inl err \<Rightarrow> Inl err | Inr _ \<Rightarrow> check_exports (Suc (length earlier)) known (earlier @ [e]) es)"
      by (auto simp: export_head_wf_def)
    show ?thesis
    proof (cases "list_ex (\<lambda>other. export_paths_overlap other e) earlier")
      case True
      then show ?thesis using Cons.prems(1) unfolding pre
        by (intro here) (auto simp: export_fault_def Let_def list_ex_iff)
    next
      case apart: False
      show ?thesis
      proof (cases "check_clients (length earlier) 0 [] (ex_clients e)")
        case (Inl err')
        then show ?thesis using Cons.prems(1) apart unfolding pre by (intro here) (simp add: client_error_fault)
      next
        case (Inr u)
        then have "clients_wf (ex_clients e)" using check_clients_ok_iff [of "length earlier" 0 "[]" "ex_clients e"] by simp
        then have "exports_wf (set known) (earlier @ [e])" using exports_wf_snoc Cons.prems(2) head apart by blast
        moreover have "check_exports (length (earlier @ [e])) known (earlier @ [e]) es = Inl err"
          using Cons.prems(1) apart Inr unfolding pre by simp
        ultimately show ?thesis using Cons.IH [of "earlier @ [e]"] by simp
      qed
    qed
  qed
qed simp

lemma client_forbidden:
  assumes "client_wf c" "f \<in> set forbidden_networks" "in_prefix a f"
  shows "\<not> client_covers c a"
proof -
  obtain px where px: "parse_prefix (cl_network c) = Some px" "validNetwork px (cl_network c)"
    using assms(1) by (auto simp: client_wf_def)
  then have "\<not> prefix_overlaps px f" using assms(2) by (auto simp: validNetwork_def list_ex_iff)
  then show ?thesis using px assms(3) by (auto simp: client_covers_def overlaps_iff)
qed

lemma nfs_rules_forbidden:
  assumes "nfs_policy_wf p volumes" "list_ex (in_prefix a) forbidden_networks"
  shows "nfs_rules p vol path a = []"
proof -
  obtain es where es: "np_exports p = Some es" "exports_wf (vol_id ` set (the (sc_volumes volumes))) es"
    using assms by (auto simp: nfs_policy_wf_def)
  obtain f where "f \<in> set forbidden_networks" "in_prefix a f" using assms(2) by (auto simp: list_ex_iff)
  then have "\<not> client_covers c a" if "e \<in> set es" "c \<in> set (ex_clients e)" for e c
    using es that client_forbidden [of c f a] by (auto simp: exports_wf_def export_wf_def clients_wf_def)
  then show ?thesis using es(1) by (auto simp: nfs_rules_def filter_empty_conv)
qed

lemma preview_export_volume:
  assumes "export_wf (vol_id ` set vs) e"
  shows "\<lparr>vol_id = ex_volume_id e, vol_filesystem_uuid = ep_filesystem_uuid (preview_export vs e)\<rparr> \<in> set vs"
proof -
  have "\<exists>v \<in> set vs. vol_id v = ex_volume_id e" using assms by (auto simp: export_wf_def)
  then obtain v where v: "find (\<lambda>v. vol_id v = ex_volume_id e) vs = Some v"
    by (cases "find (\<lambda>v. vol_id v = ex_volume_id e) vs") (auto simp: find_None_iff)
  then have m: "v \<in> set vs" "vol_id v = ex_volume_id e" by (auto simp: find_Some_iff)
  have "\<lparr>vol_id = ex_volume_id e, vol_filesystem_uuid = ep_filesystem_uuid (preview_export vs e)\<rparr> = v"
    using v m(2) by (intro volume.equality) (simp_all add: preview_export_def Let_def)
  then show ?thesis using m(1) by (simp only:)
qed

definition sample_shares :: share_config where
  "sample_shares = \<lparr>sc_format = share_format, sc_schema_version = 1, sc_revision = 3,
     sc_volumes = Some [\<lparr>vol_id = ''data'', vol_filesystem_uuid = ''00000000-0000-0000-0000-00000000000a''\<rparr>],
     sc_users = Some [], sc_shares = Some []\<rparr>"

definition sample_nfs_client :: "string \<Rightarrow> nfs_client" where
  "sample_nfs_client n = \<lparr>cl_network = n, cl_access = ''rw'', cl_squash = ''all'', cl_anonymous_uid = 65534,
     cl_anonymous_gid = 65534, cl_security = ''sys''\<rparr>"

definition sample_nfs_policy :: nfs_policy where
  "sample_nfs_policy = \<lparr>np_format = nfs_format, np_schema_version = 1, np_revision = 3, np_volume_revision = 3,
     np_exports = Some [
       \<lparr>ex_id = ''00000000-0000-0000-0000-0000000000b1'', ex_volume_id = ''data'', ex_relative_path = ''my films'',
        ex_clients = [sample_nfs_client ''192.168.1.0/24'', sample_nfs_client ''10.0.0.0/8'']\<rparr>,
       \<lparr>ex_id = ''00000000-0000-0000-0000-0000000000a1'', ex_volume_id = ''data'', ex_relative_path = ''music'',
        ex_clients = [sample_nfs_client ''10.0.0.0/8'']\<rparr>]\<rparr>"

lemma forbidden_networks_eq:
  "forbidden_networks = [\<lparr>px_addr = IP4 0xE0000000, px_bits = 4\<rparr>, \<lparr>px_addr = IP4 0xF0000000, px_bits = 4\<rparr>,
     \<lparr>px_addr = IP6 0xFF000000000000000000000000000000, px_bits = 8\<rparr>]"
  by code_simp

lemma sample_networks:
  "parse_prefix ''10.0.0.0/8'' = Some \<lparr>px_addr = IP4 0x0A000000, px_bits = 8\<rparr>"
  "parse_prefix ''192.168.1.0/24'' = Some \<lparr>px_addr = IP4 0xC0A80100, px_bits = 24\<rparr>"
  "prefix_string \<lparr>px_addr = IP4 0x0A000000, px_bits = 8\<rparr> = ''10.0.0.0/8''"
  "prefix_string \<lparr>px_addr = IP4 0xC0A80100, px_bits = 24\<rparr> = ''192.168.1.0/24''"
  by code_simp+

lemma sample_networks_valid:
  "validNetwork \<lparr>px_addr = IP4 0x0A000000, px_bits = 8\<rparr> ''10.0.0.0/8''"
  "validNetwork \<lparr>px_addr = IP4 0xC0A80100, px_bits = 24\<rparr> ''192.168.1.0/24''"
  unfolding validNetwork_def sample_networks forbidden_networks_eq by code_simp+

lemma sample_networks_apart:
  "\<not> prefix_overlaps \<lparr>px_addr = IP4 0x0A000000, px_bits = 8\<rparr> \<lparr>px_addr = IP4 0xC0A80100, px_bits = 24\<rparr>"
  by code_simp

lemma sample_export_fields:
  "nfs_uuid ''00000000-0000-0000-0000-0000000000b1''" "nfs_uuid ''00000000-0000-0000-0000-0000000000a1''"
  "nfs_relativePath ''my films''" "nfs_relativePath ''music''"
  "\<not> nfs_overlaps (path_join [''/'', ''my films'']) (path_join [''/'', ''music''])"
  by code_simp+

lemma sample_client_fields: "client_fields_ok (sample_nfs_client n)"
  by (simp add: sample_nfs_client_def client_fields_ok_def anonymousID_def)

lemma sample_nfs_policy_size: "int (length (json_print (put_policy sample_nfs_policy))) \<le> nfs_max_bytes"
  by code_simp

lemma sample_shares_ok: "share_validate sample_shares = Inr ()"
  by code_simp

lemma sample_nfs_policy_ok: "nfs_validate sample_nfs_policy sample_shares = Inr ()"
proof -
  have n: "cl_network (sample_nfs_client n) = n" for n by (simp add: sample_nfs_client_def)
  have "check_exports 0 [''data''] [] (the (np_exports sample_nfs_policy)) = Inr ()"
    by (simp add: sample_nfs_policy_def sample_export_fields max_clients_def sample_networks sample_networks_valid
        sample_networks_apart sample_client_fields export_paths_overlap_def n)
  then show ?thesis using sample_nfs_policy_size sample_shares_ok
    by (simp add: nfs_validate_def sample_nfs_policy_def sample_shares_def max_exports_def)
qed

subsection \<open>Properties\<close>

text \<open>
  C34: In a policy that \<open>Validate\<close> accepts, at most one client entry of one export speaks of
  any path on any volume for any address, so that no request is decided by the order of the
  table; and no entry at all speaks for a multicast or reserved address.
\<close>

theorem nfs_one_rule:
  assumes "nfs_validate p volumes = Inr ()"
  shows "length (nfs_rules p vol path a) \<le> 1 \<and>
     (list_ex (in_prefix a) forbidden_networks \<longrightarrow> nfs_rules p vol path a = [])"
  using assms nfs_rules_one nfs_rules_forbidden by (simp add: nfs_validate_iff)

theorem nfs_one_rule_witness:
  "length (nfs_rules sample_nfs_policy ''data'' [''my films'', ''old''] (IP4 0x0A000001)) \<le> 1"
  using nfs_one_rule [OF sample_nfs_policy_ok] by blast

text \<open>
  C36: When \<open>Validate\<close> refuses an export list of acceptable length, the error names the first
  fault: the exports before the one it stopped at are acceptable together, and that export
  is malformed or repeats an identifier (\<open>BadExport\<close>), lies over an earlier one, has a
  malformed client at the reported index with only well-formed ones before it
  (\<open>BadClient\<close>), or has two overlapping networks.
\<close>

theorem nfs_error_first_fault:
  assumes "nfs_validate p volumes = Inl err" "err \<notin> {BadSharedVolumes, StalePolicy, BadExportList, PolicyTooLarge}"
    and "np_exports p = Some es"
  shows "\<exists>i < length es. exports_wf (vol_id ` set (the (sc_volumes volumes))) (take i es) \<and>
     export_fault (vol_id ` set (the (sc_volumes volumes))) es i err"
proof -
  have "check_exports (length []) (map vol_id (the (sc_volumes volumes))) [] es = Inl err"
    using assms by (auto simp: nfs_validate_def split: sum.splits if_splits)
  from check_exports_error [OF this] show ?thesis by (simp add: exports_wf_def)
qed

definition faulty_policy :: nfs_policy where
  "faulty_policy = sample_nfs_policy\<lparr>np_exports := Some [
       \<lparr>ex_id = ''00000000-0000-0000-0000-0000000000b1'', ex_volume_id = ''data'', ex_relative_path = ''music'',
        ex_clients = [sample_nfs_client ''10.0.0.0/8'', sample_nfs_client ''10.0.0.1/8'']\<rparr>]\<rparr>"

lemma faulty_client: "parse_prefix ''10.0.0.1/8'' = Some \<lparr>px_addr = IP4 0x0A000001, px_bits = 8\<rparr>"
    "\<not> validNetwork \<lparr>px_addr = IP4 0x0A000001, px_bits = 8\<rparr> ''10.0.0.1/8''"
proof -
  show "parse_prefix ''10.0.0.1/8'' = Some \<lparr>px_addr = IP4 0x0A000001, px_bits = 8\<rparr>" by code_simp
  have "\<lparr>px_addr = IP4 0x0A000001, px_bits = 8\<rparr> \<noteq> masked \<lparr>px_addr = IP4 0x0A000001, px_bits = 8\<rparr>" by code_simp
  then show "\<not> validNetwork \<lparr>px_addr = IP4 0x0A000001, px_bits = 8\<rparr> ''10.0.0.1/8''" by (simp add: validNetwork_def)
qed

lemma faulty_policy_error: "nfs_validate faulty_policy sample_shares = Inl (BadClient 0 1)"
proof -
  have n: "cl_network (sample_nfs_client n) = n" for n by (simp add: sample_nfs_client_def)
  show ?thesis using sample_shares_ok
    by (simp add: nfs_validate_def faulty_policy_def sample_nfs_policy_def sample_shares_def max_exports_def
        sample_export_fields max_clients_def sample_networks sample_networks_valid sample_client_fields n faulty_client)
qed

theorem nfs_error_first_fault_witness:
  "\<exists>i < length (the (np_exports faulty_policy)).
     export_fault (vol_id ` set (the (sc_volumes sample_shares))) (the (np_exports faulty_policy)) i (BadClient 0 1)"
  using nfs_error_first_fault [OF faulty_policy_error, of "the (np_exports faulty_policy)"]
  by (auto simp: faulty_policy_def)



end
