(* ===== verification/Smb_Config.thy ===== *)
theory Smb_Config
  imports Nfs_Config
begin

section \<open>Candidate Samba share sections\<close>

text \<open>
  The model of \<open>smbconfig/preview.go\<close>: \<open>Build\<close> and \<open>BuildIsolated\<close> turn a valid share policy
  into the volumes it needs, the resolved shares and the text of their Samba sections. The
  lemmas read that text by the rules of smb.conf(5) and show that it gives each user exactly
  the access that the policy grants.
\<close>

subsection \<open>Data\<close>

record volume_requirement =
  vr_volume_id :: string
  vr_filesystem_uuid :: string
  vr_mount_path :: string

record share_preview =
  sh_id :: string
  sh_name :: string
  sh_volume_id :: string
  sh_path :: string
  sh_read_only :: "string list"
  sh_read_write :: "string list"

record smb_preview =
  sm_schema_version :: int
  sm_revision :: u64
  sm_volumes :: "volume_requirement list"
  sm_shares :: "share_preview list"
  sm_sections :: string

datatype smb_error =
    BadSharePolicy
  | SharePolicyTooLarge
  | IsolatedRoot
  | UnsafeShare nat
  | AmbiguousSpace nat
  | OverlappingShares

definition unsafeValue :: "string \<Rightarrow> bool" where
  "unsafeValue s \<longleftrightarrow> list_ex (\<lambda>c. c \<in> {CHR ''%'', CHR 0x22, CHR ''#'', CHR '';'', CHR ''='', CHR ''['', CHR '']''}) s"

definition smb_overlaps :: "string \<Rightarrow> string \<Rightarrow> bool" where
  "smb_overlaps a b \<longleftrightarrow> a = b \<or> has_prefix a (b @ ''/'') \<or> has_prefix b (a @ ''/'')"

subsection \<open>build\<close>

text \<open>The maps from volume and user identifiers; an absent key gives the zero value.\<close>

definition volume_need :: "volume list \<Rightarrow> string \<Rightarrow> volume_requirement" where
  "volume_need vs i =
     (case find (\<lambda>v. vol_id v = i) (rev vs) of
        None \<Rightarrow> \<lparr>vr_volume_id = [], vr_filesystem_uuid = [], vr_mount_path = []\<rparr>
      | Some v \<Rightarrow> \<lparr>vr_volume_id = vol_id v, vr_filesystem_uuid = vol_filesystem_uuid v,
                  vr_mount_path = path_join [volume_mount_root, vol_id v]\<rparr>)"

definition name_of :: "user list \<Rightarrow> string \<Rightarrow> string" where
  "name_of us i = (case find (\<lambda>u. user_id u = i) (rev us) of None \<Rightarrow> [] | Some u \<Rightarrow> user_name u)"

definition preview_share :: "volume list \<Rightarrow> user list \<Rightarrow> share \<Rightarrow> share_preview" where
  "preview_share vs us s =
     \<lparr>sh_id = share_id s, sh_name = share_label s, sh_volume_id = share_volume_id s,
      sh_path = path_join [vr_mount_path (volume_need vs (share_volume_id s)), share_relative_path s],
      sh_read_only = sort (map (name_of us \<circ> grant_user_id) (filter (\<lambda>g. grant_access g \<noteq> ''rw'') (share_grants s))),
      sh_read_write = sort (map (name_of us \<circ> grant_user_id) (filter (\<lambda>g. grant_access g = ''rw'') (share_grants s)))\<rparr>"

fun build_shares ::
  "bool \<Rightarrow> volume list \<Rightarrow> user list \<Rightarrow> nat \<Rightarrow> share_preview list \<Rightarrow> share list \<Rightarrow> smb_error + share_preview list"
where
  "build_shares isolated vs us i out [] = Inr out"
| "build_shares isolated vs us i out (s # ss) =
     (if isolated \<and> share_relative_path s = ''.'' then Inl IsolatedRoot
      else if unsafeValue (share_label s) \<or> unsafeValue (share_relative_path s) then Inl (UnsafeShare i)
      else if \<not> list_all trimmed (split_on CHR ''/'' (share_relative_path s)) then Inl (AmbiguousSpace i)
      else let item = preview_share vs us s in
        if list_ex (\<lambda>other. sh_volume_id other = share_volume_id s \<and> smb_overlaps (sh_path other) (sh_path item)) out
        then Inl OverlappingShares
        else build_shares isolated vs us (Suc i) (out @ [item]) ss)"

definition smb_banner :: "string list" where
  "smb_banner = [''# PhantoWD candidate share sections; not an activation authorization.'',
     ''# Verify filesystem identity, mount containment, accounts and POSIX ACLs first.'']"

definition section_lines :: "share_preview \<Rightarrow> string list" where
  "section_lines s =
     [[], ''['' @ sh_name s @ '']'', ''    path = '' @ sh_path s,
      ''    guest ok = no'', ''    guest only = no'', ''    read only = yes'', ''    browseable = yes'',
      ''    valid users = '' @ join_with CHR '' '' (sort (sh_read_only s @ sh_read_write s)),
      ''    read list = '' @ join_with CHR '' '' (sh_read_only s),
      ''    write list = '' @ join_with CHR '' '' (sh_read_write s),
      ''    wide links = no'', ''    follow symlinks = no'', ''    create mask = 0660'', ''    directory mask = 0770'']"

definition unlines :: "string list \<Rightarrow> string" where
  "unlines ls = concat (map (\<lambda>l. l @ [CHR 0x0A]) ls)"

definition smb_sections :: "share_preview list \<Rightarrow> string" where
  "smb_sections ss = unlines (smb_banner @ concat (map section_lines ss))"

text \<open>
  The volumes of the used shares come out of a map in no order and are then sorted by their
  identifiers, which are distinct.
\<close>

definition smb_build_with :: "share_config \<Rightarrow> bool \<Rightarrow> smb_error + smb_preview" where
  "smb_build_with c isolated =
     (if \<not> is_ok (share_validate c) then Inl BadSharePolicy
      else if share_max_bytes < int (length (json_print (put_share_config c))) then Inl SharePolicyTooLarge
      else let vs = the (sc_volumes c); us = the (sc_users c); ss = the (sc_shares c) in
        case build_shares isolated vs us 0 [] ss of
          Inl e \<Rightarrow> Inl e
        | Inr items \<Rightarrow>
            let sorted = sort_key sh_id items;
                placed = (if isolated then map (\<lambda>s. s\<lparr>sh_path := ''/shares/'' @ sh_id s\<rparr>) sorted else sorted) in
            Inr \<lparr>sm_schema_version = 1, sm_revision = sc_revision c,
                 sm_volumes = sort_key vr_volume_id (map (volume_need vs) (remdups (map share_volume_id ss))),
                 sm_shares = placed, sm_sections = smb_sections placed\<rparr>)"

definition smb_build :: "share_config \<Rightarrow> smb_error + smb_preview" where
  "smb_build c = smb_build_with c False"

definition smb_build_isolated :: "share_config \<Rightarrow> smb_error + smb_preview" where
  "smb_build_isolated c = smb_build_with c True"

subsection \<open>Reading the rendered sections\<close>

text \<open>
  A reader for the sections by the rules of smb.conf(5): empty lines and comments say
  nothing, a line in brackets opens a section, every other line is a parameter name, an
  equals sign and a value, with the spaces around them dropped.
\<close>

definition spaces_off :: "string \<Rightarrow> string" where
  "spaces_off s = dropWhile (\<lambda>c. c = CHR '' '') s"

definition conf_param :: "string \<Rightarrow> string \<times> string" where
  "conf_param l =
     (let t = spaces_off l; k = takeWhile (\<lambda>c. c \<noteq> CHR ''='') t in
      (rev (spaces_off (rev k)), spaces_off (drop (Suc (length k)) t)))"

type_synonym conf_section = "string \<times> (string \<times> string) list"

fun read_conf :: "conf_section list \<Rightarrow> string list \<Rightarrow> conf_section list" where
  "read_conf acc [] = rev acc"
| "read_conf acc (l # ls) =
     (if l = [] \<or> hd l = CHR ''#'' then read_conf acc ls
      else if hd l = CHR ''['' then read_conf ((butlast (tl l), []) # acc) ls
      else case acc of
        [] \<Rightarrow> read_conf acc ls
      | (n, ps) # acc' \<Rightarrow> read_conf ((n, ps @ [conf_param l]) # acc') ls)"

definition conf_sections :: "string \<Rightarrow> conf_section list" where
  "conf_sections t = read_conf [] (split_on CHR 0x0A t)"

definition conf_names :: "string option \<Rightarrow> string list" where
  "conf_names v = (case v of None \<Rightarrow> [] | Some s \<Rightarrow> filter (\<lambda>w. w \<noteq> []) (split_on CHR '' '' s))"

text \<open>
  The access of a user to a section: none without an entry in \<open>valid users\<close>; for a section
  that is read only, writing to those in \<open>write list\<close>.
\<close>

definition conf_access :: "(string \<times> string) list \<Rightarrow> string \<Rightarrow> string option" where
  "conf_access ps u =
     (if map_of ps ''guest ok'' = Some ''no'' \<and> u \<notin> set (conf_names (map_of ps ''valid users'')) then None
      else if map_of ps ''read only'' = Some ''yes'' \<and> u \<notin> set (conf_names (map_of ps ''write list''))
      then Some ''ro'' else Some ''rw'')"

definition section_params :: "share_preview \<Rightarrow> (string \<times> string) list" where
  "section_params s =
     [(''path'', sh_path s), (''guest ok'', ''no''), (''guest only'', ''no''), (''read only'', ''yes''),
      (''browseable'', ''yes''), (''valid users'', join_with CHR '' '' (sort (sh_read_only s @ sh_read_write s))),
      (''read list'', join_with CHR '' '' (sh_read_only s)), (''write list'', join_with CHR '' '' (sh_read_write s)),
      (''wide links'', ''no''), (''follow symlinks'', ''no''), (''create mask'', ''0660''), (''directory mask'', ''0770'')]"

definition value_ok :: "string \<Rightarrow> bool" where
  "value_ok v \<longleftrightarrow> CHR 0x0A \<notin> set v \<and> (v = [] \<or> hd v \<noteq> CHR '' '')"

definition preview_ok :: "share_preview \<Rightarrow> bool" where
  "preview_ok s \<longleftrightarrow> CHR 0x0A \<notin> set (sh_name s) \<and> value_ok (sh_path s) \<and>
     (\<forall>n \<in> set (sh_read_only s @ sh_read_write s). n \<noteq> [] \<and> CHR '' '' \<notin> set n \<and> CHR 0x0A \<notin> set n)"

lemma spaces_off_value: "value_ok v \<Longrightarrow> spaces_off v = v"
  by (cases v) (auto simp: value_ok_def spaces_off_def)

lemma joined_names_ok:
  "(\<And>n. n \<in> set ns \<Longrightarrow> n \<noteq> [] \<and> CHR '' '' \<notin> set n \<and> CHR 0x0A \<notin> set n) \<Longrightarrow>
   value_ok (join_with CHR '' '' ns) \<and> conf_names (Some (join_with CHR '' '' ns)) = ns"
proof -
  assume ns: "\<And>n. n \<in> set ns \<Longrightarrow> n \<noteq> [] \<and> CHR '' '' \<notin> set n \<and> CHR 0x0A \<notin> set n"
  have "CHR 0x0A \<notin> set (join_with CHR '' '' ns)" using ns join_with_set by fastforce
  moreover have "join_with CHR '' '' ns = [] \<or> hd (join_with CHR '' '' ns) \<noteq> CHR '' ''"
  proof (cases ns)
    case (Cons n ms)
    then have n: "n \<noteq> []" "CHR '' '' \<notin> set n" using ns [of n] by auto
    then have "hd n \<noteq> CHR '' ''" using hd_in_set [of n] by metis
    then show ?thesis using Cons n(1) by (cases ms) auto
  qed simp
  moreover have "conf_names (Some (join_with CHR '' '' ns)) = ns"
  proof (cases "ns = []")
    case False
    then have "split_on CHR '' '' (join_with CHR '' '' ns) = ns" using ns by (intro split_on_join) auto
    then show ?thesis using ns by (simp add: conf_names_def filter_id_conv)
  qed (simp add: conf_names_def)
  ultimately show ?thesis by (simp add: value_ok_def)
qed

lemma conf_param_path: "value_ok v \<Longrightarrow> conf_param (''    path = '' @ v) = (''path'', v)"
  using spaces_off_value [of v] by (simp add: conf_param_def Let_def spaces_off_def)

lemma conf_param_lists:
  "value_ok v \<Longrightarrow> conf_param (''    valid users = '' @ v) = (''valid users'', v)"
  "value_ok v \<Longrightarrow> conf_param (''    read list = '' @ v) = (''read list'', v)"
  "value_ok v \<Longrightarrow> conf_param (''    write list = '' @ v) = (''write list'', v)"
  using spaces_off_value [of v] by (simp_all add: conf_param_def Let_def spaces_off_def)

lemma conf_param_fixed:
  "conf_param ''    guest ok = no'' = (''guest ok'', ''no'')"
  "conf_param ''    guest only = no'' = (''guest only'', ''no'')"
  "conf_param ''    read only = yes'' = (''read only'', ''yes'')"
  "conf_param ''    browseable = yes'' = (''browseable'', ''yes'')"
  "conf_param ''    wide links = no'' = (''wide links'', ''no'')"
  "conf_param ''    follow symlinks = no'' = (''follow symlinks'', ''no'')"
  "conf_param ''    create mask = 0660'' = (''create mask'', ''0660'')"
  "conf_param ''    directory mask = 0770'' = (''directory mask'', ''0770'')"
  by (simp_all add: conf_param_def Let_def spaces_off_def)

lemma preview_lists_ok:
  assumes "preview_ok s"
  shows "value_ok (join_with CHR '' '' (sh_read_only s))" "value_ok (join_with CHR '' '' (sh_read_write s))"
    "value_ok (join_with CHR '' '' (sort (sh_read_only s @ sh_read_write s)))"
  using assms by (auto simp: preview_ok_def intro!: joined_names_ok [THEN conjunct1])

lemma read_section_lines:
  assumes "preview_ok s"
  shows "read_conf acc (section_lines s @ ls) = read_conf ((sh_name s, section_params s) # acc) ls"
proof -
  have "value_ok (sh_path s)" using assms by (simp add: preview_ok_def)
  note p = conf_param_path [OF this] conf_param_fixed
    conf_param_lists(1) [OF preview_lists_ok(3) [OF assms]] conf_param_lists(2) [OF preview_lists_ok(1) [OF assms]]
    conf_param_lists(3) [OF preview_lists_ok(2) [OF assms]]
  show ?thesis unfolding section_lines_def section_params_def
    using p [simplified] by simp
qed

lemma read_sections_lines:
  "list_all preview_ok ss \<Longrightarrow>
   read_conf acc (concat (map section_lines ss) @ [[]]) = rev acc @ map (\<lambda>s. (sh_name s, section_params s)) ss"
  by (induction ss arbitrary: acc) (simp_all add: read_section_lines)

lemma section_lines_no_break: "preview_ok s \<Longrightarrow> list_all (\<lambda>l. CHR 0x0A \<notin> set l) (section_lines s)"
  using preview_lists_ok [of s] by (simp add: section_lines_def preview_ok_def value_ok_def)

lemma conf_sections_exact:
  assumes "list_all preview_ok ss"
  shows "conf_sections (smb_sections ss) = map (\<lambda>s. (sh_name s, section_params s)) ss"
proof -
  let ?ls = "smb_banner @ concat (map section_lines ss)"
  have "CHR 0x0A \<notin> set l" if "l \<in> set ?ls" for l
  proof -
    from that consider "l \<in> set smb_banner" | s where "s \<in> set ss" "l \<in> set (section_lines s)" by auto
    then show ?thesis
    proof cases
      case 1
      then show ?thesis by (auto simp: smb_banner_def)
    next
      case 2
      then have "list_all (\<lambda>l. CHR 0x0A \<notin> set l) (section_lines s)"
        using assms by (intro section_lines_no_break) (simp add: list_all_iff)
      then show ?thesis using 2 unfolding list_all_iff by blast
    qed
  qed
  then have "split_on CHR 0x0A (smb_sections ss) = ?ls @ [[]]"
    unfolding smb_sections_def unlines_def by (rule split_lines)
  then show ?thesis using read_sections_lines [OF assms, of "[]"] by (simp add: conf_sections_def smb_banner_def)
qed

subsection \<open>What build accepts\<close>

definition share_safe :: "bool \<Rightarrow> share \<Rightarrow> bool" where
  "share_safe isolated s \<longleftrightarrow>
     \<not> (isolated \<and> share_relative_path s = ''.'') \<and> \<not> unsafeValue (share_label s) \<and>
     \<not> unsafeValue (share_relative_path s) \<and> list_all trimmed (split_on CHR ''/'' (share_relative_path s))"

definition previews_apart :: "share_preview \<Rightarrow> share_preview \<Rightarrow> bool" where
  "previews_apart a b \<longleftrightarrow> \<not> (sh_volume_id a = sh_volume_id b \<and> smb_overlaps (sh_path a) (sh_path b))"

lemma build_shares_iff:
  "build_shares isolated vs us i out ss = Inr r \<longleftrightarrow>
     r = out @ map (preview_share vs us) ss \<and> list_all (share_safe isolated) ss \<and>
     sorted_wrt previews_apart (map (preview_share vs us) ss) \<and>
     (\<forall>a \<in> set out. \<forall>s \<in> set ss. previews_apart a (preview_share vs us s))"
proof (induction ss arbitrary: i out)
  case (Cons s ss)
  have v: "sh_volume_id (preview_share vs us s) = share_volume_id s" by (simp add: preview_share_def)
  show ?case
  proof (cases "share_safe isolated s \<and> (\<forall>a \<in> set out. previews_apart a (preview_share vs us s))")
    case True
    then have "build_shares isolated vs us i out (s # ss) =
        build_shares isolated vs us (Suc i) (out @ [preview_share vs us s]) ss"
      by (auto simp: share_safe_def previews_apart_def list_ex_iff Let_def v)
    then show ?thesis using True Cons [of "Suc i" "out @ [preview_share vs us s]"] by auto
  next
    case False
    then have "\<exists>e. build_shares isolated vs us i out (s # ss) = Inl e"
      by (auto simp: share_safe_def previews_apart_def list_ex_iff Let_def v)
    then show ?thesis using False by auto
  qed
qed auto

lemma find_distinct: "distinct (map f xs) \<Longrightarrow> x \<in> set xs \<Longrightarrow> find (\<lambda>y. f y = f x) xs = Some x"
  by (induction xs) (auto simp: rev_image_eqI)

lemma name_of_user: "distinct (map user_id us) \<Longrightarrow> u \<in> set us \<Longrightarrow> name_of us (user_id u) = user_name u"
  using find_distinct [of user_id "rev us" u] by (simp add: name_of_def rev_map [symmetric])

lemma volume_need_volume:
  "distinct (map vol_id vs) \<Longrightarrow> v \<in> set vs \<Longrightarrow> volume_need vs (vol_id v) =
     \<lparr>vr_volume_id = vol_id v, vr_filesystem_uuid = vol_filesystem_uuid v,
      vr_mount_path = path_join [volume_mount_root, vol_id v]\<rparr>"
  using find_distinct [of vol_id "rev vs" v] by (simp add: volume_need_def rev_map [symmetric])

lemma account_chars: "accountName n \<Longrightarrow> n \<noteq> [] \<and> CHR '' '' \<notin> set n \<and> CHR 0x0A \<notin> set n"
proof -
  assume n: "accountName n"
  then have "list_all (\<lambda>ch. 33 \<le> ch) (runes n)" by (auto simp: accountName_def list_all_iff rune_class_defs)
  then have "list_all (\<lambda>c. 33 \<le> (of_char c :: nat)) n" by (subst (asm) runes_all_high) auto
  then show ?thesis using n by (auto simp: accountName_def first_lower_def list_all_iff)
qed

lemma printable_no_break: "list_all (\<lambda>ch. 32 \<le> ch) (runes s) \<Longrightarrow> CHR 0x0A \<notin> set s"
  by (subst (asm) runes_all_high) (auto simp: list_all_iff)

lemma share_path_under:
  assumes "share_wf (vol_id ` set vs) users s" "distinct (map vol_id vs)" "\<forall>v \<in> set vs. volume_wf v"
  shows "sh_path (preview_share vs us s) = rooted_path (mount_elems (share_volume_id s) @ path_elems (share_relative_path s))"
    and "CHR 0x0A \<notin> set (sh_path (preview_share vs us s))"
proof -
  obtain v where v: "v \<in> set vs" "vol_id v = share_volume_id s" using assms(1) by (auto simp: share_wf_def)
  then have i: "identifier_ok (share_volume_id s)" using assms(3) by (auto simp: volume_wf_def)
  have r: "valid_path (share_relative_path s)" "share_relative_path s \<noteq> []"
    "list_all (\<lambda>ch. 32 \<le> ch \<and> ch \<noteq> 127) (runes (share_relative_path s))"
    using assms(1) by (auto simp: share_wf_def relativePath_def)
  show p: "sh_path (preview_share vs us s) = rooted_path (mount_elems (share_volume_id s) @ path_elems (share_relative_path s))"
    using volume_need_volume [OF assms(2) v(1)] v(2) mount_path [OF i] path_under_mount [OF i r(1,2)]
    by (simp add: preview_share_def)
  have "CHR 0x0A \<notin> set (share_relative_path s)" by (rule printable_no_break) (use r(3) in \<open>auto simp: list_all_iff\<close>)
  then show "CHR 0x0A \<notin> set (sh_path (preview_share vs us s))"
    unfolding p using rooted_path_set [of "CHR 0x0A"] identifier_elem [OF i]
    by (auto simp: list_all_iff plain_char_def)
qed

lemma preview_share_ok:
  assumes "share_wf (vol_id ` set vs) (user_id ` set us) s" "distinct (map vol_id vs)" "\<forall>v \<in> set vs. volume_wf v"
    "distinct (map user_id us)" "\<forall>u \<in> set us. user_wf u"
  shows "preview_ok (preview_share vs us s)"
proof -
  have "n \<noteq> [] \<and> CHR '' '' \<notin> set n \<and> CHR 0x0A \<notin> set n"
    if "g \<in> set (share_grants s)" "n = name_of us (grant_user_id g)" for g n
  proof -
    have "grant_user_id g \<in> user_id ` set us" using assms(1) that(1) by (simp add: share_wf_def grants_wf_def)
    then obtain u where "u \<in> set us" "user_id u = grant_user_id g" by auto
    then show ?thesis using that(2) name_of_user [OF assms(4)] assms(5) account_chars by (metis user_wf_def)
  qed
  then have "\<forall>n \<in> set (sh_read_only (preview_share vs us s) @ sh_read_write (preview_share vs us s)).
      n \<noteq> [] \<and> CHR '' '' \<notin> set n \<and> CHR 0x0A \<notin> set n"
    by (auto simp: preview_share_def)
  moreover have "CHR 0x0A \<notin> set (share_label s)"
    by (rule printable_no_break) (use assms(1) in \<open>auto simp: share_wf_def shareName_def list_all_iff\<close>)
  ultimately show ?thesis using share_path_under [OF assms(1-3)]
    by (simp add: preview_ok_def value_ok_def preview_share_def rooted_path_def)
qed

subsection \<open>The text grants what the policy grants\<close>

text \<open>The access that a share grants to a user of the policy, if any.\<close>

definition policy_access :: "share \<Rightarrow> string \<Rightarrow> string option" where
  "policy_access s i = map_option grant_access (find (\<lambda>g. grant_user_id g = i) (share_grants s))"

lemma policy_access_iff:
  assumes "grants_wf users (share_grants s)"
  shows "policy_access s i = Some a \<longleftrightarrow> (\<exists>g \<in> set (share_grants s). grant_user_id g = i \<and> grant_access g = a)"
proof
  assume "policy_access s i = Some a"
  then show "\<exists>g \<in> set (share_grants s). grant_user_id g = i \<and> grant_access g = a"
    by (auto simp: policy_access_def find_Some_iff)
next
  assume "\<exists>g \<in> set (share_grants s). grant_user_id g = i \<and> grant_access g = a"
  then obtain g where "g \<in> set (share_grants s)" "grant_user_id g = i" "grant_access g = a" by blast
  moreover have "distinct (map grant_user_id (share_grants s))" using assms by (simp add: grants_wf_def)
  ultimately show "policy_access s i = Some a"
    using find_distinct [of grant_user_id "share_grants s" g] by (simp add: policy_access_def)
qed

lemma section_access:
  assumes "preview_ok p"
  shows "conf_access (section_params p) u =
     (if u \<in> set (sh_read_write p) then Some ''rw'' else if u \<in> set (sh_read_only p) then Some ''ro'' else None)"
proof -
  have n: "n \<noteq> [] \<and> CHR '' '' \<notin> set n \<and> CHR 0x0A \<notin> set n" if "n \<in> set (sh_read_only p @ sh_read_write p)" for n
    using assms that unfolding preview_ok_def by blast
  have "conf_names (Some (join_with CHR '' '' (sh_read_write p))) = sh_read_write p"
    "conf_names (Some (join_with CHR '' '' (sort (sh_read_only p @ sh_read_write p)))) = sort (sh_read_only p @ sh_read_write p)"
    by (rule joined_names_ok [THEN conjunct2], use n in auto)+
  then show ?thesis by (simp add: conf_access_def section_params_def)
qed

lemma smb_build_ok:
  assumes "smb_build_with c isolated = Inr pv"
  obtains vs us ss where "share_config_wf c" "sc_volumes c = Some vs" "sc_users c = Some us" "sc_shares c = Some ss"
    "list_all (share_safe isolated) ss" "sorted_wrt previews_apart (map (preview_share vs us) ss)"
    "sm_shares pv = map (\<lambda>s. if isolated then s\<lparr>sh_path := ''/shares/'' @ sh_id s\<rparr> else s)
       (sort_key sh_id (map (preview_share vs us) ss))"
    "sm_sections pv = smb_sections (sm_shares pv)" "sm_revision pv = sc_revision c"
    "sm_volumes pv = sort_key vr_volume_id (map (volume_need vs) (remdups (map share_volume_id ss)))"
proof -
  have "is_ok (share_validate c)" using assms by (auto simp: smb_build_with_def split: if_splits)
  then have wf: "share_config_wf c" by (simp add: share_ok_iff)
  then obtain vs us ss where s: "sc_volumes c = Some vs" "sc_users c = Some us" "sc_shares c = Some ss"
    unfolding share_config_wf_def by blast
  then obtain items where b: "build_shares isolated vs us 0 [] ss = Inr items"
    using assms by (auto simp: smb_build_with_def Let_def split: if_splits sum.splits)
  note i = b [unfolded build_shares_iff]
  show thesis
    by (rule that [OF wf s]) (use i b s assms in \<open>auto simp: smb_build_with_def Let_def split: if_splits\<close>)
qed

text \<open>The properties of a valid policy that the access of its users rests on.\<close>

lemma share_config_parts:
  assumes "share_config_wf c" "sc_volumes c = Some vs" "sc_users c = Some us" "sc_shares c = Some ss"
  shows "\<forall>v \<in> set vs. volume_wf v" "distinct (map vol_id vs)" "\<forall>u \<in> set us. user_wf u" "distinct (map user_id us)"
    "distinct (map user_name us)" "s \<in> set ss \<Longrightarrow> share_wf (vol_id ` set vs) (user_id ` set us) s"
    "distinct (map share_label ss)" "distinct (map share_id ss)"
proof -
  have "distinct (map to_lower (map share_label ss))" using assms by (auto simp: share_config_wf_def)
  then show "distinct (map share_label ss)" by (auto simp: distinct_map intro: inj_on_imageI2)
qed (use assms in \<open>auto simp: share_config_wf_def\<close>)

lemma names_granted:
  assumes "share_wf volumes (user_id ` set us) s" "distinct (map user_id us)" "distinct (map user_name us)" "u \<in> set us"
  shows "user_name u \<in> (\<lambda>g. name_of us (grant_user_id g)) ` {g \<in> set (share_grants s). P (grant_access g)} \<longleftrightarrow>
     (\<exists>g \<in> set (share_grants s). grant_user_id g = user_id u \<and> P (grant_access g))" (is "?L = ?R")
proof
  assume ?L
  then obtain g where g: "g \<in> set (share_grants s)" "P (grant_access g)" "user_name u = name_of us (grant_user_id g)" by auto
  then have "grant_user_id g \<in> user_id ` set us" using assms(1) by (simp add: share_wf_def grants_wf_def)
  then obtain u' where u': "u' \<in> set us" "user_id u' = grant_user_id g" by auto
  then have "user_name u' = user_name u" using g(3) name_of_user [OF assms(2) u'(1)] by simp
  then have "u' = u" using assms(3,4) u'(1) by (auto simp: distinct_map inj_on_def)
  then show ?R using g u' by auto
next
  assume ?R
  then show ?L using name_of_user [OF assms(2,4)] by (auto intro!: rev_image_eqI)
qed

lemma preview_access:
  assumes "share_wf (vol_id ` set vs) (user_id ` set us) s" "distinct (map user_id us)" "distinct (map user_name us)"
    "u \<in> set us" "preview_ok p" "sh_read_only p = sh_read_only (preview_share vs us s)"
    "sh_read_write p = sh_read_write (preview_share vs us s)"
  shows "conf_access (section_params p) (user_name u) = policy_access s (user_id u)"
proof -
  have w: "grants_wf (user_id ` set us) (share_grants s)" using assms(1) by (simp add: share_wf_def)
  then have a: "grant_access g = ''ro'' \<or> grant_access g = ''rw''" if "g \<in> set (share_grants s)" for g
    using that by (auto simp: grants_wf_def)
  have rw: "user_name u \<in> set (sh_read_write p) \<longleftrightarrow> policy_access s (user_id u) = Some ''rw''"
    using names_granted [OF assms(1-4), of "\<lambda>a. a = ''rw''"] policy_access_iff [OF w] assms(7)
    by (simp add: preview_share_def)
  have only: "(\<exists>g \<in> set (share_grants s). grant_user_id g = user_id u \<and> grant_access g \<noteq> ''rw'') \<longleftrightarrow>
      (\<exists>g \<in> set (share_grants s). grant_user_id g = user_id u \<and> grant_access g = ''ro'')"
    by (rule bex_cong [OF refl]) (use a in fastforce)
  have ro: "user_name u \<in> set (sh_read_only p) \<longleftrightarrow> policy_access s (user_id u) = Some ''ro''"
    using names_granted [OF assms(1-4), of "\<lambda>a. a \<noteq> ''rw''"] policy_access_iff [OF w] assms(6) only
    by (simp add: preview_share_def)
  have "policy_access s (user_id u) \<in> {None, Some ''ro'', Some ''rw''}"
  proof (cases "policy_access s (user_id u)")
    case (Some x)
    then obtain g where "g \<in> set (share_grants s)" "grant_access g = x" using policy_access_iff [OF w] by blast
    then show ?thesis using Some a by auto
  qed simp
  then show ?thesis using section_access [OF assms(5)] rw ro by auto
qed

lemma distinct_names_sorted:
  assumes "distinct (map share_label ss)"
  shows "distinct (map sh_name (sort_key sh_id (map (preview_share vs us) ss)))"
proof -
  have "distinct (map sh_name (map (preview_share vs us) ss))"
    using assms by (simp add: comp_def preview_share_def)
  then show ?thesis unfolding distinct_map [of _ "sort_key _ _"] distinct_map [of _ "map _ _"] by simp
qed

subsection \<open>Properties\<close>


definition sample_users :: "user list" where
  "sample_users = [\<lparr>user_id = ''u1'', user_name = ''anna''\<rparr>, \<lparr>user_id = ''u2'', user_name = ''bert''\<rparr>]"

definition sample_share :: share where
  "sample_share = \<lparr>share_id = ''films'', share_label = ''Films'', share_volume_id = ''data'',
     share_relative_path = ''my films'', share_grants =
       [\<lparr>grant_user_id = ''u1'', grant_access = ''ro''\<rparr>, \<lparr>grant_user_id = ''u2'', grant_access = ''rw''\<rparr>]\<rparr>"

definition sample_config :: share_config where
  "sample_config = sample_shares\<lparr>sc_users := Some sample_users, sc_shares := Some [sample_share]\<rparr>"

lemma sample_config_valid: "is_ok (share_validate sample_config)"
  by code_simp

lemma sample_config_builds: "\<exists>pv. smb_build sample_config = Inr pv"
proof -
  have "int (length (json_print (put_share_config sample_config))) \<le> share_max_bytes" by code_simp
  moreover have "is_ok (build_shares False (the (sc_volumes sample_config)) (the (sc_users sample_config)) 0 []
      (the (sc_shares sample_config)))"
    by code_simp
  ultimately show ?thesis using sample_config_valid by (auto simp: smb_build_def smb_build_with_def is_ok_iff Let_def)
qed


end
