(* ===== verification/Raw_Json.thy ===== *)
theory Raw_Json
  imports Config_Json
begin

section \<open>Raw members of an envelope\<close>

text \<open>
  What the sources use of \<open>json.RawMessage\<close>: an envelope object whose members keep the bytes
  of their values for decoders of their own. \<open>take_value\<close> reads one value off the front of a
  text, as \<open>Decoder.Decode\<close> does, and says what is left; \<open>raw_members\<close> reads an object with
  it. The model of \<open>configjson.DecodeEnvelope\<close> is built on both. The lemmas show that the
  members of a printed object are the printed members.
\<close>

function take_value :: "jmode \<Rightarrow> jframe list \<Rightarrow> string \<Rightarrow> (json \<times> string) option" where
  "take_value m st [] = None"
| "take_value m st (c # cs) =
     (if json_space c then take_value m st cs
      else case lex_one c cs of
        None \<Rightarrow> None
      | Some (t, rest) \<Rightarrow> (case token_step m st t of
          None \<Rightarrow> None
        | Some (Inr v) \<Rightarrow> Some (v, rest)
        | Some (Inl (m', st')) \<Rightarrow> take_value m' st' rest))"
  by pat_completeness auto
termination
  by (relation "measure (\<lambda>(m, st, s). length s)") (auto dest: lex_one_shorter)

definition skip_space :: "string \<Rightarrow> string" where
  "skip_space s = dropWhile json_space s"

text \<open>The bytes of the value at the front of the text, without the space before it.\<close>

definition raw_value :: "string \<Rightarrow> (string \<times> string) option" where
  "raw_value s =
     (let t = skip_space s in
      map_option (\<lambda>(v, rest). (take (length t - length rest) t, rest)) (take_value Top_Value [] t))"

lemma take_value_shorter: "take_value m st s = Some (v, rest) \<Longrightarrow> length rest < length s"
proof (induction m st s rule: take_value.induct)
  case (2 m st c cs)
  show ?case
  proof (cases "json_space c")
    case True
    then show ?thesis using 2 by auto
  next
    case False
    then obtain t r where t: "lex_one c cs = Some (t, r)" using "2.prems" by (auto split: option.splits)
    then obtain x where x: "token_step m st t = Some x" using "2.prems" False by (auto split: option.splits)
    show ?thesis
    proof (cases x)
      case (Inr w)
      then show ?thesis using "2.prems" False t x lex_one_shorter [OF t] by auto
    next
      case (Inl y)
      obtain m' st' where y: "y = (m', st')" by (cases y)
      have "take_value m' st' r = Some (v, rest)" using "2.prems" False t x Inl y by simp
      then show ?thesis using "2.IH"(2) [OF False t refl x Inl y [symmetric]] lex_one_shorter [OF t] by simp
    qed
  qed
qed simp

lemma skip_space_shorter: "length (skip_space s) \<le> length s"
  by (simp add: skip_space_def length_dropWhile_le)

lemma raw_value_shorter: "raw_value s = Some (raw, rest) \<Longrightarrow> length rest < length s"
  using skip_space_shorter [of s] by (auto simp: raw_value_def Let_def dest!: take_value_shorter)

text \<open>
  The members after an opening brace or, when \<open>first\<close> is false, after a member; with the text
  after the closing brace.
\<close>

function raw_members :: "bool \<Rightarrow> string \<Rightarrow> ((string \<times> string) list \<times> string) option" where
  "raw_members first s =
     (case skip_space s of
        [] \<Rightarrow> None
      | c # cs \<Rightarrow>
          if c = CHR ''}'' then Some ([], cs)
          else if \<not> first \<and> c \<noteq> CHR '','' then None
          else (case skip_space (if first then c # cs else cs) of
            [] \<Rightarrow> None
          | d # ds \<Rightarrow> (case lex_one d ds of
              Some (TStr key, t) \<Rightarrow> (case skip_space t of
                [] \<Rightarrow> None
              | e # es \<Rightarrow>
                  if e \<noteq> CHR '':'' then None
                  else (case raw_value es of
                    None \<Rightarrow> None
                  | Some (raw, rest) \<Rightarrow>
                      map_option (\<lambda>(ms, left). ((key, raw) # ms, left)) (raw_members False rest)))
            | _ \<Rightarrow> None)))"
  by pat_completeness auto
termination
proof (relation "measure (\<lambda>(first, s). length s)", simp)
  fix first s c cs d ds z x key t e es y raw rest
  assume a: "skip_space s = c # cs" "skip_space (if first then c # cs else cs) = d # ds" "lex_one d ds = Some z"
    "(x, t) = z" "skip_space t = e # es" "raw_value es = Some y" "(raw, rest) = y"
  have "length (c # cs) \<le> length s" "length (d # ds) \<le> length (c # cs)" "length (e # es) \<le> length t"
    using skip_space_shorter [of s] skip_space_shorter [of t] skip_space_shorter [of "if first then c # cs else cs"] a
    by (auto split: if_splits)
  moreover have "length t \<le> length ds" "length rest < length es"
    using lex_one_shorter [of d ds] raw_value_shorter [of es] a by auto
  ultimately show "((False, rest), first, s) \<in> measure (\<lambda>(first, s). length s)" by simp
qed

declare raw_members.simps [simp del]

definition raw_object :: "string \<Rightarrow> ((string \<times> string) list \<times> string) option" where
  "raw_object s =
     (case skip_space s of
        [] \<Rightarrow> None
      | c # cs \<Rightarrow> if c = CHR ''{'' then raw_members True cs else None)"

subsection \<open>configjson.DecodeEnvelope\<close>

definition config_envelope :: "string \<Rightarrow> int \<Rightarrow> int \<Rightarrow> string list \<Rightarrow> (string \<times> string) list option" where
  "config_envelope data max_bytes max_depth required =
     (if max_bytes \<le> 0 \<or> max_depth \<le> 0 \<or> length required = 0 \<or> 32 < length required \<or>
         int (length data) > max_bytes \<or> \<not> valid_string data \<or> \<not> valid_surrogates False data \<or>
         [] \<in> set required \<or> \<not> distinct required
      then None
      else case json_parse data of
        None \<Rightarrow> None
      | Some v \<Rightarrow>
          if \<not> scan_value 0 max_depth None v then None
          else case raw_object data of
            None \<Rightarrow> None
          | Some (fields, _) \<Rightarrow>
              if length fields \<noteq> length required \<or> \<not> list_all (\<lambda>(name, raw). name \<in> set required) fields then None
              else Some fields)"

subsection \<open>Printed objects\<close>

definition after :: "(jmode \<times> jframe list) + json \<Rightarrow> string \<Rightarrow> (json \<times> string) option" where
  "after r rest = (case r of Inr v \<Rightarrow> Some (v, rest) | Inl (m, st) \<Rightarrow> take_value m st rest)"

lemma take_starts:
  "starts s t rest \<Longrightarrow> take_value m st s = (case token_step m st t of None \<Rightarrow> None | Some r \<Rightarrow> after r rest)"
  by (auto simp: starts_def after_def split: option.splits sum.splits)

lemma take_elements:
  assumes "\<And>v m st rest. v \<in> set vs \<Longrightarrow> wants_value m \<Longrightarrow> at_end rest \<Longrightarrow>
      take_value m st (json_print v @ rest) = after (deliver v st) rest"
    and "vs \<noteq> []" and "m = Array_Start \<or> m = Array_Value"
  shows "take_value m (In_Array us # st) (join_with (CHR '','') (map json_print vs) @ CHR '']'' # rest) =
     after (deliver (JArr (rev us @ vs)) st) rest"
  using assms
proof (induction vs arbitrary: us m)
  case (Cons v vs)
  have m: "wants_value m" using Cons.prems(3) by (auto simp: wants_value_def)
  have close: "take_value Array_Comma (In_Array (v # us) # st) (CHR '']'' # rest) =
      after (deliver (JArr (rev us @ [v])) st) rest"
    using take_starts [OF starts_punct [of "CHR '']''" TRBrack rest]] by (simp add: punct_def token_step_def wants_value_def)
  have comma: "take_value Array_Comma (In_Array (v # us) # st) (CHR '','' # r) =
      take_value Array_Value (In_Array (v # us) # st) r" for r
    using take_starts [OF starts_punct [of "CHR '',''" TComma r]] by (simp add: punct_def token_step_def wants_value_def after_def)
  show ?case
  proof (cases vs)
    case Nil
    then show ?thesis using Cons.prems(1) [OF _ m] close by (simp add: after_def)
  next
    case (Cons w ws)
    have "take_value Array_Value (In_Array (v # us) # st) (join_with (CHR '','') (map json_print vs) @ CHR '']'' # rest) =
        after (deliver (JArr (rev (v # us) @ vs)) st) rest"
      by (rule Cons.IH) (use Cons.prems(1) Cons in auto)
    then show ?thesis using Cons.prems(1) [OF _ m] Cons comma by (simp add: after_def)
  qed
qed simp

lemma take_members:
  assumes "\<And>k v m st rest. (k, v) \<in> set ms \<Longrightarrow> wants_value m \<Longrightarrow> at_end rest \<Longrightarrow>
      take_value m st (json_print v @ rest) = after (deliver v st) rest"
    and "\<And>k v. (k, v) \<in> set ms \<Longrightarrow> valid_string k" and "ms \<noteq> []" and "m = Object_Start \<or> m = Object_Key"
  shows "take_value m (In_Object us k0 # st)
       (join_with (CHR '','') (map (\<lambda>(k, v). print_string k @ CHR '':'' # json_print v) ms) @ CHR ''}'' # rest) =
     after (deliver (JObj (rev us @ ms)) st) rest"
  using assms
proof (induction ms arbitrary: us m k0)
  case (Cons p ms)
  obtain k v where p: "p = (k, v)" by (cases p)
  have v: "take_value Object_Value st (json_print v @ r) = after (deliver v st) r" if "at_end r" for st r
    by (rule Cons.prems(1) [of k]) (use that in \<open>simp_all add: p wants_value_def\<close>)
  have colon: "take_value Object_Colon st (CHR '':'' # r) = take_value Object_Value st r" for st r
    using take_starts [OF starts_punct [of "CHR '':''" TColon r]] by (simp add: punct_def token_step_def wants_value_def after_def)
  have "valid_string k" by (rule Cons.prems(2) [of k v]) (simp add: p)
  then have key: "take_value m (In_Object us k0 # st) (print_string k @ CHR '':'' # r) =
      take_value Object_Value (In_Object us k # st) r" for r
    using take_starts [OF starts_string [of k "CHR '':'' # r"], of m "In_Object us k0 # st"] Cons.prems(4) colon
    by (auto simp: token_step_def wants_value_def after_def)
  have close: "take_value Object_Comma (In_Object ((k, v) # us) k # st) (CHR ''}'' # rest) =
      after (deliver (JObj (rev us @ [(k, v)])) st) rest"
    using take_starts [OF starts_punct [of "CHR ''}''" TRBrace rest]] by (simp add: punct_def token_step_def wants_value_def)
  have comma: "take_value Object_Comma (In_Object ((k, v) # us) k # st) (CHR '','' # r) =
      take_value Object_Key (In_Object ((k, v) # us) k # st) r" for r
    using take_starts [OF starts_punct [of "CHR '',''" TComma r]] by (simp add: punct_def token_step_def wants_value_def after_def)
  show ?case
  proof (cases ms)
    case Nil
    then show ?thesis using key v close by (simp add: p after_def)
  next
    case (Cons q qs)
    let ?rest = "join_with (CHR '','') (map (\<lambda>(k, v). print_string k @ CHR '':'' # json_print v) ms) @ CHR ''}'' # rest"
    have ih: "take_value Object_Key (In_Object ((k, v) # us) k # st) ?rest = after (deliver (JObj (rev ((k, v) # us) @ ms)) st) rest"
    proof (rule Cons.IH)
      show "take_value m st (json_print v @ r) = after (deliver v st) r"
        if "(k, v) \<in> set ms" "wants_value m" "at_end r" for k v m st r
        by (rule Cons.prems(1) [of k]) (use that in simp_all)
      show "valid_string k" if "(k, v) \<in> set ms" for k v
        by (rule Cons.prems(2) [of k v]) (use that in simp)
    qed (use Cons in simp_all)
    have "join_with (CHR '','') (map (\<lambda>(k, v). print_string k @ CHR '':'' # json_print v) (p # ms)) @ CHR ''}'' # rest =
        print_string k @ CHR '':'' # json_print v @ CHR '','' # ?rest"
      using Cons by (simp add: p)
    then show ?thesis using ih by (simp only: key v [OF at_end_simps(2)] after_def [of "Inl _"] deliver.simps sum.case prod.case comma) (simp add: p)
  qed
qed simp

lemma take_print:
  "json_ok v \<Longrightarrow> wants_value m \<Longrightarrow> at_end rest \<Longrightarrow> take_value m st (json_print v @ rest) = after (deliver v st) rest"
proof (induction v arbitrary: m st rest rule: json_print.induct)
  case (5 vs)
  have o: "take_value m st (CHR ''['' # r) = take_value Array_Start (In_Array [] # st) r" for r
    using take_starts [OF starts_punct [of "CHR ''[''" TLBrack r]] 5(3) by (simp add: punct_def token_step_def after_def)
  show ?case
  proof (cases "vs = []")
    case True
    then show ?thesis using o take_starts [OF starts_punct [of "CHR '']''" TRBrack rest]]
      by (simp add: punct_def token_step_def wants_value_def scalar_of_def)
  next
    case False
    have "take_value Array_Start (In_Array [] # st) (join_with (CHR '','') (map json_print vs) @ CHR '']'' # rest) =
        after (deliver (JArr (rev [] @ vs)) st) rest"
      by (rule take_elements) (use 5 False in \<open>auto simp: list_all_iff\<close>)
    then show ?thesis using o by simp
  qed
next
  case (6 ms)
  have o: "take_value m st (CHR ''{'' # r) = take_value Object_Start (In_Object [] [] # st) r" for r
    using take_starts [OF starts_punct [of "CHR ''{''" TLBrace r]] 6(3) by (simp add: punct_def token_step_def after_def)
  show ?case
  proof (cases "ms = []")
    case True
    then show ?thesis using o take_starts [OF starts_punct [of "CHR ''}''" TRBrace rest]]
      by (simp add: punct_def token_step_def wants_value_def scalar_of_def)
  next
    case False
    have "take_value Object_Start (In_Object [] [] # st)
         (join_with (CHR '','') (map (\<lambda>(k, v). print_string k @ CHR '':'' # json_print v) ms) @ CHR ''}'' # rest) =
        after (deliver (JObj (rev [] @ ms)) st) rest"
      by (rule take_members) (use 6 False in \<open>auto simp: list_all_iff\<close>)
    then show ?thesis using o by simp
  qed
qed (simp_all del: take_value.simps add: take_starts [OF starts_number] take_starts [OF starts_string] token_step_def scalar_of_def
    take_starts [OF starts_word(1) [unfolded append.simps]] take_starts [OF starts_word(2) [unfolded append.simps]]
    take_starts [OF starts_word(3) [unfolded append.simps]])

text \<open>The value at the front of a printed member, and the members of a printed object.\<close>

lemma print_start: "json_ok v \<Longrightarrow> \<exists>c cs. json_print v = c # cs \<and> \<not> json_space c \<and> c \<noteq> CHR ''}''"
proof (cases v)
  case (JNum n)
  moreover assume "json_ok v"
  ultimately have n: "number_ok n" "list_all number_char n" by simp_all
  obtain c cs where "n = c # cs" "\<not> json_space c" "punct c = None" by (rule number_start [OF n])
  moreover have "c \<noteq> CHR ''}''" using \<open>punct c = None\<close> by (auto simp: punct_def)
  ultimately show ?thesis using JNum by simp
qed (simp_all add: json_space_def print_string_def split: bool.splits)

lemma raw_value_print:
  assumes "json_ok v" "at_end rest"
  shows "raw_value (json_print v @ rest) = Some (json_print v, rest)"
proof -
  have "skip_space (json_print v @ rest) = json_print v @ rest"
    using print_start [OF assms(1)] by (auto simp: skip_space_def)
  moreover have "take_value Top_Value [] (json_print v @ rest) = Some (v, rest)"
    using take_print [OF assms(1) _ assms(2), of Top_Value "[]"] by (simp add: wants_value_def after_def)
  ultimately show ?thesis by (simp add: raw_value_def)
qed

lemma skip_starts: "starts s t rest \<Longrightarrow> skip_space s = s"
  by (auto simp: starts_def skip_space_def)

lemma raw_member:
  assumes "valid_string k" "json_ok v" "at_end rest"
    and s: "skip_space s = (if first then [] else [CHR '','']) @ print_string k @ CHR '':'' # json_print v @ rest"
  shows "raw_members first s = map_option (\<lambda>(ms, left). ((k, json_print v) # ms, left)) (raw_members False rest)"
proof -
  let ?t = "print_string k @ CHR '':'' # json_print v @ rest"
  have st: "starts ?t (TStr k) (CHR '':'' # json_print v @ rest)" by (rule starts_string [OF assms(1)])
  then obtain d ds where d: "?t = d # ds" "lex_one d ds = Some (TStr k, CHR '':'' # json_print v @ rest)"
    by (auto simp: starts_def)
  have "d = quote_char" using d(1) by (simp add: print_string_def)
  moreover have "skip_space (CHR '':'' # json_print v @ rest) = CHR '':'' # json_print v @ rest"
    by (simp add: skip_space_def json_space_def)
  ultimately show ?thesis
    using s d raw_value_print [OF assms(2,3)] skip_starts [OF st]
    by (subst raw_members.simps) (cases first; simp)
qed

lemma raw_members_print:
  assumes "list_all (\<lambda>(k, v). valid_string k \<and> json_ok v) ms"
  shows "raw_members False ((if ms = [] then [] else CHR '','' # join_with (CHR '','')
      (map (\<lambda>(k, v). print_string k @ CHR '':'' # json_print v) ms)) @ CHR ''}'' # rest) =
    Some (map (\<lambda>(k, v). (k, json_print v)) ms, rest)"
  using assms
proof (induction ms)
  case Nil
  then show ?case by (subst raw_members.simps) (simp add: skip_space_def json_space_def)
next
  case (Cons p ms)
  obtain k v where p: "p = (k, v)" by (cases p)
  let ?tail = "(if ms = [] then [] else CHR '','' # join_with (CHR '','')
      (map (\<lambda>(k, v). print_string k @ CHR '':'' # json_print v) ms)) @ CHR ''}'' # rest"
  have "CHR '','' # join_with (CHR '','') (map (\<lambda>(k, v). print_string k @ CHR '':'' # json_print v) (p # ms)) @ CHR ''}'' # rest =
      CHR '','' # print_string k @ CHR '':'' # json_print v @ ?tail"
    by (cases ms) (simp_all add: p)
  moreover have "raw_members False (CHR '','' # print_string k @ CHR '':'' # json_print v @ ?tail) =
      map_option (\<lambda>(ms, left). ((k, json_print v) # ms, left)) (raw_members False ?tail)"
    by (rule raw_member) (use Cons.prems p in \<open>auto simp: skip_space_def json_space_def\<close>)
  ultimately show ?case using Cons by (simp add: p)
qed

lemma raw_object_print:
  assumes "list_all (\<lambda>(k, v). valid_string k \<and> json_ok v) ms"
  shows "raw_object (json_print (JObj ms)) = Some (map (\<lambda>(k, v). (k, json_print v)) ms, [])"
proof (cases ms)
  case Nil
  then show ?thesis by (simp add: raw_object_def skip_space_def json_space_def raw_members.simps)
next
  case (Cons p ps)
  obtain k v where p: "p = (k, v)" by (cases p)
  let ?tail = "(if ps = [] then [] else CHR '','' # join_with (CHR '','')
      (map (\<lambda>(k, v). print_string k @ CHR '':'' # json_print v) ps)) @ [CHR ''}'']"
  have "json_print (JObj ms) = CHR ''{'' # print_string k @ CHR '':'' # json_print v @ ?tail"
    by (cases ps) (simp_all add: Cons p)
  moreover have "raw_members True (print_string k @ CHR '':'' # json_print v @ ?tail) =
      map_option (\<lambda>(ms, left). ((k, json_print v) # ms, left)) (raw_members False ?tail)"
    by (rule raw_member) (use assms Cons p in \<open>auto simp: skip_space_def json_space_def print_string_def\<close>)
  ultimately show ?thesis
    using raw_members_print [of ps "[]"] assms Cons p by (simp add: raw_object_def skip_space_def json_space_def)
qed

lemma config_envelope_print:
  assumes "list_all (\<lambda>(k, v). valid_string k \<and> json_ok v) ms" "scan_value 0 md None (JObj ms)"
    "int (length (json_print (JObj ms))) \<le> mb" "0 < mb" "0 < md" "ms \<noteq> []" "length ms \<le> 32"
    "distinct (map fst ms)" "[] \<notin> fst ` set ms"
  shows "config_envelope (json_print (JObj ms)) mb md (map fst ms) = Some (map (\<lambda>(k, v). (k, json_print v)) ms)"
proof -
  have ok: "json_ok (JObj ms)" using assms(1) by simp
  have "valid_string (json_print (JObj ms))" "valid_surrogates False (json_print (JObj ms))"
    using json_print_valid [OF ok, of "[]"] json_print_surrogates [OF ok, of "[]"] by (simp_all add: valid_string_def)
  then show ?thesis using assms parse_print [OF ok] raw_object_print [OF assms(1)]
    by (auto simp: config_envelope_def list_all_iff rev_image_eqI simp del: json_print.simps scan_value.simps)
qed

end
