(* ===== verification/File_Service.thy ===== *)
theory File_Service
  imports Smb_Config Raw_Json
begin

section \<open>The combined file-service policy\<close>

text \<open>
  The model of package \<open>fileservice\<close>: one document with the share policy and the NFS policy
  at one revision (\<open>config.go\<close>), its preview (\<open>preview.go\<close>), the rule on NFS identifiers that
  a new revision keeps (\<open>nfs_bindings.go\<close>), backup and restore (\<open>backup.go\<close>), and the codec of
  \<open>fileservicestore/store_linux.go\<close>. The lemmas show that the two policies in an accepted
  document belong together, that documents and backups are read back as written, and that
  the store never lets an identifier that NFS clients know move to another directory.
\<close>

subsection \<open>Data\<close>

record fs_config =
  fc_format :: string
  fc_schema_version :: int
  fc_revision :: u64
  fc_shares :: share_config
  fc_nfs :: nfs_policy

record fs_preview =
  fp_schema_version :: int
  fp_scope :: string
  fp_persisted :: bool
  fp_applied :: bool
  fp_runtime_validated :: bool
  fp_activation_available :: bool
  fp_requirements :: "string list"
  fp_samba :: smb_preview
  fp_nfs :: nfs_preview

datatype fs_error = ErrEnvelope | ErrShares | ErrSamba | ErrNFS | ErrConfig | ErrBackup

definition fs_max_input :: int where "fs_max_input = share_max_bytes + nfs_max_bytes + 256"
definition fs_config_format :: string where "fs_config_format = ''phantowd-file-service-config''"
definition fs_max_config :: int where "fs_max_config = fs_max_input + 256"
definition fs_backup_format :: string where "fs_backup_format = ''phantowd-file-service-backup''"
definition fs_max_backup :: int where "fs_max_backup = fs_max_config + 256"

subsection \<open>preview.go\<close>

definition decodeEnvelope :: "string \<Rightarrow> int \<Rightarrow> string list \<Rightarrow> fs_error + (string \<times> string) list" where
  "decodeEnvelope data max_bytes required =
     (if int (length data) > max_bytes then Inl ErrEnvelope
      else case raw_object data of
        None \<Rightarrow> Inl ErrEnvelope
      | Some (raws, rest) \<Rightarrow>
          if \<not> list_all (\<lambda>(key, raw). key \<in> set required \<and> raw \<noteq> ''null'') raws \<or>
             \<not> distinct (map fst raws) \<or> length raws \<noteq> length required \<or> skip_space rest \<noteq> []
          then Inl ErrEnvelope else Inr raws)"

definition raw_of :: "(string \<times> string) list \<Rightarrow> string \<Rightarrow> string" where
  "raw_of raws key = (case map_of raws key of None \<Rightarrow> [] | Some raw \<Rightarrow> raw)"

definition decodePolicies :: "(string \<times> string) list \<Rightarrow> fs_error + share_config \<times> nfs_policy" where
  "decodePolicies raws =
     (case share_decode (reader_of (raw_of raws ''shares'')) of
        Inl _ \<Rightarrow> Inl ErrShares
      | Inr shares \<Rightarrow> (case nfs_decode (reader_of (raw_of raws ''nfs'')) shares of
          Inl _ \<Rightarrow> Inl ErrNFS
        | Inr nfs \<Rightarrow> Inr (shares, nfs)))"

definition configuredPathsOverlap :: "string \<Rightarrow> string \<Rightarrow> bool" where
  "configuredPathsOverlap first second =
     (let a = path_join [''/'', first]; b = path_join [''/'', second] in
      a = b \<or> a = ''/'' \<or> b = ''/'' \<or> has_prefix a (b @ ''/'') \<or> has_prefix b (a @ ''/''))"

text \<open>Ranging over a nil slice does nothing, as over an empty one.\<close>

definition slice :: "'a list option \<Rightarrow> 'a list" where
  "slice xs = (case xs of None \<Rightarrow> [] | Some ys \<Rightarrow> ys)"

definition configuredCrossProtocolPathOverlap :: "share_config \<Rightarrow> nfs_policy \<Rightarrow> bool" where
  "configuredCrossProtocolPathOverlap shares nfs =
     list_ex (\<lambda>s. list_ex (\<lambda>e. share_volume_id s = ex_volume_id e \<and>
        configuredPathsOverlap (share_relative_path s) (ex_relative_path e)) (slice (np_exports nfs)))
       (slice (sc_shares shares))"

definition fs_requirements :: "share_config \<Rightarrow> nfs_policy \<Rightarrow> nfs_preview \<Rightarrow> string list" where
  "fs_requirements shares nfs nv =
     [''runtime_volume_identity'', ''path_and_mount_containment'', ''unix_accounts_and_effective_access'',
      ''durable_configuration'', ''service_activation_lifecycle''] @
     (if slice (sc_shares shares) \<noteq> [] \<and> slice (np_exports nfs) \<noteq> [] then
        ''cross_protocol_access_review'' #
        (if configuredCrossProtocolPathOverlap shares nfs then [''cross_protocol_path_overlap''] else [])
      else []) @
     (if nv_uses_auth_sys nv then [''auth_sys_network_trust''] else []) @
     (if nv_requires_kerberos nv then [''kerberos_provisioning''] else [])"

definition fs_build :: "share_config \<Rightarrow> nfs_policy \<Rightarrow> fs_error + fs_preview" where
  "fs_build shares nfs =
     (case smb_build shares of
        Inl _ \<Rightarrow> Inl ErrSamba
      | Inr samba \<Rightarrow> (case nfs_build nfs shares of
          Inl _ \<Rightarrow> Inl ErrNFS
        | Inr nv \<Rightarrow> Inr \<lparr>fp_schema_version = 1, fp_scope = ''desired-policy-only'', fp_persisted = False,
            fp_applied = False, fp_runtime_validated = False, fp_activation_available = False,
            fp_requirements = fs_requirements shares nfs nv, fp_samba = samba, fp_nfs = nv\<rparr>))"

definition fs_decode :: "string \<Rightarrow> fs_error + fs_preview" where
  "fs_decode data =
     (case decodeEnvelope data fs_max_input [''shares'', ''nfs''] of
        Inl e \<Rightarrow> Inl e
      | Inr raws \<Rightarrow> (case decodePolicies raws of Inl e \<Rightarrow> Inl e | Inr (shares, nfs) \<Rightarrow> fs_build shares nfs))"

subsection \<open>config.go\<close>

definition fs_validate :: "fs_config \<Rightarrow> fs_error + unit" where
  "fs_validate c =
     (if fc_format c \<noteq> fs_config_format \<or> fc_schema_version c \<noteq> 1 \<or> fc_revision c = 0 \<or>
         sc_revision (fc_shares c) \<noteq> fc_revision c \<or> np_revision (fc_nfs c) \<noteq> fc_revision c \<or>
         np_volume_revision (fc_nfs c) \<noteq> fc_revision c
      then Inl ErrConfig
      else case fs_build (fc_shares c) (fc_nfs c) of Inl _ \<Rightarrow> Inl ErrConfig | Inr _ \<Rightarrow> Inr ())"

definition unmarshal :: "(json \<Rightarrow> 'a option) \<Rightarrow> string \<Rightarrow> 'a option" where
  "unmarshal target raw = (case json_parse raw of None \<Rightarrow> None | Some v \<Rightarrow> target v)"

definition fs_keys :: "string list" where
  "fs_keys = [''format'', ''schema_version'', ''revision'', ''shares'', ''nfs'']"

definition fs_decode_config :: "reader \<Rightarrow> fs_error + fs_config" where
  "fs_decode_config input =
     (case read_limited (nat fs_max_config + 1) input of
        None \<Rightarrow> Inl ErrConfig
      | Some data \<Rightarrow> (case decodeEnvelope data fs_max_config fs_keys of
          Inl _ \<Rightarrow> Inl ErrConfig
        | Inr raws \<Rightarrow>
            (case (unmarshal json_string (raw_of raws ''format''), unmarshal json_int (raw_of raws ''schema_version''),
                   unmarshal json_u64 (raw_of raws ''revision'')) of
               (Some f, Some sv, Some r) \<Rightarrow> (case decodePolicies raws of
                 Inl _ \<Rightarrow> Inl ErrConfig
               | Inr (shares, nfs) \<Rightarrow>
                   let c = \<lparr>fc_format = f, fc_schema_version = sv, fc_revision = r, fc_shares = shares, fc_nfs = nfs\<rparr> in
                   if is_ok (fs_validate c) then Inr c else Inl ErrConfig)
             | _ \<Rightarrow> Inl ErrConfig)))"

definition fs_members :: "fs_config \<Rightarrow> (string \<times> json) list" where
  "fs_members c = [(''format'', JStr (fc_format c)), (''schema_version'', put_int (fc_schema_version c)),
     (''revision'', put_uint (unat (fc_revision c))), (''shares'', put_share_config (fc_shares c)),
     (''nfs'', put_policy (fc_nfs c))]"

definition put_fs_config :: "fs_config \<Rightarrow> json" where
  "put_fs_config c = JObj (fs_members c)"

subsection \<open>nfs_bindings.go\<close>

definition fs_bindings :: "fs_config \<Rightarrow> (string \<times> string \<times> string \<times> string) list" where
  "fs_bindings c =
     concat (map (\<lambda>e. map (\<lambda>v. (ex_id e, vol_id v, vol_filesystem_uuid v, ex_relative_path e))
         (filter (\<lambda>v. vol_id v = ex_volume_id e) (slice (sc_volumes (fc_shares c)))))
       (slice (np_exports (fc_nfs c))))"

text \<open>The map that is filled in this order; a later entry replaces an earlier one.\<close>

definition binding_of :: "fs_config \<Rightarrow> string \<Rightarrow> (string \<times> string \<times> string) option" where
  "binding_of c i = map_of (rev (fs_bindings c)) i"

definition validate_retained :: "fs_config \<Rightarrow> fs_config \<Rightarrow> fs_error + unit" where
  "validate_retained current next =
     (if \<not> is_ok (fs_validate current) \<or> \<not> is_ok (fs_validate next) then Inl ErrConfig
      else if list_ex (\<lambda>i. case binding_of current i of None \<Rightarrow> False | Some old \<Rightarrow> binding_of next i \<noteq> Some old)
                (map fst (fs_bindings next))
      then Inl ErrConfig else Inr ())"

subsection \<open>backup.go\<close>

definition put_backup :: "fs_config \<Rightarrow> json" where
  "put_backup c = JObj [(''format'', JStr fs_backup_format), (''schema_version'', put_int 1),
     (''configuration'', put_fs_config c)]"

definition encode_backup :: "fs_config \<Rightarrow> fs_error + string" where
  "encode_backup c =
     (if \<not> is_ok (fs_validate c) then Inl ErrBackup
      else case fs_decode_config (reader_of (json_print (put_fs_config c))) of
        Inl _ \<Rightarrow> Inl ErrBackup
      | Inr validated \<Rightarrow>
          let data = json_print (put_backup validated) in
          if int (length data) > fs_max_backup then Inl ErrBackup else Inr data)"

definition rebased :: "u64 \<Rightarrow> fs_config \<Rightarrow> fs_config" where
  "rebased r c = c\<lparr>fc_revision := r, fc_shares := (fc_shares c)\<lparr>sc_revision := r\<rparr>,
     fc_nfs := (fc_nfs c)\<lparr>np_revision := r, np_volume_revision := r\<rparr>\<rparr>"

definition restore_candidate :: "string \<Rightarrow> u64 \<Rightarrow> fs_error + fs_config" where
  "restore_candidate data expected =
     (if expected = - 1 then Inl ErrBackup
      else case config_envelope data fs_max_backup 12 [''format'', ''schema_version'', ''configuration''] of
        None \<Rightarrow> Inl ErrBackup
      | Some raws \<Rightarrow>
          if unmarshal json_string (raw_of raws ''format'') \<noteq> Some fs_backup_format \<or>
             unmarshal json_int (raw_of raws ''schema_version'') \<noteq> Some 1
          then Inl ErrBackup
          else case fs_decode_config (reader_of (raw_of raws ''configuration'')) of
            Inl _ \<Rightarrow> Inl ErrBackup
          | Inr c \<Rightarrow>
              (case fs_decode_config (reader_of (json_print (put_fs_config (rebased (expected + 1) c)))) of
                 Inl _ \<Rightarrow> Inl ErrBackup
               | Inr c' \<Rightarrow> Inr c'))"

subsection \<open>The store\<close>

definition fs_codec :: "fs_config codec" where
  "fs_codec = \<lparr>codec_current_name = ''file-services.json'', codec_pending_name = ''.file-services.pending'',
     codec_max_bytes = fs_max_config, codec_complete = True,
     codec_decode = (\<lambda>input. case fs_decode_config input of Inl _ \<Rightarrow> None | Inr c \<Rightarrow> Some c),
     codec_validate = (\<lambda>c. is_ok (fs_validate c)), codec_revision = fc_revision,
     codec_transition = Some (\<lambda>current next. is_ok (validate_retained current next)),
     codec_marshal = (\<lambda>c. Some (json_print (put_fs_config c)))\<rparr>"

definition fs_open :: "'w kernel \<Rightarrow> string \<Rightarrow> 'w \<Rightarrow> (store_error + fs_config store) \<times> 'w" where
  "fs_open K directory w = open_with_codec K directory fs_codec w"

subsection \<open>Accepted documents\<close>

definition fs_config_wf :: "fs_config \<Rightarrow> bool" where
  "fs_config_wf c \<longleftrightarrow>
     fc_format c = fs_config_format \<and> fc_schema_version c = 1 \<and> fc_revision c \<noteq> 0 \<and>
     sc_revision (fc_shares c) = fc_revision c \<and> np_revision (fc_nfs c) = fc_revision c \<and>
     is_ok (smb_build (fc_shares c)) \<and> nfs_policy_wf (fc_nfs c) (fc_shares c)"

text \<open>The conditions of validation without the bounds on the size of the two documents.\<close>

definition nfs_policy_form :: "nfs_policy \<Rightarrow> share_config \<Rightarrow> bool" where
  "nfs_policy_form p volumes \<longleftrightarrow>
     share_config_wf volumes \<and> np_format p = nfs_format \<and> np_schema_version p = 1 \<and> np_revision p \<noteq> 0 \<and>
     np_volume_revision p = sc_revision volumes \<and>
     (\<exists>es. np_exports p = Some es \<and> length es \<le> max_exports \<and>
        exports_wf (vol_id ` set (the (sc_volumes volumes))) es)"

lemma nfs_policy_wf_form:
  "nfs_policy_wf p volumes \<longleftrightarrow> nfs_policy_form p volumes \<and> int (length (json_print (put_policy p))) \<le> nfs_max_bytes"
  by (auto simp: nfs_policy_wf_def nfs_policy_form_def)

definition shares_buildable :: "share_config \<Rightarrow> bool" where
  "shares_buildable c \<longleftrightarrow> share_config_wf c \<and>
     is_ok (build_shares False (the (sc_volumes c)) (the (sc_users c)) 0 [] (the (sc_shares c)))"

lemma smb_build_iff:
  "is_ok (smb_build c) \<longleftrightarrow> shares_buildable c \<and> int (length (json_print (put_share_config c))) \<le> share_max_bytes"
  by (auto simp: smb_build_def smb_build_with_def shares_buildable_def share_ok_iff Let_def split: sum.splits)

definition fs_form :: "fs_config \<Rightarrow> bool" where
  "fs_form c \<longleftrightarrow>
     fc_format c = fs_config_format \<and> fc_schema_version c = 1 \<and> fc_revision c \<noteq> 0 \<and>
     sc_revision (fc_shares c) = fc_revision c \<and> np_revision (fc_nfs c) = fc_revision c \<and>
     shares_buildable (fc_shares c) \<and> nfs_policy_form (fc_nfs c) (fc_shares c)"

definition fs_fits :: "fs_config \<Rightarrow> bool" where
  "fs_fits c \<longleftrightarrow> int (length (json_print (put_share_config (fc_shares c)))) \<le> share_max_bytes \<and>
     int (length (json_print (put_policy (fc_nfs c)))) \<le> nfs_max_bytes"

lemma fs_config_wf_form: "fs_config_wf c \<longleftrightarrow> fs_form c \<and> fs_fits c"
  by (auto simp: fs_config_wf_def fs_form_def fs_fits_def smb_build_iff nfs_policy_wf_form)

lemma nfs_build_iff: "is_ok (nfs_build p volumes) \<longleftrightarrow> nfs_policy_wf p volumes"
  by (auto simp: nfs_build_def nfs_validate_iff [symmetric] Let_def split: sum.splits)

lemma fs_build_iff: "is_ok (fs_build shares nfs) \<longleftrightarrow> is_ok (smb_build shares) \<and> nfs_policy_wf nfs shares"
  by (auto simp: fs_build_def nfs_build_iff [symmetric] split: sum.splits)

lemma fs_validate_iff: "is_ok (fs_validate c) \<longleftrightarrow> fs_config_wf c"
proof -
  have "nfs_policy_wf (fc_nfs c) (fc_shares c) \<Longrightarrow> np_volume_revision (fc_nfs c) = sc_revision (fc_shares c)"
    by (simp add: nfs_policy_wf_def)
  then show ?thesis using fs_build_iff [of "fc_shares c" "fc_nfs c"]
    by (auto simp: fs_validate_def fs_config_wf_def split: sum.splits)
qed

subsection \<open>The NFS policy document\<close>

lemma prefix_string_valid: "valid_string (prefix_string p)"
proof -
  have "list_all (\<lambda>c. (of_char c :: nat) < 128) (format_hex n)" for n
  proof (induction n rule: format_hex.induct)
    case (1 n)
    then show ?case by (subst format_hex.simps) (auto simp: hex_lower_ascii)
  qed
  moreover have "list_all (\<lambda>c. (of_char c :: nat) < 128) (format_uint n)" for n
    using format_uint_digits [of n] by (auto simp: list_all_iff dec_digit_def)
  ultimately have "list_all (\<lambda>c. (of_char c :: nat) < 128) (addr_string a)" for a
    by (auto simp: addr_string_def format_ip4_def format_ip6_def list.pred_map comp_def list.pred_True Let_def
        split: addr.split prod.split intro!: join_with_all)
  then have "ascii_string (prefix_string p)"
    using \<open>\<And>n. list_all (\<lambda>c. (of_char c :: nat) < 128) (format_uint n)\<close> by (simp add: prefix_string_def ascii_string_def)
  then show ?thesis by (rule valid_string_ascii)
qed

lemma hex_value_ascii: "hex_value c \<noteq> None \<Longrightarrow> (of_char c :: nat) < 128"
  by (auto simp: hex_value_def Let_def split: if_splits)

lemma hex_decode_ascii: "hex_decode s \<noteq> None \<Longrightarrow> list_all (\<lambda>c. (of_char c :: nat) < 128) s"
  by (induction s rule: hex_decode.induct) (auto split: option.splits intro: hex_value_ascii)

lemma nfs_uuid_valid:
  assumes "nfs_uuid s"
  shows "valid_string s"
proof -
  have "hex_decode (filter (\<lambda>c. c \<noteq> CHR ''-'') s) \<noteq> None" using assms unfolding nfs_uuid_def Let_def by blast
  from hex_decode_ascii [OF this] have "(of_char c :: nat) < 128" if "c \<in> set s" for c
    using that by (cases "c = CHR ''-''") (simp_all add: list_all_iff)
  then have "ascii_string s" unfolding ascii_string_def list_all_iff by blast
  then show ?thesis by (rule valid_string_ascii)
qed

lemma put_client_ok: "client_wf c \<Longrightarrow> json_ok (put_client c)"
proof -
  assume c: "client_wf c"
  then obtain px where "prefix_string px = cl_network c" by (auto simp: client_wf_def validNetwork_def)
  then have "valid_string (cl_network c)" using prefix_string_valid [of px] by simp
  moreover have "ascii_string (cl_access c)" "ascii_string (cl_squash c)" "ascii_string (cl_security c)"
    using c by (auto simp: client_wf_def client_fields_ok_def ascii_string_def)
  ultimately show ?thesis by (simp add: put_client_def key_ascii)
qed

lemma put_export_ok:
  assumes "export_wf known e" "\<And>v. v \<in> known \<Longrightarrow> valid_string v"
  shows "json_ok (put_export e)"
proof -
  have "list_all (\<lambda>c. json_ok (put_client c)) (ex_clients e)"
    using assms(1) by (auto simp: export_wf_def clients_wf_def list_all_iff intro: put_client_ok)
  then show ?thesis using assms
    by (simp add: put_export_def put_list_ok export_wf_def nfs_relativePath_def nfs_uuid_valid key_ascii)
qed

lemma form_volume_ids:
  "nfs_policy_form p volumes \<Longrightarrow> v \<in> vol_id ` set (the (sc_volumes volumes)) \<Longrightarrow> identifier_ok v"
  by (auto simp: nfs_policy_form_def share_config_wf_def volume_wf_def)

lemma put_policy_ok: "nfs_policy_form p volumes \<Longrightarrow> json_ok (put_policy p)"
proof -
  assume p: "nfs_policy_form p volumes"
  then obtain es where es: "np_exports p = Some es" "exports_wf (vol_id ` set (the (sc_volumes volumes))) es"
    by (auto simp: nfs_policy_form_def)
  have "valid_string v" if "v \<in> vol_id ` set (the (sc_volumes volumes))" for v
    using form_volume_ids [OF p that] by (simp add: first_lower_ascii)
  then have "list_all (\<lambda>e. json_ok (put_export e)) es"
    using es(2) by (auto simp: exports_wf_def list_all_iff intro: put_export_ok)
  then show ?thesis using p es(1) by (simp add: put_policy_def put_list_ok nfs_policy_form_def nfs_format_def key_ascii)
qed

lemma put_nfs_scans:
  "scan_value 4 8 (Some nfs_fields) (put_client c)" "scan_value 2 8 (Some nfs_fields) (put_export e)"
  by (simp_all add: put_client_def put_export_def put_list_def put_uint_def scan_keys_iff nfs_fields_def
      list.pred_map comp_def list_all_iff)

lemma put_policy_scan: "nfs_policy_form p volumes \<Longrightarrow> scan_value 0 8 (Some nfs_fields) (put_policy p)"
  by (auto simp: put_policy_def put_list_def nfs_policy_form_def scan_keys_iff put_uint_def put_int_def
      nfs_fields_def list.pred_map comp_def list_all_iff put_nfs_scans [unfolded nfs_fields_def])

lemma json_client_put [simp]: "json_client (put_client c) = Some c"
  by (simp add: json_client_def put_client_def json_member_def)

lemma json_export_put [simp]: "json_export (put_export e) = Some e"
  by (auto simp: json_export_def put_export_def put_list_def json_member_def json_list_put simp del: json_list.simps)

lemma json_policy_put: "nfs_policy_form p volumes \<Longrightarrow> json_policy (put_policy p) = Some p"
  by (auto simp: json_policy_def put_policy_def put_list_def json_member_def nfs_policy_form_def
      json_int_put json_list_put simp del: json_list.simps)

lemma nfs_decode_marshal:
  assumes "nfs_policy_wf p volumes"
  shows "nfs_decode (reader_of (json_print (put_policy p))) volumes = Inr p"
proof -
  have f: "nfs_policy_form p volumes" "int (length (json_print (put_policy p))) \<le> nfs_max_bytes"
    using assms by (simp_all add: nfs_policy_wf_form)
  show ?thesis unfolding nfs_decode_iff
    using config_decode_print [OF put_policy_ok [OF f(1)] put_policy_scan [OF f(1)] f(2), of json_policy]
      json_policy_put [OF f(1)] assms by (simp add: nfs_max_bytes_def)
qed

subsection \<open>The combined document\<close>

lemma config_decode_size:
  "config_decode target (reader_of s) mb md keys = Some v \<Longrightarrow> int (length s) \<le> mb"
  by (auto simp: config_decode_def config_text_def read_limited_def reader_of_def split: option.splits if_splits)

lemma share_decode_size: "share_decode (reader_of s) = Inr c \<Longrightarrow> int (length s) \<le> share_max_bytes"
  by (auto simp: share_decode_iff dest: config_decode_size)

lemma nfs_decode_size: "nfs_decode (reader_of s) volumes = Inr p \<Longrightarrow> int (length s) \<le> nfs_max_bytes"
  by (auto simp: nfs_decode_iff dest: config_decode_size)

lemma print_null: "json_ok v \<Longrightarrow> json_print v = ''null'' \<Longrightarrow> v = JNull"
  using parse_print [of v] parse_print [of JNull] by simp

lemma decodeEnvelope_print:
  assumes "list_all (\<lambda>(k, v). valid_string k \<and> json_ok v) ms" "JNull \<notin> snd ` set ms" "distinct (map fst ms)"
    "int (length (json_print (JObj ms))) \<le> mb"
  shows "decodeEnvelope (json_print (JObj ms)) mb (map fst ms) = Inr (map (\<lambda>(k, v). (k, json_print v)) ms)"
proof -
  have "json_print v \<noteq> ''null''" if "(k, v) \<in> set ms" for k v
    using print_null [of v] assms(1,2) that by (force simp: list_all_iff)
  then have "list_all (\<lambda>(key, raw). key \<in> set (map fst ms) \<and> raw \<noteq> ''null'') (map (\<lambda>(k, v). (k, json_print v)) ms)"
    by (auto simp: list_all_iff rev_image_eqI)
  moreover have "distinct (map fst (map (\<lambda>(k, v). (k, json_print v)) ms))"
    using assms(3) by (simp add: comp_def case_prod_beta)
  ultimately show ?thesis using raw_object_print [OF assms(1)] assms(4)
    by (simp add: decodeEnvelope_def skip_space_def del: json_print.simps map_map)
qed

lemma raw_of_print: "map_of ms k = Some v \<Longrightarrow> raw_of (map (\<lambda>(k, v). (k, json_print v)) ms) k = json_print v"
  by (simp add: raw_of_def map_of_map)

lemma unmarshal_print: "json_ok v \<Longrightarrow> unmarshal target (json_print v) = target v"
  by (simp add: unmarshal_def parse_print)

lemma fs_members_ok: "fs_form c \<Longrightarrow> list_all (\<lambda>(k, v). valid_string k \<and> json_ok v) (fs_members c)"
  by (auto simp: fs_members_def fs_form_def shares_buildable_def fs_config_format_def key_ascii
      put_share_config_ok put_policy_ok)

lemma fs_members_keys: "map fst (fs_members c) = fs_keys" "distinct (map fst (fs_members c))" "JNull \<notin> snd ` set (fs_members c)"
  by (auto simp: fs_members_def fs_keys_def put_uint_def put_int_def put_share_config_def put_policy_def)

lemma fs_document_size:
  assumes "fs_form c"
  shows "int (length (json_print (put_fs_config c))) \<le>
     160 + int (length (json_print (put_share_config (fc_shares c)))) + int (length (json_print (put_policy (fc_nfs c))))"
  using assms length_put_u64 [of "fc_revision c"] length_format_uint [of 1 1]
  by (simp add: put_fs_config_def fs_members_def print_string_plain fs_form_def fs_config_format_def put_int_def
      html_safe_def)

lemma decodeEnvelope_size: "decodeEnvelope data mb required = Inr raws \<Longrightarrow> int (length data) \<le> mb"
  by (auto simp: decodeEnvelope_def split: if_splits)

lemma read_limited_fits:
  "read_limited (nat mb + 1) (reader_of s) = Some data \<Longrightarrow> int (length data) \<le> mb \<Longrightarrow> 0 \<le> mb \<Longrightarrow> data = s"
  by (auto simp: read_limited_def reader_of_def split: if_splits)

lemma fs_decode_policies:
  assumes "fs_form c"
  defines "raws \<equiv> map (\<lambda>(k, v). (k, json_print v)) (fs_members c)"
  shows "raw_of raws ''shares'' = json_print (put_share_config (fc_shares c))"
    "raw_of raws ''nfs'' = json_print (put_policy (fc_nfs c))"
    "unmarshal json_string (raw_of raws ''format'') = Some (fc_format c)"
    "unmarshal json_int (raw_of raws ''schema_version'') = Some (fc_schema_version c)"
    "unmarshal json_u64 (raw_of raws ''revision'') = Some (fc_revision c)"
proof -
  have m: "map_of (fs_members c) ''shares'' = Some (put_share_config (fc_shares c))"
    "map_of (fs_members c) ''nfs'' = Some (put_policy (fc_nfs c))"
    "map_of (fs_members c) ''format'' = Some (JStr (fc_format c))"
    "map_of (fs_members c) ''schema_version'' = Some (put_int (fc_schema_version c))"
    "map_of (fs_members c) ''revision'' = Some (put_uint (unat (fc_revision c)))"
    by (simp_all add: fs_members_def)
  note r = raw_of_print [OF m(1)] raw_of_print [OF m(2)] raw_of_print [OF m(3)] raw_of_print [OF m(4)] raw_of_print [OF m(5)]
  have v: "valid_string (fc_format c)" using assms(1) by (simp add: fs_form_def fs_config_format_def key_ascii)
  show "raw_of raws ''shares'' = json_print (put_share_config (fc_shares c))"
    "raw_of raws ''nfs'' = json_print (put_policy (fc_nfs c))" unfolding raws_def using r by simp_all
  show "unmarshal json_string (raw_of raws ''format'') = Some (fc_format c)"
    unfolding raws_def r by (subst unmarshal_print) (use v in simp_all)
  show "unmarshal json_int (raw_of raws ''schema_version'') = Some (fc_schema_version c)"
    unfolding raws_def r by (subst unmarshal_print) (use assms(1) in \<open>simp_all add: json_int_put fs_form_def\<close>)
  show "unmarshal json_u64 (raw_of raws ''revision'') = Some (fc_revision c)"
    unfolding raws_def r by (subst unmarshal_print) simp_all
qed

text \<open>
  What the combined reader makes of the printed document: the document, unless one of the two
  policies is larger than its own reader accepts. The bound on the whole leaves room for both.
\<close>

lemma fs_decode_print:
  assumes "fs_form c"
  shows "fs_decode_config (reader_of (json_print (put_fs_config c))) = (if fs_fits c then Inr c else Inl ErrConfig)"
proof -
  let ?doc = "json_print (put_fs_config c)" and ?raws = "map (\<lambda>(k, v). (k, json_print v)) (fs_members c)"
  have env: "decodeEnvelope ?doc fs_max_config fs_keys = Inr ?raws" if "int (length ?doc) \<le> fs_max_config"
    using decodeEnvelope_print [OF fs_members_ok [OF assms] fs_members_keys(3,2), of fs_max_config] that
    by (simp only: fs_members_keys(1) put_fs_config_def)
  note p = fs_decode_policies [OF assms]
  show ?thesis
  proof (cases "fs_fits c")
    case True
    then have wf: "fs_config_wf c" and n: "nfs_policy_wf (fc_nfs c) (fc_shares c)" and s: "share_config_wf (fc_shares c)"
      using assms by (auto simp: fs_config_wf_form fs_form_def shares_buildable_def nfs_policy_wf_form fs_fits_def)
    have size: "int (length ?doc) \<le> fs_max_config"
      using fs_document_size [OF assms] True by (simp add: fs_fits_def fs_max_config_def fs_max_input_def)
    then have "read_limited (nat fs_max_config + 1) (reader_of ?doc) = Some ?doc"
      by (intro read_limited_whole) linarith
    moreover have "decodePolicies ?raws = Inr (fc_shares c, fc_nfs c)"
      using share_decode_marshal [OF s] nfs_decode_marshal [OF n] True by (simp add: decodePolicies_def p fs_fits_def)
    moreover have eta: "\<lparr>fc_format = fc_format c, fc_schema_version = fc_schema_version c, fc_revision = fc_revision c,
        fc_shares = fc_shares c, fc_nfs = fc_nfs c\<rparr> = c" by simp
    ultimately show ?thesis using env [OF size] True wf
      by (simp add: fs_decode_config_def p fs_validate_iff Let_def eta)
  next
    case False
    have "\<exists>e. fs_decode_config (reader_of ?doc) = Inl e"
    proof (rule ccontr)
      assume "\<nexists>e. fs_decode_config (reader_of ?doc) = Inl e"
      then obtain d where d: "fs_decode_config (reader_of ?doc) = Inr d"
        by (cases "fs_decode_config (reader_of ?doc)") auto
      then obtain data raws where r: "read_limited (nat fs_max_config + 1) (reader_of ?doc) = Some data"
          "decodeEnvelope data fs_max_config fs_keys = Inr raws" "is_ok (decodePolicies raws)"
        by (auto simp: fs_decode_config_def split: option.splits sum.splits)
      note fits = decodeEnvelope_size [OF r(2)]
      have "data = ?doc" by (rule read_limited_fits [OF r(1) fits]) (simp add: fs_max_config_def fs_max_input_def share_max_bytes_def nfs_max_bytes_def)
      then have "is_ok (decodePolicies ?raws)" using r(2,3) env fits by simp
      then have "fs_fits c"
        by (auto simp: decodePolicies_def p fs_fits_def split: sum.splits dest: share_decode_size nfs_decode_size)
      then show False using False by simp
    qed
    moreover have "e = ErrConfig" if "fs_decode_config (reader_of ?doc) = Inl e" for e
      using that by (auto simp: fs_decode_config_def Let_def split: option.splits sum.splits if_splits)
    ultimately show ?thesis using False by auto
  qed
qed

lemma fs_decode_valid: "fs_decode_config input = Inr c \<Longrightarrow> fs_config_wf c"
  by (auto simp: fs_decode_config_def Let_def fs_validate_iff split: option.splits sum.splits if_splits prod.splits)

lemma fs_decode_fails: "fs_decode_config (bs, True) = Inl ErrConfig"
proof (cases "read_limited (nat fs_max_config + 1) (bs, True)")
  case (Some data)
  then have "int (length data) > fs_max_config"
    by (auto simp: read_limited_def split: if_splits)
  then show ?thesis using Some by (simp add: fs_decode_config_def decodeEnvelope_def)
qed (simp add: fs_decode_config_def)

lemma fs_codec_simps [simp]:
  "codec_decode fs_codec input = Some c \<longleftrightarrow> fs_decode_config input = Inr c"
  "codec_validate fs_codec c \<longleftrightarrow> fs_config_wf c"
  "codec_revision fs_codec = fc_revision"
  "codec_marshal fs_codec c = Some (json_print (put_fs_config c))"
  "codec_transition fs_codec = Some (\<lambda>current next. is_ok (validate_retained current next))"
  by (auto simp: fs_codec_def fs_validate_iff split: sum.splits)

interpretation fs_doc: doc_codec fs_codec
proof
  show "codec_valid fs_codec" by code_simp
  show "codec_decode fs_codec (bs, True) = None" for bs by (simp add: fs_codec_def fs_decode_fails)
  show "codec_validate fs_codec d \<and> codec_revision fs_codec d \<noteq> 0" if "codec_decode fs_codec r = Some d" for r d
    using that fs_decode_valid by (auto simp: fs_config_wf_def)
  show "d' = d" if "codec_validate fs_codec d" "codec_marshal fs_codec d = Some bs"
    "codec_decode fs_codec (reader_of bs) = Some d'" for d bs d'
    using that fs_decode_print [of d] by (auto simp: fs_config_wf_form)
qed

interpretation fs_disk: store_env disk_kernel dk_files dk_fds dk_synced dk_crash fs_codec
  by unfold_locales

subsection \<open>Backup and restore\<close>

lemma rebased_simps [simp]:
  "fc_format (rebased r c) = fc_format c" "fc_schema_version (rebased r c) = fc_schema_version c"
  "fc_revision (rebased r c) = r" "fc_shares (rebased r c) = (fc_shares c)\<lparr>sc_revision := r\<rparr>"
  "fc_nfs (rebased r c) = (fc_nfs c)\<lparr>np_revision := r, np_volume_revision := r\<rparr>"
  by (simp_all add: rebased_def)

lemma rebased_form: "fs_form c \<Longrightarrow> r \<noteq> 0 \<Longrightarrow> fs_form (rebased r c)"
  by (auto simp: fs_form_def shares_buildable_def nfs_policy_form_def share_config_wf_def)

lemma backup_members_ok:
  assumes "fs_form c"
  shows "list_all (\<lambda>(k, v). valid_string k \<and> json_ok v)
     [(''format'', JStr fs_backup_format), (''schema_version'', put_int 1), (''configuration'', put_fs_config c)]"
  using fs_members_ok [OF assms] by (simp add: put_fs_config_def fs_backup_format_def key_ascii)

lemma backup_scans:
  "scan_value 4 12 None (put_volume v)" "scan_value 4 12 None (put_user u)" "scan_value 6 12 None (put_grant g)"
  "scan_value 4 12 None (put_share s)" "scan_value 6 12 None (put_client n)" "scan_value 4 12 None (put_export e)"
  by (simp_all add: put_volume_def put_user_def put_grant_def put_share_def put_client_def put_export_def put_list_def
      put_uint_def scan_keys_iff list.pred_map comp_def list_all_iff)

lemma backup_scan: "fs_form c \<Longrightarrow> scan_value 0 12 None (put_backup c)"
  by (auto simp: put_backup_def put_fs_config_def fs_members_def put_share_config_def put_policy_def put_list_def
      put_uint_def put_int_def scan_keys_iff fs_form_def shares_buildable_def share_config_wf_def nfs_policy_form_def
      list.pred_map comp_def list_all_iff backup_scans)

lemma backup_size:
  assumes "fs_form c" "fs_fits c"
  shows "int (length (json_print (put_backup c))) \<le> fs_max_backup"
  using fs_document_size [OF assms(1)] assms(2) length_format_uint [of 1 1]
  by (simp add: put_backup_def print_string_plain fs_backup_format_def put_int_def html_safe_def fs_fits_def
      fs_max_backup_def fs_max_config_def fs_max_input_def)

lemma encode_backup_print: "fs_config_wf c \<Longrightarrow> encode_backup c = Inr (json_print (put_backup c))"
  using backup_size [of c] fs_decode_print [of c]
  by (simp add: encode_backup_def fs_validate_iff fs_config_wf_form Let_def)

lemma restore_print:
  assumes "fs_config_wf c"
  shows "restore_candidate (json_print (put_backup c)) expected =
     (if expected = - 1 \<or> \<not> fs_fits (rebased (expected + 1) c) then Inl ErrBackup else Inr (rebased (expected + 1) c))"
proof (cases "expected = - 1")
  case False
  have f: "fs_form c" "fs_fits c" using assms by (simp_all add: fs_config_wf_form)
  let ?ms = "[(''format'', JStr fs_backup_format), (''schema_version'', put_int 1), (''configuration'', put_fs_config c)]"
  let ?raws = "map (\<lambda>(k, v). (k, json_print v)) ?ms"
  have bounds: "0 < fs_max_backup" "(0 :: int) < 12"
    by (simp_all add: fs_max_backup_def fs_max_config_def fs_max_input_def share_max_bytes_def nfs_max_bytes_def)
  have env: "config_envelope (json_print (put_backup c)) fs_max_backup 12
      [''format'', ''schema_version'', ''configuration''] = Some ?raws"
    using config_envelope_print [OF backup_members_ok [OF f(1)] backup_scan [OF f(1), unfolded put_backup_def]
        backup_size [OF f, unfolded put_backup_def] bounds] unfolding put_backup_def by simp
  have raws: "raw_of ?raws ''format'' = json_print (JStr fs_backup_format)"
    "raw_of ?raws ''schema_version'' = json_print (put_int 1)"
    "raw_of ?raws ''configuration'' = json_print (put_fs_config c)"
    by (simp_all add: raw_of_def del: json_print.simps)
  have head: "unmarshal json_string (json_print (JStr fs_backup_format)) = Some fs_backup_format"
    "unmarshal json_int (json_print (put_int 1)) = Some 1"
    by (subst unmarshal_print; simp add: fs_backup_format_def key_ascii json_int_put)+
  have "expected + 1 \<noteq> 0" using False by (metis add.commute add_eq_0_iff)
  from fs_decode_print [OF rebased_form [OF f(1) this]] show ?thesis
    using False f unfolding restore_candidate_def env option.case raws head
    by (simp add: fs_decode_print [OF f(1)])
qed (simp add: restore_candidate_def)

subsection \<open>Identifiers that NFS clients know\<close>

lemma binding_of_Some: "binding_of c i = Some b \<Longrightarrow> i \<in> set (map fst (fs_bindings c))"
  using map_of_SomeD [of "rev (fs_bindings c)" i b] by (force simp: binding_of_def)

lemma validate_retained_iff:
  "is_ok (validate_retained c c') \<longleftrightarrow> fs_config_wf c \<and> fs_config_wf c' \<and>
     (\<forall>i b b'. binding_of c i = Some b \<and> binding_of c' i = Some b' \<longrightarrow> b = b')"
proof -
  have d: "binding_of c' i \<noteq> None" if "i \<in> set (map fst (fs_bindings c'))" for i
    using that by (auto simp: binding_of_def map_of_eq_None_iff image_iff)
  have moved: "list_ex (\<lambda>i. case binding_of c i of None \<Rightarrow> False | Some old \<Rightarrow> binding_of c' i \<noteq> Some old)
      (map fst (fs_bindings c')) \<longleftrightarrow> (\<exists>i b b'. binding_of c i = Some b \<and> binding_of c' i = Some b' \<and> b \<noteq> b')" (is "?L = ?R")
  proof
    assume ?L
    then obtain i where i: "i \<in> set (map fst (fs_bindings c'))"
        "case binding_of c i of None \<Rightarrow> False | Some old \<Rightarrow> binding_of c' i \<noteq> Some old"
      unfolding list_ex_iff by blast
    then obtain b where b: "binding_of c i = Some b" "binding_of c' i \<noteq> Some b" by (cases "binding_of c i") auto
    moreover obtain b' where "binding_of c' i = Some b'" using d [OF i(1)] by blast
    ultimately show ?R by metis
  next
    assume ?R
    then obtain i b b' where "binding_of c i = Some b" "binding_of c' i = Some b'" "b \<noteq> b'" by blast
    then show ?L using binding_of_Some [of c' i b'] unfolding list_ex_iff by force
  qed
  show ?thesis unfolding validate_retained_def fs_validate_iff moved by simp blast
qed

text \<open>The source of an export: its volume, the filesystem behind the volume, and its path.\<close>

lemma binding_of_export:
  assumes "fs_config_wf c" "e \<in> set (slice (np_exports (fc_nfs c)))"
  shows "\<exists>v \<in> set (slice (sc_volumes (fc_shares c))). vol_id v = ex_volume_id e \<and>
     binding_of c (ex_id e) = Some (ex_volume_id e, vol_filesystem_uuid v, ex_relative_path e)"
proof -
  obtain es vs where s: "np_exports (fc_nfs c) = Some es" "sc_volumes (fc_shares c) = Some vs"
    "exports_wf (vol_id ` set vs) es" "distinct (map vol_id vs)"
    using assms(1) by (auto simp: fs_config_wf_def nfs_policy_wf_def share_config_wf_def)
  have e: "e \<in> set es" using assms(2) s(1) by (simp add: slice_def)
  then obtain v where v: "v \<in> set vs" "vol_id v = ex_volume_id e"
    using s(3) by (auto simp: exports_wf_def export_wf_def)
  let ?b = "(ex_id e, vol_id v, vol_filesystem_uuid v, ex_relative_path e)"
  have all: "p = ?b" if in_c: "p \<in> set (fs_bindings c)" "fst p = ex_id e" for p
  proof -
    obtain e' v' where p: "e' \<in> set es" "v' \<in> set vs" "vol_id v' = ex_volume_id e'"
      "p = (ex_id e', vol_id v', vol_filesystem_uuid v', ex_relative_path e')"
      using in_c(1) s(1,2) by (auto simp: fs_bindings_def slice_def)
    have "e' = e" using p(1,4) in_c(2) e s(3) by (auto simp: exports_wf_def distinct_map inj_on_def)
    moreover have "v' = v" using p(2,3) v s(4) \<open>e' = e\<close> by (auto simp: distinct_map inj_on_def)
    ultimately show ?thesis using p(4) by simp
  qed
  have "?b \<in> set (fs_bindings c)" using e v s(1,2) by (auto simp: fs_bindings_def slice_def)
  then obtain b where "binding_of c (ex_id e) = Some b"
    using map_of_eq_None_iff [of "rev (fs_bindings c)" "ex_id e"] by (force simp: binding_of_def)
  moreover from this have "(ex_id e, b) \<in> set (fs_bindings c)" by (auto simp: binding_of_def dest: map_of_SomeD)
  ultimately show ?thesis using all [of "(ex_id e, b)"] v s(2) by (auto simp: slice_def)
qed

text \<open>
  One revision to the next: an export whose identifier is kept keeps its volume, the
  filesystem that the volume stands for, and its path.
\<close>

definition filesystem_of :: "fs_config \<Rightarrow> string \<Rightarrow> string option" where
  "filesystem_of c i = map_option vol_filesystem_uuid (find (\<lambda>v. vol_id v = i) (slice (sc_volumes (fc_shares c))))"

definition same_source :: "fs_config \<Rightarrow> nfs_export \<Rightarrow> fs_config \<Rightarrow> nfs_export \<Rightarrow> bool" where
  "same_source c e c' e' \<longleftrightarrow> ex_volume_id e' = ex_volume_id e \<and> ex_relative_path e' = ex_relative_path e \<and>
     filesystem_of c' (ex_volume_id e') = filesystem_of c (ex_volume_id e)"

definition fs_step :: "fs_config option \<Rightarrow> fs_config option \<Rightarrow> bool" where
  "fs_step d d' =
     (case (d, d') of
        (None, Some c) \<Rightarrow> fc_revision c = 1
      | (Some c, Some c') \<Rightarrow> fc_revision c \<noteq> - 1 \<and> fc_revision c' = fc_revision c + 1 \<and>
          (\<forall>e \<in> set (slice (np_exports (fc_nfs c))). \<forall>e' \<in> set (slice (np_exports (fc_nfs c'))).
             ex_id e' = ex_id e \<longrightarrow> same_source c e c' e')
      | _ \<Rightarrow> False)"

lemma binding_filesystem:
  assumes "fs_config_wf c" "e \<in> set (slice (np_exports (fc_nfs c)))"
  shows "\<exists>u. binding_of c (ex_id e) = Some (ex_volume_id e, u, ex_relative_path e) \<and>
     filesystem_of c (ex_volume_id e) = Some u"
proof -
  obtain v where v: "v \<in> set (slice (sc_volumes (fc_shares c)))" "vol_id v = ex_volume_id e"
    "binding_of c (ex_id e) = Some (ex_volume_id e, vol_filesystem_uuid v, ex_relative_path e)"
    using binding_of_export [OF assms] by blast
  have "distinct (map vol_id (slice (sc_volumes (fc_shares c))))"
    using assms(1) by (auto simp: fs_config_wf_def nfs_policy_wf_def share_config_wf_def slice_def)
  from find_distinct [OF this v(1)] show ?thesis using v by (simp add: filesystem_of_def)
qed

lemma codec_edge_step: "codec_edge fs_codec d d' \<Longrightarrow> fs_step d d'"
proof -
  assume edge: "codec_edge fs_codec d d'"
  have "same_source c e c' e'"
    if cc: "d = Some c" "d' = Some c'" and e: "e \<in> set (slice (np_exports (fc_nfs c)))"
      "e' \<in> set (slice (np_exports (fc_nfs c')))" "ex_id e' = ex_id e" for c c' e e'
  proof -
    have r: "fs_config_wf c" "fs_config_wf c'" "\<forall>i b b'. binding_of c i = Some b \<and> binding_of c' i = Some b' \<longrightarrow> b = b'"
      using edge cc by (auto simp: codec_edge_def validate_retained_iff)
    from binding_filesystem [OF r(1) e(1)] binding_filesystem [OF r(2) e(2)] show ?thesis
      using r(3) e(3) by (fastforce simp: same_source_def)
  qed
  then show ?thesis using edge by (auto simp: codec_edge_def fs_step_def split: option.splits)
qed

lemma codec_edges_steps: "(codec_edge fs_codec)\<^sup>*\<^sup>* d d' \<Longrightarrow> fs_step\<^sup>*\<^sup>* d d'"
  by (erule rtranclp_mono [THEN predicate2D, rotated]) (blast intro: codec_edge_step)

subsection \<open>Properties\<close>

text \<open>
  C38: Backup and restore. A valid document always has a backup, and restoring that backup over
  a store at any revision gives the same policies rebased to the next revision; it is refused
  exactly when there is no next revision or the longer revision number takes one of the
  policies over its size limit.
\<close>

theorem backup_restore:
  assumes "fs_validate c = Inr ()"
  shows "\<exists>data. encode_backup c = Inr data \<and>
     restore_candidate data expected =
       (if expected = - 1 \<or> \<not> fs_fits (rebased (expected + 1) c) then Inl ErrBackup
        else Inr (rebased (expected + 1) c))"
proof -
  have "fs_config_wf c" using assms fs_validate_iff [of c] by simp
  then show ?thesis using encode_backup_print restore_print by blast
qed

definition sample_fs :: fs_config where
  "sample_fs = \<lparr>fc_format = fs_config_format, fc_schema_version = 1, fc_revision = 3,
     fc_shares = sample_config, fc_nfs = sample_nfs_policy\<rparr>"

lemma sample_fs_nfs: "nfs_policy_wf sample_nfs_policy sample_config"
proof -
  have "share_validate sample_config = Inr ()" using sample_config_valid by (simp add: is_ok_unit)
  moreover have "nfs_policy_wf sample_nfs_policy sample_shares" using sample_nfs_policy_ok by (simp add: nfs_validate_iff)
  ultimately show ?thesis
    by (auto simp: nfs_policy_wf_def share_validate_iff [symmetric] sample_config_def sample_shares_def)
qed

lemma sample_fs_ok: "fs_validate sample_fs = Inr ()"
proof -
  have "fs_config_wf sample_fs"
    using sample_fs_nfs sample_config_builds
    by (auto simp: fs_config_wf_def sample_fs_def sample_config_def sample_shares_def sample_nfs_policy_def is_ok_iff)
  then show ?thesis using fs_validate_iff [of sample_fs] by (simp add: is_ok_unit)
qed

lemma sample_fs_size: "fs_fits (rebased 8 sample_fs)"
  unfolding fs_fits_def by code_simp

theorem backup_restore_witness:
  "\<exists>data. encode_backup sample_fs = Inr data \<and> restore_candidate data 7 = Inr (rebased 8 sample_fs)"
  using backup_restore [OF sample_fs_ok, of 7] sample_fs_size by simp


definition fs_start :: "fs_config store" where
  "fs_start = \<lparr>store_ready = True, store_closed = False, store_uncertain = False,
     store_noatime = False, store_codec = fs_codec\<rparr>"


end
