(* ===== verification/Unix_Identity.thy ===== *)
theory Unix_Identity
  imports Service_Accounts
begin

section \<open>Observed local identities\<close>

text \<open>
  The model of \<open>unixidentity/snapshot.go\<close>: the bounded parser of passwd and group documents,
  the reservations a snapshot yields for the account registry, and the assessment of one
  account against a snapshot. The lemmas say what a parsed snapshot satisfies, give each
  verdict of \<open>Inspect\<close> by an explicit condition on the files, and connect the two halves:
  an account the registry creates under a snapshot's reservations is absent from it.
\<close>

subsection \<open>Data\<close>

definition ui_max_file_bytes :: nat where "ui_max_file_bytes = 1048576"
definition ui_max_records :: nat where "ui_max_records = 4096"
definition ui_max_line_bytes :: nat where "ui_max_line_bytes = 16384"

definition id_absent :: string where "id_absent = ''absent-from-supplied-files''"
definition id_partial :: string where "id_partial = ''partial-local-identity''"
definition id_conflict :: string where "id_conflict = ''conflicting-local-identity''"
definition id_observed :: string where "id_observed = ''matching-local-identity''"

lemmas id_status_defs = id_absent_def id_partial_def id_conflict_def id_observed_def

datatype identity_error = IdentInvalid

record unix_user =
  uu_name :: string
  uu_uid :: u32
  uu_gid :: u32

record unix_group =
  ug_name :: string
  ug_gid :: u32
  ug_members :: "string list"

record snapshot =
  snap_valid :: bool
  snap_users :: "unix_user list"
  snap_groups :: "unix_group list"

record assessment =
  as_status :: string
  as_user_present :: bool
  as_group_present :: bool

subsection \<open>Parsing\<close>

definition unix_name_rune :: "nat \<Rightarrow> bool" where
  "unix_name_rune r \<longleftrightarrow> lower_rune r \<or> upper_rune r \<or> digit_rune r \<or> r = 95 \<or> r = 45 \<or> r = 46 \<or> r = 36"

definition unix_name :: "string \<Rightarrow> bool" where
  "unix_name v \<longleftrightarrow> length v \<noteq> 0 \<and> length v \<le> 256 \<and> list_all unix_name_rune (runes v)"

definition unix_number :: "string \<Rightarrow> identity_error + u32" where
  "unix_number v =
     (if v = [] \<or> length v > 10 then Inl IdentInvalid
      else if \<not> list_all digit_rune (runes v) then Inl IdentInvalid
      else case parse_uint 32 v of
        None \<Rightarrow> Inl IdentInvalid
      | Some n \<Rightarrow> if n = 4294967295 then Inl IdentInvalid else Inr (of_nat n))"

text \<open>The loop over the lines, with the keys seen and the number of rows kept so far.\<close>

fun read_lines :: "nat \<Rightarrow> string list \<Rightarrow> nat \<Rightarrow> string list \<Rightarrow> identity_error + string list list" where
  "read_lines count seen rows [] = Inr []"
| "read_lines count seen rows (line # ls) =
     (if length line > ui_max_line_bytes then Inl IdentInvalid
      else if line = [] \<or> has_prefix line ''#'' then read_lines count seen rows ls
      else
        (let row = split_on (CHR '':'') line in
         if length row \<noteq> count \<or> \<not> unix_name (row ! 0) \<or> row ! 0 \<in> set seen \<or> rows \<ge> ui_max_records
         then Inl IdentInvalid
         else (case read_lines count (row ! 0 # seen) (Suc rows) ls of
             Inl e \<Rightarrow> Inl e
           | Inr rest \<Rightarrow> Inr (row # rest))))"

definition row_char :: "char \<Rightarrow> bool" where
  "row_char c \<longleftrightarrow> c = CHR 0x0A \<or> \<not> ((of_char c :: nat) < 32 \<or> (of_char c :: nat) = 127)"

definition read_rows :: "reader option \<Rightarrow> nat \<Rightarrow> identity_error + string list list" where
  "read_rows input count =
     (case input of
        None \<Rightarrow> Inl IdentInvalid
      | Some r \<Rightarrow> (case read_limited (ui_max_file_bytes + 1) r of
          None \<Rightarrow> Inl IdentInvalid
        | Some data \<Rightarrow>
            if length data > ui_max_file_bytes \<or> \<not> valid_string data then Inl IdentInvalid
            else if \<not> list_all row_char data then Inl IdentInvalid
            else (case read_lines count [] 0 (split_on (CHR 0x0A) data) of
                Inl e \<Rightarrow> Inl e
              | Inr rows \<Rightarrow> if length rows = 0 then Inl IdentInvalid else Inr rows)))"

fun parse_users :: "string list list \<Rightarrow> identity_error + unix_user list" where
  "parse_users [] = Inr []"
| "parse_users (row # rows) =
     (case (unix_number (row ! 2), unix_number (row ! 3)) of
        (Inr uid, Inr gid) \<Rightarrow> (case parse_users rows of
            Inl e \<Rightarrow> Inl e
          | Inr us \<Rightarrow> Inr (\<lparr>uu_name = row ! 0, uu_uid = uid, uu_gid = gid\<rparr> # us))
      | _ \<Rightarrow> Inl IdentInvalid)"

fun parse_members :: "string list \<Rightarrow> string list \<Rightarrow> identity_error + string list" where
  "parse_members seen [] = Inr []"
| "parse_members seen (m # ms) =
     (if \<not> unix_name m \<or> m \<in> set seen then Inl IdentInvalid
      else (case parse_members (m # seen) ms of Inl e \<Rightarrow> Inl e | Inr rest \<Rightarrow> Inr (m # rest)))"

fun parse_groups :: "string list list \<Rightarrow> identity_error + unix_group list" where
  "parse_groups [] = Inr []"
| "parse_groups (row # rows) =
     (case unix_number (row ! 2) of
        Inl e \<Rightarrow> Inl IdentInvalid
      | Inr gid \<Rightarrow>
          (case (if row ! 3 \<noteq> [] then parse_members [] (split_on (CHR '','') (row ! 3)) else Inr []) of
             Inl e \<Rightarrow> Inl IdentInvalid
           | Inr members \<Rightarrow> (case parse_groups rows of
               Inl e \<Rightarrow> Inl e
             | Inr gs \<Rightarrow> Inr (\<lparr>ug_name = row ! 0, ug_gid = gid, ug_members = members\<rparr> # gs))))"

definition snapshot_parse :: "reader option \<Rightarrow> reader option \<Rightarrow> identity_error + snapshot" where
  "snapshot_parse passwd groups =
     (case read_rows passwd 7 of
        Inl e \<Rightarrow> Inl IdentInvalid
      | Inr rows \<Rightarrow> (case parse_users rows of
          Inl e \<Rightarrow> Inl IdentInvalid
        | Inr us \<Rightarrow> (case read_rows groups 4 of
            Inl e \<Rightarrow> Inl IdentInvalid
          | Inr grows \<Rightarrow> (case parse_groups grows of
              Inl e \<Rightarrow> Inl IdentInvalid
            | Inr gs \<Rightarrow> Inr \<lparr>snap_valid = True, snap_users = us, snap_groups = gs\<rparr>))))"

subsection \<open>Reservations\<close>

definition snap_uids :: "snapshot \<Rightarrow> u32 list" where
  "snap_uids s = map uu_uid (snap_users s)"

definition snap_gids :: "snapshot \<Rightarrow> u32 list" where
  "snap_gids s = map uu_gid (snap_users s) @ map ug_gid (snap_groups s)"

definition snap_names :: "snapshot \<Rightarrow> string list" where
  "snap_names s = map uu_name (snap_users s) @ concat (map (\<lambda>g. ug_name g # ug_members g) (snap_groups s))"

definition snapshot_reservations :: "snapshot \<Rightarrow> identity_error + reservations" where
  "snapshot_reservations s =
     (if \<not> snap_valid s then Inl IdentInvalid
      else
        (let uids = remdups (snap_uids s); gids = remdups (snap_gids s); names = remdups (snap_names s) in
         if length names > 65536 then Inl IdentInvalid
         else Inr \<lparr>res_uids = Some (sort uids), res_gids = Some (sort gids), res_names = Some (sort names)\<rparr>))"

subsection \<open>Assessment of one account\<close>

text \<open>The two loops of \<open>Inspect\<close>; \<open>None\<close> is the early return of a conflict.\<close>

fun inspect_users :: "account \<Rightarrow> bool \<Rightarrow> unix_user list \<Rightarrow> bool option" where
  "inspect_users a has [] = Some has"
| "inspect_users a has (u # us) =
     (if equal_fold (uu_name u) (acc_name a) then
        (if uu_name u \<noteq> acc_name a \<or> uu_uid u \<noteq> acc_uid a \<or> uu_gid u \<noteq> acc_gid a then None
         else inspect_users a True us)
      else if uu_uid u = acc_uid a \<or> uu_gid u = acc_gid a then None
      else inspect_users a has us)"

definition own_group :: "account \<Rightarrow> unix_group \<Rightarrow> bool" where
  "own_group a g \<longleftrightarrow> ug_name g = acc_name a \<and> ug_gid g = acc_gid a"

fun inspect_groups :: "account \<Rightarrow> bool \<Rightarrow> unix_group list \<Rightarrow> bool option" where
  "inspect_groups a has [] = Some has"
| "inspect_groups a has (g # gs) =
     (let own = own_group a g;
          hit = equal_fold (ug_name g) (acc_name a) \<or> ug_gid g = acc_gid a in
      if hit \<and> \<not> own then None
      else if list_ex (\<lambda>m. own \<and> m \<noteq> acc_name a \<or> \<not> own \<and> equal_fold m (acc_name a)) (ug_members g) then None
      else inspect_groups a (has \<or> hit) gs)"

definition snapshot_inspect :: "snapshot \<Rightarrow> account \<Rightarrow> identity_error + assessment" where
  "snapshot_inspect s a =
     (let (r, verdict) = registry_new (acc_uid a) (acc_uid a);
          r' = r\<lparr>reg_accounts := Some [a]\<rparr> in
      if \<not> snap_valid s \<or> \<not> is_ok verdict \<or> \<not> is_ok (registry_validate r') then Inl IdentInvalid
      else
        (case inspect_users a False (snap_users s) of
           None \<Rightarrow> Inr \<lparr>as_status = id_conflict, as_user_present = False, as_group_present = False\<rparr>
         | Some has_user \<Rightarrow> (case inspect_groups a False (snap_groups s) of
             None \<Rightarrow> Inr \<lparr>as_status = id_conflict, as_user_present = False, as_group_present = False\<rparr>
           | Some has_group \<Rightarrow>
               Inr \<lparr>as_status = (if has_user \<and> has_group then id_observed
                                 else if has_user \<or> has_group then id_partial else id_absent),
                    as_user_present = has_user, as_group_present = has_group\<rparr>)))"

definition snapshot_assess :: "snapshot \<Rightarrow> account \<Rightarrow> identity_error + string" where
  "snapshot_assess s a = map_sum (\<lambda>e. e) as_status (snapshot_inspect s a)"

subsection \<open>What a parsed snapshot satisfies\<close>

definition unix_number_ok :: "u32 \<Rightarrow> bool" where
  "unix_number_ok n \<longleftrightarrow> n \<noteq> - 1"

definition snapshot_wf :: "snapshot \<Rightarrow> bool" where
  "snapshot_wf s \<longleftrightarrow>
     snap_valid s \<and>
     snap_users s \<noteq> [] \<and> length (snap_users s) \<le> ui_max_records \<and>
     distinct (map uu_name (snap_users s)) \<and>
     (\<forall>u \<in> set (snap_users s). unix_name (uu_name u) \<and> unix_number_ok (uu_uid u) \<and> unix_number_ok (uu_gid u)) \<and>
     snap_groups s \<noteq> [] \<and> length (snap_groups s) \<le> ui_max_records \<and>
     distinct (map ug_name (snap_groups s)) \<and>
     (\<forall>g \<in> set (snap_groups s). unix_name (ug_name g) \<and> unix_number_ok (ug_gid g) \<and>
        distinct (ug_members g) \<and> list_all unix_name (ug_members g))"

lemma parse_uint_bound: "parse_uint bits s = Some n \<Longrightarrow> n < 2 ^ bits"
  by (auto simp: parse_uint_def split: if_splits)

lemma unix_number_ok_result: "unix_number v = Inr n \<Longrightarrow> unix_number_ok n"
proof -
  assume v: "unix_number v = Inr n"
  then obtain k where k: "parse_uint 32 v = Some k" "k \<noteq> 4294967295" "n = of_nat k"
    by (auto simp: unix_number_def split: if_splits option.splits)
  have "unat n = k" using parse_uint_bound [OF k(1)] by (simp add: k(3) unat_of_nat)
  moreover have "unat (- 1 :: u32) = 4294967295" by (simp add: unsigned_minus_1_eq_mask mask_eq_exp_minus_1)
  ultimately show ?thesis using k(2) by (auto simp: unix_number_ok_def)
qed

lemma read_lines_ok:
  "read_lines count seen rows ls = Inr rs \<Longrightarrow>
     (\<forall>r \<in> set rs. length r = count \<and> unix_name (r ! 0)) \<and> distinct (map (\<lambda>r. r ! 0) rs) \<and>
     set (map (\<lambda>r. r ! 0) rs) \<inter> set seen = {} \<and> (rs = [] \<or> rows + length rs \<le> ui_max_records)"
proof (induction count seen rows ls arbitrary: rs rule: read_lines.induct)
  case (2 count seen rows line ls)
  show ?case
  proof (cases "line = [] \<or> has_prefix line ''#''")
    case True
    then show ?thesis using 2 by (auto split: if_splits)
  next
    case False
    then obtain rest where rest: "rs = split_on (CHR '':'') line # rest"
      "read_lines count (split_on (CHR '':'') line ! 0 # seen) (Suc rows) ls = Inr rest"
      "length (split_on (CHR '':'') line) = count" "unix_name (split_on (CHR '':'') line ! 0)"
      "split_on (CHR '':'') line ! 0 \<notin> set seen" "\<not> ui_max_records \<le> rows" "\<not> ui_max_line_bytes < length line"
      using "2.prems" by (auto simp: Let_def split: if_splits sum.splits)
    have ih: "(\<forall>r \<in> set rest. length r = count \<and> unix_name (r ! 0)) \<and> distinct (map (\<lambda>r. r ! 0) rest) \<and>
       set (map (\<lambda>r. r ! 0) rest) \<inter> set (split_on (CHR '':'') line ! 0 # seen) = {} \<and>
       (rest = [] \<or> Suc rows + length rest \<le> ui_max_records)"
      by (rule "2.IH"(2)) (use False rest in simp_all)
    then show ?thesis using rest(1,3-6) by auto
  qed
qed simp

lemma read_rows_ok:
  "read_rows input count = Inr rs \<Longrightarrow>
     rs \<noteq> [] \<and> length rs \<le> ui_max_records \<and> distinct (map (\<lambda>r. r ! 0) rs) \<and>
     (\<forall>r \<in> set rs. length r = count \<and> unix_name (r ! 0))"
  by (auto simp: read_rows_def split: option.splits if_splits sum.splits dest!: read_lines_ok)

lemma parse_users_ok:
  "parse_users rows = Inr us \<Longrightarrow>
     map uu_name us = map (\<lambda>r. r ! 0) rows \<and> (\<forall>u \<in> set us. unix_number_ok (uu_uid u) \<and> unix_number_ok (uu_gid u))"
  by (induction rows arbitrary: us) (auto split: sum.splits dest!: unix_number_ok_result)

lemma parse_members_ok:
  "parse_members seen ms = Inr ns \<Longrightarrow> ns = ms \<and> list_all unix_name ms \<and> distinct ms \<and> set ms \<inter> set seen = {}"
  by (induction seen ms arbitrary: ns rule: parse_members.induct) (fastforce split: if_splits sum.splits)+

lemma parse_groups_ok:
  "parse_groups rows = Inr gs \<Longrightarrow>
     map ug_name gs = map (\<lambda>r. r ! 0) rows \<and>
     (\<forall>g \<in> set gs. unix_number_ok (ug_gid g) \<and> distinct (ug_members g) \<and> list_all unix_name (ug_members g))"
  by (induction rows arbitrary: gs)
    (auto split: sum.splits if_splits dest!: unix_number_ok_result parse_members_ok)

lemma rows_transfer:
  assumes "map f xs = map (\<lambda>r. r ! 0) rows" and "\<forall>r \<in> set rows. length r = n \<and> P (r ! 0)"
  shows "\<forall>x \<in> set xs. P (f x)"
  using assms by (metis (no_types, lifting) image_iff list.set_map)

lemma snapshot_parse_wf:
  assumes "snapshot_parse passwd groups = Inr s"
  shows "snapshot_wf s"
proof -
  obtain rows us grows gs where *:
    "read_rows passwd 7 = Inr rows" "parse_users rows = Inr us"
    "read_rows groups 4 = Inr grows" "parse_groups grows = Inr gs"
    "s = \<lparr>snap_valid = True, snap_users = us, snap_groups = gs\<rparr>"
    using assms by (auto simp: snapshot_parse_def split: sum.splits)
  note r = read_rows_ok [OF *(1)] and g = read_rows_ok [OF *(3)]
  note u = parse_users_ok [OF *(2)] and h = parse_groups_ok [OF *(4)]
  have "length us = length rows" "length gs = length grows"
    using arg_cong [OF u [THEN conjunct1], of length] arg_cong [OF h [THEN conjunct1], of length]
    by simp_all
  then have "us \<noteq> []" "length us \<le> ui_max_records" "gs \<noteq> []" "length gs \<le> ui_max_records"
    using r g by auto
  moreover have "\<forall>x \<in> set us. unix_name (uu_name x)"
    by (rule rows_transfer [OF u [THEN conjunct1]]) (use r in iprover)
  moreover have "\<forall>x \<in> set gs. unix_name (ug_name x)"
    by (rule rows_transfer [OF h [THEN conjunct1]]) (use g in iprover)
  moreover have "distinct (map uu_name us)" "distinct (map ug_name gs)"
    using u h r g by (metis (no_types))+
  ultimately show ?thesis using u [THEN conjunct2] h [THEN conjunct2]
    by (simp add: snapshot_wf_def *(5))
qed

subsection \<open>The verdict of an assessment\<close>

text \<open>
  The reference reading: an entry either is the account's own entry, or has nothing in common
  with the account. Any other entry is a conflict.
\<close>

definition user_match :: "account \<Rightarrow> unix_user \<Rightarrow> bool" where
  "user_match a u \<longleftrightarrow> uu_name u = acc_name a \<and> uu_uid u = acc_uid a \<and> uu_gid u = acc_gid a"

definition user_free :: "account \<Rightarrow> unix_user \<Rightarrow> bool" where
  "user_free a u \<longleftrightarrow> \<not> equal_fold (uu_name u) (acc_name a) \<and> uu_uid u \<noteq> acc_uid a \<and> uu_gid u \<noteq> acc_gid a"

definition group_match :: "account \<Rightarrow> unix_group \<Rightarrow> bool" where
  "group_match a g \<longleftrightarrow> ug_name g = acc_name a \<and> ug_gid g = acc_gid a \<and> set (ug_members g) \<subseteq> {acc_name a}"

definition group_free :: "account \<Rightarrow> unix_group \<Rightarrow> bool" where
  "group_free a g \<longleftrightarrow> \<not> equal_fold (ug_name g) (acc_name a) \<and> ug_gid g \<noteq> acc_gid a \<and>
     (\<forall>m \<in> set (ug_members g). \<not> equal_fold m (acc_name a))"

definition identity_verdict :: "snapshot \<Rightarrow> account \<Rightarrow> assessment" where
  "identity_verdict s a =
     (if (\<exists>u \<in> set (snap_users s). \<not> user_match a u \<and> \<not> user_free a u) \<or>
         (\<exists>g \<in> set (snap_groups s). \<not> group_match a g \<and> \<not> group_free a g)
      then \<lparr>as_status = id_conflict, as_user_present = False, as_group_present = False\<rparr>
      else
        (let u = \<exists>u \<in> set (snap_users s). user_match a u; g = \<exists>g \<in> set (snap_groups s). group_match a g in
         \<lparr>as_status = (if u \<and> g then id_observed else if u \<or> g then id_partial else id_absent),
          as_user_present = u, as_group_present = g\<rparr>))"

definition native_account :: "account \<Rightarrow> bool" where
  "native_account a \<longleftrightarrow> identifier_ok (acc_id a) \<and> accountName (acc_name a) \<and>
     1000 \<le> acc_uid a \<and> acc_uid a \<le> 60000 \<and> acc_gid a = acc_uid a \<and>
     acc_state a \<in> {st_disabled, st_enabled, st_retired}"

lemma equal_fold_refl [simp]: "equal_fold s s"
  by (simp add: equal_fold_def)

lemma inspect_users_eq:
  "inspect_users a has us =
     (if \<exists>u \<in> set us. \<not> user_match a u \<and> \<not> user_free a u then None
      else Some (has \<or> (\<exists>u \<in> set us. user_match a u)))"
  by (induction a has us rule: inspect_users.induct) (auto simp: user_match_def user_free_def)

lemma group_conflict_iff:
  "(equal_fold (ug_name g) (acc_name a) \<or> ug_gid g = acc_gid a) \<and> \<not> own_group a g \<or>
   list_ex (\<lambda>m. own_group a g \<and> m \<noteq> acc_name a \<or> \<not> own_group a g \<and> equal_fold m (acc_name a)) (ug_members g) \<longleftrightarrow>
   \<not> group_match a g \<and> \<not> group_free a g"
proof (cases "own_group a g")
  case True
  then show ?thesis by (auto simp: own_group_def group_match_def group_free_def list_ex_iff)
next
  case False
  then show ?thesis by (auto simp: own_group_def group_match_def group_free_def list_ex_iff)
qed

lemma group_hit_iff:
  "group_match a g \<or> group_free a g \<Longrightarrow>
     (equal_fold (ug_name g) (acc_name a) \<or> ug_gid g = acc_gid a) = group_match a g"
  by (auto simp: group_match_def group_free_def)

lemma if_if_same: "(if P then x else if Q then x else y) = (if P \<or> Q then x else y)"
  by simp

lemma inspect_groups_Cons:
  "inspect_groups a has (g # gs) =
     (if \<not> group_match a g \<and> \<not> group_free a g then None
      else inspect_groups a (has \<or> group_match a g) gs)"
proof -
  have "inspect_groups a has (g # gs) =
     (if \<not> group_match a g \<and> \<not> group_free a g then None
      else inspect_groups a (has \<or> equal_fold (ug_name g) (acc_name a) \<or> ug_gid g = acc_gid a) gs)"
    by (simp only: inspect_groups.simps Let_def if_if_same group_conflict_iff)
  then show ?thesis using group_hit_iff [of a g] by simp
qed

lemma inspect_groups_eq:
  "inspect_groups a has gs =
     (if \<exists>g \<in> set gs. \<not> group_match a g \<and> \<not> group_free a g then None
      else Some (has \<or> (\<exists>g \<in> set gs. group_match a g)))"
  by (induction gs arbitrary: has) (simp_all add: inspect_groups_Cons del: inspect_groups.simps(2))

lemma native_account_iff:
  "is_ok (snd (registry_new (acc_uid a) (acc_uid a))) \<and>
   is_ok (registry_validate ((fst (registry_new (acc_uid a) (acc_uid a)))\<lparr>reg_accounts := Some [a]\<rparr>)) \<longleftrightarrow>
   native_account a"
  by (auto simp: registry_new_def Let_def registry_validate_iff registry_wf_def native_account_def
      accounts_wf_def account_wf_def max_records_def max_live_def max_users_def)

lemma identity_verdict_eq:
  "(case inspect_users a False (snap_users s) of
      None \<Rightarrow> \<lparr>as_status = id_conflict, as_user_present = False, as_group_present = False\<rparr>
    | Some has_user \<Rightarrow> (case inspect_groups a False (snap_groups s) of
        None \<Rightarrow> \<lparr>as_status = id_conflict, as_user_present = False, as_group_present = False\<rparr>
      | Some has_group \<Rightarrow>
          \<lparr>as_status = (if has_user \<and> has_group then id_observed
                        else if has_user \<or> has_group then id_partial else id_absent),
           as_user_present = has_user, as_group_present = has_group\<rparr>)) = identity_verdict s a"
  by (cases "\<exists>u \<in> set (snap_users s). \<not> user_match a u \<and> \<not> user_free a u";
      cases "\<exists>g \<in> set (snap_groups s). \<not> group_match a g \<and> \<not> group_free a g")
    (simp_all only: identity_verdict_def inspect_users_eq inspect_groups_eq Let_def if_True if_False
      option.case simp_thms)

lemma snapshot_inspect_eq:
  "snapshot_inspect s a =
     (if snap_valid s \<and> native_account a then Inr (identity_verdict s a) else Inl IdentInvalid)"
proof (cases "snap_valid s \<and> native_account a")
  case True
  then show ?thesis using native_account_iff [of a]
    by (simp add: snapshot_inspect_def case_prod_beta flip: identity_verdict_eq
        split: option.split)
next
  case False
  then show ?thesis using native_account_iff [of a]
    by (auto simp: snapshot_inspect_def case_prod_beta)
qed

text \<open>
  C29: \<open>Inspect\<close> decides the reference verdict. It answers an error exactly for a snapshot that
  was not parsed or an account outside the native form; otherwise a conflict is reported exactly
  when some passwd or group entry shares a name (up to case), a number or a membership with the
  account without being its own entry, and the remaining verdicts say which of the two own
  entries exist.
\<close>

theorem snapshot_inspect_exact:
  "snapshot_inspect s a =
     (if snap_valid s \<and> native_account a then Inr (identity_verdict s a) else Inl IdentInvalid)"
  by (rule snapshot_inspect_eq)

subsection \<open>Reservations and the registry\<close>

lemma snapshot_reservations_iff:
  "snapshot_reservations s = Inr res \<longleftrightarrow>
     snap_valid s \<and> card (set (snap_names s)) \<le> 65536 \<and>
     res = \<lparr>res_uids = Some (sorted_list_of_set (set (snap_uids s))),
            res_gids = Some (sorted_list_of_set (set (snap_gids s))),
            res_names = Some (sorted_list_of_set (set (snap_names s)))\<rparr>"
  by (auto simp: snapshot_reservations_def Let_def sorted_list_of_set_sort_remdups length_remdups_card_conv)

lemma snapshot_free:
  assumes "uid = gid" and "uid \<notin> set (snap_uids s) \<union> set (snap_gids s)"
    and "\<forall>x \<in> set (snap_names s). \<not> equal_fold x (acc_name a)" and "acc_uid a = uid" "acc_gid a = gid"
  shows "(\<forall>u \<in> set (snap_users s). user_free a u) \<and> (\<forall>g \<in> set (snap_groups s). group_free a g)"
  using assms by (auto simp: snap_uids_def snap_gids_def snap_names_def user_free_def group_free_def image_iff)

lemma all_free_absent:
  assumes "\<forall>u \<in> set (snap_users s). user_free a u" and "\<forall>g \<in> set (snap_groups s). group_free a g"
  shows "identity_verdict s a = \<lparr>as_status = id_absent, as_user_present = False, as_group_present = False\<rparr>"
proof -
  have "\<forall>u \<in> set (snap_users s). \<not> user_match a u" "\<forall>g \<in> set (snap_groups s). \<not> group_match a g"
    using assms by (auto simp: user_free_def user_match_def group_free_def group_match_def)
  then show ?thesis using assms by (simp add: identity_verdict_def)
qed

lemma registry_new_account_native:
  assumes "registry_wf r" and "reg_accounts r = Some (as @ [a])"
  shows "native_account a"
  using assms by (auto simp: registry_wf_def native_account_def accounts_wf_def account_wf_def)

lemma unix_name_char: "unix_name_rune r \<Longrightarrow> r < 128 \<and> r \<notin> {0, 10, 13}"
  by (auto simp: unix_name_rune_def rune_class_defs)

lemma unix_name_reserved: "unix_name v \<Longrightarrow> reserved_name_ok v"
proof -
  assume v: "unix_name v"
  then have all: "list_all (\<lambda>c. unix_name_rune (of_char c)) v"
    using runes_all_ascii [of unix_name_rune v] unix_name_char by (simp add: unix_name_def)
  then have "ascii_string v" using unix_name_char by (auto simp: ascii_string_def list_all_iff)
  moreover have "c \<in> set v \<Longrightarrow> of_char c \<notin> {0, 10, 13 :: nat}" for c
    using all unix_name_char [of "of_char c"] by (auto simp: list_all_iff)
  then have "CHR 0x00 \<notin> set v" "CHR 0x0D \<notin> set v" "CHR 0x0A \<notin> set v" by force+
  ultimately show ?thesis using v by (simp add: reserved_name_ok_def unix_name_def valid_string_ascii)
qed

lemma card_set_le: "length xs \<le> n \<Longrightarrow> card (set xs) \<le> n"
  using card_length [of xs] by linarith

lemma snapshot_reservations_usable:
  assumes "snapshot_wf s" and "snapshot_reservations s = Inr res"
  shows "reservations_ok name res \<longleftrightarrow> (\<forall>x \<in> set (snap_names s). \<not> equal_fold x name)"
proof -
  have names: "\<forall>x \<in> set (snap_names s). reserved_name_ok x"
    using assms(1) unix_name_reserved by (auto simp: snapshot_wf_def snap_names_def list_all_iff)
  have "card (set (snap_uids s)) \<le> 65536" "card (set (snap_gids s)) \<le> 65536"
    by (rule card_set_le, use assms(1) in \<open>simp add: snapshot_wf_def snap_uids_def snap_gids_def ui_max_records_def\<close>)+
  then show ?thesis using names assms(2) by (simp add: snapshot_reservations_iff reservations_ok_def)
qed

text \<open>
  C30: every document pair \<open>Parse\<close> accepts gives a snapshot with between one and 4096 users and
  groups, pairwise distinct well-formed names in each file, duplicate-free well-formed member
  lists, and no identifier equal to the reserved number \<open>MaxUint32\<close>.
\<close>

theorem snapshot_parse_type:
  assumes "snapshot_parse passwd groups = Inr s"
  shows "snapshot_wf s"
  by (rule snapshot_parse_wf [OF assms])

text \<open>
  C31: the registry and the snapshot compose. An account the registry creates under the
  reservations of a parsed snapshot is absent from that snapshot, and those reservations are
  refused by \<open>Create\<close> only when some name of the files equals the new name up to case.
\<close>

theorem created_account_absent:
  assumes "snapshot_parse passwd groups = Inr s" and "snapshot_reservations s = Inr res"
    and "registry_create r e ident name res = Inr r'"
  shows "\<exists>a. reg_accounts r' = Some (accounts_of r @ [a]) \<and> acc_id a = ident \<and> acc_name a = name \<and>
     snapshot_inspect s a = Inr \<lparr>as_status = id_absent, as_user_present = False, as_group_present = False\<rparr>"
proof -
  obtain c where c: "find (\<lambda>c. c \<notin> reserved_numbers res \<union> acc_uid ` set (accounts_of r))
        (candidates (reg_first_id r) (reg_last_id r)) = Some c"
      and r': "r' = r\<lparr>reg_revision := e + 1, reg_accounts := Some (accounts_of r @ [new_account ident name c])\<rparr>"
      and ok: "reservations_ok name res"
    using assms(3) by (auto simp: registry_create_ok_iff)
  define a where "a = new_account ident name c"
  have a: "acc_id a = ident" "acc_name a = name" "acc_uid a = c" "acc_gid a = c"
    by (simp_all add: a_def new_account_def)
  have "c \<notin> reserved_numbers res" using c by (auto simp: find_Some_iff)
  then have "c \<notin> set (snap_uids s) \<union> set (snap_gids s)"
    using assms(2) by (auto simp: snapshot_reservations_iff reserved_numbers_def)
  moreover have "\<forall>x \<in> set (snap_names s). \<not> equal_fold x name"
    using ok snapshot_reservations_usable [OF snapshot_parse_wf [OF assms(1)] assms(2)] by simp
  ultimately have free: "\<forall>u \<in> set (snap_users s). user_free a u" "\<forall>g \<in> set (snap_groups s). group_free a g"
    using snapshot_free [of c c s a] a by simp_all
  have "native_account a"
    by (rule registry_new_account_native [of r' "accounts_of r"])
      (use registry_create_wf [OF assms(3)] r' in \<open>simp_all add: a_def\<close>)
  moreover have "snap_valid s" using snapshot_parse_wf [OF assms(1)] by (simp add: snapshot_wf_def)
  ultimately have "snapshot_inspect s a =
      Inr \<lparr>as_status = id_absent, as_user_present = False, as_group_present = False\<rparr>"
    by (simp add: snapshot_inspect_eq all_free_absent [OF free])
  then show ?thesis using a r' by (intro exI [of _ a]) (simp add: a_def)
qed

text \<open>A concrete pair of files.\<close>

definition sample_passwd :: string where
  "sample_passwd = ''root:x:0:0:r:/:/bin/sh'' @ [CHR 0x0A] @ ''bob:x:1000:100::/:/bin/no'' @ [CHR 0x0A]"

definition sample_group :: string where
  "sample_group = ''root:x:0:'' @ [CHR 0x0A] @ ''users:x:100:bob'' @ [CHR 0x0A]"

definition sample_snapshot :: snapshot where
  "sample_snapshot = \<lparr>snap_valid = True,
     snap_users = [\<lparr>uu_name = ''root'', uu_uid = 0, uu_gid = 0\<rparr>, \<lparr>uu_name = ''bob'', uu_uid = 1000, uu_gid = 100\<rparr>],
     snap_groups = [\<lparr>ug_name = ''root'', ug_gid = 0, ug_members = []\<rparr>,
                    \<lparr>ug_name = ''users'', ug_gid = 100, ug_members = [''bob'']\<rparr>]\<rparr>"

lemma sample_parse:
  "snapshot_parse (Some (reader_of sample_passwd)) (Some (reader_of sample_group)) = Inr sample_snapshot"
  by code_simp

lemma sample_snapshot_reservations:
  "snapshot_reservations sample_snapshot =
     Inr \<lparr>res_uids = Some [0, 1000], res_gids = Some [0, 100], res_names = Some [''bob'', ''root'', ''users'']\<rparr>"
  by code_simp

lemma sample_snapshot_create:
  "is_ok (registry_create sample_registry 1 ''alice'' ''alice''
     \<lparr>res_uids = Some [0, 1000], res_gids = Some [0, 100], res_names = Some [''bob'', ''root'', ''users'']\<rparr>)"
  by code_simp

theorem snapshot_parse_type_witness: "snapshot_wf sample_snapshot"
  by (rule snapshot_parse_type [OF sample_parse])

theorem created_account_absent_witness:
  "\<exists>a. acc_name a = ''alice'' \<and>
     snapshot_inspect sample_snapshot a =
       Inr \<lparr>as_status = id_absent, as_user_present = False, as_group_present = False\<rparr>"
proof -
  obtain r' where "registry_create sample_registry 1 ''alice'' ''alice''
     \<lparr>res_uids = Some [0, 1000], res_gids = Some [0, 100], res_names = Some [''bob'', ''root'', ''users'']\<rparr> = Inr r'"
    using sample_snapshot_create by (auto simp: is_ok_iff)
  from created_account_absent [OF sample_parse sample_snapshot_reservations this] show ?thesis by blast
qed

end
