(* ===== verification/Identity_Provision.thy ===== *)
theory Identity_Provision
  imports Unix_Identity Account_Store
begin

section \<open>Creation of one native identity\<close>

text \<open>
  The model of \<open>identityprovision/journal.go\<close> and \<open>store_linux.go\<close>: the journal of one
  creation, its document form, and the store operations \<open>Begin\<close>, \<open>Step\<close> and \<open>review\<close>.
  The backend that runs the native commands is a parameter. The lemmas show that the journal
  only moves along its phases, that a command runs only while its intent is durable, and that
  a resumed intent is never replayed.
\<close>

subsection \<open>The journal\<close>

record ip_journal =
  ip_format :: string
  ip_schema_version :: int
  ip_revision :: u64
  ip_registry_revision :: u64
  ip_account :: account
  ip_phase :: string

definition ip_format_name :: string where "ip_format_name = ''phantowd-identity-provision''"
definition ip_max_bytes :: int where "ip_max_bytes = 4096"
definition ip_reserved :: string where "ip_reserved = ''reserved''"
definition ip_group_intent :: string where "ip_group_intent = ''group-intent''"
definition ip_group_confirmed :: string where "ip_group_confirmed = ''group-confirmed''"
definition ip_user_intent :: string where "ip_user_intent = ''user-intent''"
definition ip_unix_confirmed :: string where "ip_unix_confirmed = ''unix-confirmed''"
definition ip_review_required :: string where "ip_review_required = ''review-required''"

lemmas ip_phase_defs = ip_reserved_def ip_group_intent_def ip_group_confirmed_def ip_user_intent_def
  ip_unix_confirmed_def ip_review_required_def

datatype ip_error = IP_Invalid | IP_Conflict | IP_Review | IP_Observation
  | IP_Joined_Review "store_error option" | IP_Store store_error | IP_Ctx ctx_error

text \<open>The one-account registry \<open>Validate\<close> builds to check the account.\<close>

definition account_alone_ok :: "account \<Rightarrow> bool" where
  "account_alone_ok a =
     (let (r, verdict) = registry_new (acc_uid a) (acc_uid a) in
      is_ok verdict \<and> is_ok (registry_validate (r\<lparr>reg_accounts := Some [a]\<rparr>)))"

definition ip_validate :: "ip_journal \<Rightarrow> ip_error + unit" where
  "ip_validate j =
     (if \<not> account_alone_ok (ip_account j) \<or> acc_state (ip_account j) \<noteq> st_disabled \<or>
         ip_format j \<noteq> ip_format_name \<or> ip_schema_version j \<noteq> 1 \<or> ip_registry_revision j = 0
      then Inl IP_Invalid
      else if \<not> (ip_phase j = ip_reserved \<and> ip_revision j = 1 \<or>
                 ip_phase j = ip_group_intent \<and> ip_revision j = 2 \<or>
                 ip_phase j = ip_group_confirmed \<and> ip_revision j = 3 \<or>
                 ip_phase j = ip_user_intent \<and> ip_revision j = 4 \<or>
                 ip_phase j = ip_unix_confirmed \<and> ip_revision j = 5 \<or>
                 ip_phase j = ip_review_required \<and> ip_revision j \<ge> 2 \<and> ip_revision j \<le> 6)
      then Inl IP_Invalid
      else Inr ())"

definition ip_keys :: "string list" where
  "ip_keys = [''format'', ''schema_version'', ''revision'', ''registry_revision'', ''account'', ''phase'',
     ''id'', ''name'', ''uid'', ''gid'', ''state'']"

definition zero_account :: account where
  "zero_account = \<lparr>acc_id = [], acc_name = [], acc_uid = 0, acc_gid = 0, acc_state = []\<rparr>"

definition json_ip_journal :: "json \<Rightarrow> ip_journal option" where
  "json_ip_journal v = do {
     ms \<leftarrow> json_object [''format'', ''schema_version'', ''revision'', ''registry_revision'', ''account'', ''phase''] v;
     f \<leftarrow> json_member ms ''format'' json_string [];
     sv \<leftarrow> json_member ms ''schema_version'' json_int 0;
     r \<leftarrow> json_member ms ''revision'' json_u64 0;
     rr \<leftarrow> json_member ms ''registry_revision'' json_u64 0;
     a \<leftarrow> json_member ms ''account'' json_account zero_account;
     p \<leftarrow> json_member ms ''phase'' json_string [];
     Some \<lparr>ip_format = f, ip_schema_version = sv, ip_revision = r, ip_registry_revision = rr,
           ip_account = a, ip_phase = p\<rparr> }"

definition put_ip_journal :: "ip_journal \<Rightarrow> json" where
  "put_ip_journal j = JObj [(''format'', JStr (ip_format j)), (''schema_version'', put_int (ip_schema_version j)),
     (''revision'', put_uint (unat (ip_revision j))),
     (''registry_revision'', put_uint (unat (ip_registry_revision j))),
     (''account'', put_account (ip_account j)), (''phase'', JStr (ip_phase j))]"

definition ip_decode :: "reader option \<Rightarrow> ip_error + ip_journal" where
  "ip_decode input =
     (case input of
        None \<Rightarrow> Inl IP_Invalid
      | Some r \<Rightarrow> (case config_decode json_ip_journal r ip_max_bytes 4 (Some ip_keys) of
          None \<Rightarrow> Inl IP_Invalid
        | Some j \<Rightarrow> if is_ok (ip_validate j) then Inr j else Inl IP_Invalid))"

definition ip_matches :: "ip_journal \<Rightarrow> registry \<Rightarrow> bool" where
  "ip_matches j r =
     (if \<not> is_ok (registry_validate r) \<or> reg_revision r \<noteq> ip_registry_revision j then False
      else list_ex (\<lambda>a. a = ip_account j) (accounts_of r))"

subsection \<open>The store\<close>

text \<open>
  The backend is trusted code outside the package. Each call takes the context and may change
  the world; a command answers whether it succeeded.
\<close>

record 'w ip_backend =
  ipb_observe :: "'w reading_ctx \<Rightarrow> 'w \<Rightarrow> snapshot option \<times> 'w"
  ipb_create_group :: "'w reading_ctx \<Rightarrow> account \<Rightarrow> 'w \<Rightarrow> bool \<times> 'w"
  ipb_create_user :: "'w reading_ctx \<Rightarrow> account \<Rightarrow> 'w \<Rightarrow> bool \<times> 'w"

definition ip_codec :: "ip_journal codec" where
  "ip_codec = \<lparr>codec_current_name = ''identity-operation.json'',
     codec_pending_name = ''.identity-operation.pending'', codec_max_bytes = ip_max_bytes,
     codec_complete = True,
     codec_decode = (\<lambda>input. case ip_decode (Some input) of Inl _ \<Rightarrow> None | Inr j \<Rightarrow> Some j),
     codec_validate = (\<lambda>j. is_ok (ip_validate j)), codec_revision = ip_revision,
     codec_transition = None, codec_marshal = (\<lambda>j. Some (json_print (put_ip_journal j)))\<rparr>"

type_synonym ip_store = "ip_journal store option"

definition ip_open :: "'w kernel \<Rightarrow> string \<Rightarrow> 'w \<Rightarrow> (store_error + ip_store) \<times> 'w" where
  "ip_open K directory w =
     (case open_with_codec K directory ip_codec w of
        (Inl e, w1) \<Rightarrow> (Inl e, w1)
      | (Inr engine, w1) \<Rightarrow> (Inr (Some engine), w1))"

definition ip_close :: "'w kernel \<Rightarrow> ip_store \<Rightarrow> 'w \<Rightarrow> store_error option \<times> ip_store \<times> 'w" where
  "ip_close K s w =
     (case s of
        None \<Rightarrow> (None, None, w)
      | Some engine \<Rightarrow> (case store_close K engine w of (e, _, w1) \<Rightarrow> (e, None, w1)))"

definition ip_load :: "'w kernel \<Rightarrow> ip_store \<Rightarrow> 'w \<Rightarrow> (store_error + ip_journal) \<times> 'w" where
  "ip_load K s w =
     (case s of None \<Rightarrow> (Inl ErrClosed, w) | Some engine \<Rightarrow> store_load K engine w)"

definition ip_commit ::
  "'w kernel \<Rightarrow> ip_journal store \<Rightarrow> u64 \<Rightarrow> ip_journal \<Rightarrow> 'w \<Rightarrow> ip_error option \<times> ip_store \<times> 'w" where
  "ip_commit K engine expected next w =
     (case store_commit K engine expected next w of
        (e, engine', w1) \<Rightarrow> (map_option IP_Store e, Some engine', w1))"

definition ip_review ::
  "'w kernel \<Rightarrow> ip_journal store \<Rightarrow> ip_journal \<Rightarrow> 'w \<Rightarrow> ip_error option \<times> ip_store \<times> 'w" where
  "ip_review K engine j w =
     (case store_commit K engine (ip_revision j)
         (j\<lparr>ip_revision := ip_revision j + 1, ip_phase := ip_review_required\<rparr>) w of
        (e, engine', w1) \<Rightarrow> (Some (IP_Joined_Review e), Some engine', w1))"

definition ip_first :: "registry \<Rightarrow> account \<Rightarrow> ip_journal" where
  "ip_first r a = \<lparr>ip_format = ip_format_name, ip_schema_version = 1, ip_revision = 1,
     ip_registry_revision = reg_revision r, ip_account = a, ip_phase = ip_reserved\<rparr>"

definition ip_begin ::
  "'w kernel \<Rightarrow> ip_store \<Rightarrow> registry \<Rightarrow> string \<Rightarrow> snapshot \<Rightarrow> 'w \<Rightarrow> ip_error option \<times> ip_store \<times> 'w" where
  "ip_begin K s r ident observed w =
     (case s of
        None \<Rightarrow> (Some (IP_Store ErrClosed), s, w)
      | Some engine \<Rightarrow>
          if \<not> is_ok (registry_validate r) then (Some IP_Invalid, s, w)
          else (case find (\<lambda>a. acc_id a = ident) (accounts_of r) of
            None \<Rightarrow> (Some IP_Invalid, s, w)
          | Some a \<Rightarrow>
              if \<not> is_ok (ip_validate (ip_first r a)) then (Some IP_Invalid, s, w)
              else (case snapshot_assess observed a of
                Inl _ \<Rightarrow> (Some IP_Observation, s, w)
              | Inr status \<Rightarrow>
                  if status \<noteq> id_absent then (Some IP_Review, s, w)
                  else ip_commit K engine 0 (ip_first r a) w)))"

text \<open>The state of the files each phase demands.\<close>

definition group_only :: "assessment \<Rightarrow> bool" where
  "group_only d \<longleftrightarrow> as_status d = id_partial \<and> as_group_present d \<and> \<not> as_user_present d"

text \<open>
  \<open>Step\<close> from the durable intent on: the command, the observation after it and the
  confirmation.
\<close>

definition ip_run_command ::
  "'w ip_backend \<Rightarrow> 'w reading_ctx \<Rightarrow> ip_journal \<Rightarrow> 'w \<Rightarrow> bool \<times> 'w" where
  "ip_run_command B ctx intent w =
     (if ip_phase intent = ip_group_intent then ipb_create_group B ctx (ip_account intent) w
      else ipb_create_user B ctx (ip_account intent) w)"

definition ip_confirmed :: "ip_journal \<Rightarrow> ip_journal" where
  "ip_confirmed intent = intent\<lparr>ip_revision := ip_revision intent + 1,
     ip_phase := (if ip_phase intent = ip_user_intent then ip_unix_confirmed else ip_group_confirmed)\<rparr>"

definition ip_after_intent ::
  "'w kernel \<Rightarrow> 'w ip_backend \<Rightarrow> 'w reading_ctx \<Rightarrow> ip_journal store \<Rightarrow> ip_journal \<Rightarrow> 'w \<Rightarrow>
   ip_error option \<times> ip_store \<times> 'w" where
  "ip_after_intent K B ctx engine intent w =
     (case ctx w of
        (Some _, w1) \<Rightarrow> ip_review K engine intent w1
      | (None, w1) \<Rightarrow> (case ip_run_command B ctx intent w1 of
          (False, w2) \<Rightarrow> ip_review K engine intent w2
        | (True, w2) \<Rightarrow> (case ipb_observe B ctx w2 of
            (None, w3) \<Rightarrow> ip_review K engine intent w3
          | (Some observed, w3) \<Rightarrow> (case snapshot_inspect observed (ip_account intent) of
              Inl _ \<Rightarrow> ip_review K engine intent w3
            | Inr detail \<Rightarrow> (case ctx w3 of
                (Some _, w4) \<Rightarrow> ip_review K engine intent w4
              | (None, w4) \<Rightarrow>
                  if ip_phase intent = ip_group_intent \<and> \<not> group_only detail \<or>
                     ip_phase intent = ip_user_intent \<and> as_status detail \<noteq> id_observed
                  then ip_review K engine intent w4
                  else ip_commit K engine (ip_revision intent) (ip_confirmed intent) w4)))))"

definition ip_intent :: "ip_journal \<Rightarrow> ip_journal" where
  "ip_intent j = j\<lparr>ip_revision := ip_revision j + 1,
     ip_phase := (if ip_phase j = ip_group_confirmed then ip_user_intent else ip_group_intent)\<rparr>"

text \<open>\<open>Step\<close> on a loaded journal whose phase allows an observation.\<close>

definition ip_observe_step ::
  "'w kernel \<Rightarrow> 'w ip_backend \<Rightarrow> 'w reading_ctx \<Rightarrow> ip_journal store \<Rightarrow> ip_journal \<Rightarrow> 'w \<Rightarrow>
   ip_error option \<times> ip_store \<times> 'w" where
  "ip_observe_step K B ctx engine j w =
     (case ctx w of
        (Some e, w1) \<Rightarrow> (Some (IP_Ctx e), Some engine, w1)
      | (None, w1) \<Rightarrow> (case ipb_observe B ctx w1 of
          (None, w2) \<Rightarrow> (Some IP_Observation, Some engine, w2)
        | (Some observed, w2) \<Rightarrow> (case snapshot_inspect observed (ip_account j) of
            Inl _ \<Rightarrow> (Some IP_Observation, Some engine, w2)
          | Inr detail \<Rightarrow>
              if ip_phase j = ip_unix_confirmed then
                (if as_status detail \<noteq> id_observed then ip_review K engine j w2
                 else (None, Some engine, w2))
              else if ip_phase j = ip_reserved \<and> as_status detail \<noteq> id_absent \<or>
                 ip_phase j = ip_group_confirmed \<and> \<not> group_only detail
              then ip_review K engine j w2
              else (case store_commit K engine (ip_revision j) (ip_intent j) w2 of
                (Some e, engine', w3) \<Rightarrow> (Some (IP_Store e), Some engine', w3)
              | (None, engine', w3) \<Rightarrow> ip_after_intent K B ctx engine' (ip_intent j) w3))))"

definition ip_step ::
  "'w kernel \<Rightarrow> ip_store \<Rightarrow> 'w reading_ctx option \<Rightarrow> u64 \<Rightarrow> registry \<Rightarrow> 'w ip_backend option \<Rightarrow> 'w \<Rightarrow>
   ip_error option \<times> ip_store \<times> 'w" where
  "ip_step K s ctx expected r backend w =
     (case s of
        None \<Rightarrow> (Some (IP_Store ErrClosed), s, w)
      | Some engine \<Rightarrow> (case (ctx, backend) of
          (Some c, Some B) \<Rightarrow> (case store_load K engine w of
            (Inl e, w1) \<Rightarrow> (Some (IP_Store e), s, w1)
          | (Inr j, w1) \<Rightarrow>
              if expected \<noteq> ip_revision j \<or> \<not> ip_matches j r then (Some IP_Conflict, s, w1)
              else if ip_phase j = ip_review_required then (Some IP_Review, s, w1)
              else if ip_phase j = ip_group_intent \<or> ip_phase j = ip_user_intent then ip_review K engine j w1
              else ip_observe_step K B c engine j w1)
        | _ \<Rightarrow> (Some IP_Invalid, s, w)))"

subsection \<open>Valid journals and their document form\<close>

lemma account_alone_iff: "account_alone_ok a \<longleftrightarrow> native_account a"
  using native_account_iff [of a] by (simp add: account_alone_ok_def case_prod_beta)

definition ip_position :: "string \<Rightarrow> u64 \<Rightarrow> bool" where
  "ip_position p n \<longleftrightarrow>
     (p, n) \<in> {(ip_reserved, 1), (ip_group_intent, 2), (ip_group_confirmed, 3), (ip_user_intent, 4), (ip_unix_confirmed, 5)} \<or>
     p = ip_review_required \<and> 2 \<le> n \<and> n \<le> 6"

definition ip_wf :: "ip_journal \<Rightarrow> bool" where
  "ip_wf j \<longleftrightarrow> native_account (ip_account j) \<and> acc_state (ip_account j) = st_disabled \<and>
     ip_format j = ip_format_name \<and> ip_schema_version j = 1 \<and> ip_registry_revision j \<noteq> 0 \<and>
     ip_position (ip_phase j) (ip_revision j)"

lemma ip_validate_iff: "is_ok (ip_validate j) \<longleftrightarrow> ip_wf j"
  by (auto simp: ip_validate_def ip_wf_def account_alone_iff ip_position_def)

lemma ip_phase_neq [simp]:
  "ip_reserved \<noteq> ip_group_intent" "ip_reserved \<noteq> ip_group_confirmed" "ip_reserved \<noteq> ip_user_intent"
  "ip_reserved \<noteq> ip_unix_confirmed" "ip_reserved \<noteq> ip_review_required" "ip_group_intent \<noteq> ip_reserved"
  "ip_group_intent \<noteq> ip_group_confirmed" "ip_group_intent \<noteq> ip_user_intent" "ip_group_intent \<noteq> ip_unix_confirmed"
  "ip_group_intent \<noteq> ip_review_required" "ip_group_confirmed \<noteq> ip_reserved" "ip_group_confirmed \<noteq> ip_group_intent"
  "ip_group_confirmed \<noteq> ip_user_intent" "ip_group_confirmed \<noteq> ip_unix_confirmed" "ip_group_confirmed \<noteq> ip_review_required"
  "ip_user_intent \<noteq> ip_reserved" "ip_user_intent \<noteq> ip_group_intent" "ip_user_intent \<noteq> ip_group_confirmed"
  "ip_user_intent \<noteq> ip_unix_confirmed" "ip_user_intent \<noteq> ip_review_required" "ip_unix_confirmed \<noteq> ip_reserved"
  "ip_unix_confirmed \<noteq> ip_group_intent" "ip_unix_confirmed \<noteq> ip_group_confirmed" "ip_unix_confirmed \<noteq> ip_user_intent"
  "ip_unix_confirmed \<noteq> ip_review_required" "ip_review_required \<noteq> ip_reserved" "ip_review_required \<noteq> ip_group_intent"
  "ip_review_required \<noteq> ip_group_confirmed" "ip_review_required \<noteq> ip_user_intent" "ip_review_required \<noteq> ip_unix_confirmed"
  by (simp_all add: ip_phase_defs)

lemma ip_position_valid: "ip_position p n \<Longrightarrow> valid_string p \<and> n \<noteq> 0"
  by (auto simp: ip_position_def ip_phase_defs intro!: valid_string_ascii) (simp_all add: ascii_string_def)

lemma put_native_account_ok: "native_account a \<Longrightarrow> json_ok (put_account a)"
  by (rule put_account_ok [of "acc_uid a" "acc_uid a"]) (simp add: native_account_def account_wf_def)

lemma put_ip_ok: "ip_wf j \<Longrightarrow> json_ok (put_ip_journal j)"
  using put_native_account_ok [of "ip_account j"] ip_position_valid [of "ip_phase j" "ip_revision j"]
  by (simp add: put_ip_journal_def ip_wf_def valid_string_ascii ascii_string_def ip_format_name_def)

lemma put_ip_scan: "scan_value 0 4 (Some ip_keys) (put_ip_journal j)"
  by (simp add: put_ip_journal_def put_account_def scan_keys_iff ip_keys_def put_uint_def put_int_def)

lemma json_ip_put: "ip_wf j \<Longrightarrow> json_ip_journal (put_ip_journal j) = Some j"
  by (simp add: json_ip_journal_def put_ip_journal_def json_member_def ip_wf_def json_int_put)

lemma ip_decode_iff:
  "ip_decode (Some r) = Inr j \<longleftrightarrow>
     config_decode json_ip_journal r ip_max_bytes 4 (Some ip_keys) = Some j \<and> ip_wf j"
  by (auto simp: ip_decode_def ip_validate_iff split: option.splits)

lemma ip_decode_print:
  "ip_wf j \<Longrightarrow> ip_decode (Some (reader_of (json_print (put_ip_journal j)))) = Inr j' \<Longrightarrow> j' = j"
  using config_decode_print_cases [OF put_ip_ok put_ip_scan, of j json_ip_journal ip_max_bytes]
  by (auto simp: ip_decode_iff json_ip_put)

lemma ip_codec_simps [simp]:
  "codec_decode ip_codec input = Some j \<longleftrightarrow> ip_decode (Some input) = Inr j"
  "codec_validate ip_codec j \<longleftrightarrow> ip_wf j"
  "codec_revision ip_codec = ip_revision"
  "codec_transition ip_codec = None"
  "codec_marshal ip_codec j = Some (json_print (put_ip_journal j))"
  by (auto simp: ip_codec_def ip_validate_iff split: sum.splits)

interpretation ip_doc: doc_codec ip_codec
proof
  show "codec_valid ip_codec" by code_simp
  show "codec_decode ip_codec (bs, True) = None" for bs
    by (simp add: ip_codec_def ip_decode_def config_decode_fails)
  show "codec_validate ip_codec d \<and> codec_revision ip_codec d \<noteq> 0"
    if "codec_decode ip_codec r = Some d" for r d
    using that ip_position_valid by (auto simp: ip_decode_iff ip_wf_def)
  show "d' = d" if "codec_validate ip_codec d" "codec_marshal ip_codec d = Some bs"
    "codec_decode ip_codec (reader_of bs) = Some d'" for d bs d'
    using that ip_decode_print by simp
qed

interpretation ip_disk: store_env host_kernel host_files host_fds host_synced host_crash ip_codec
  by unfold_locales

subsection \<open>The phase graph\<close>

definition ip_arcs :: "(string \<times> string) set" where
  "ip_arcs = {(ip_reserved, ip_group_intent), (ip_group_intent, ip_group_confirmed),
     (ip_group_confirmed, ip_user_intent), (ip_user_intent, ip_unix_confirmed),
     (ip_reserved, ip_review_required), (ip_group_intent, ip_review_required),
     (ip_group_confirmed, ip_review_required), (ip_user_intent, ip_review_required),
     (ip_unix_confirmed, ip_review_required)}"

definition ip_edge :: "ip_journal option \<Rightarrow> ip_journal option \<Rightarrow> bool" where
  "ip_edge d d' =
     (case (d, d') of
        (None, Some j) \<Rightarrow> ip_wf j \<and> ip_phase j = ip_reserved
      | (Some j, Some j') \<Rightarrow> \<exists>p. (ip_phase j, p) \<in> ip_arcs \<and>
          j' = j\<lparr>ip_revision := ip_revision j + 1, ip_phase := p\<rparr>
      | _ \<Rightarrow> False)"

lemma ip_edge_review:
  assumes "ip_phase j \<in> {ip_reserved, ip_group_intent, ip_group_confirmed, ip_user_intent, ip_unix_confirmed}"
  shows "ip_edge (Some j) (Some (j\<lparr>ip_revision := ip_revision j + 1, ip_phase := ip_review_required\<rparr>))"
proof -
  have "(ip_phase j, ip_review_required) \<in> ip_arcs" using assms by (auto simp: ip_arcs_def)
  then show ?thesis by (auto simp: ip_edge_def)
qed

lemma ip_edge_intent:
  assumes "ip_phase j = ip_reserved \<or> ip_phase j = ip_group_confirmed"
  shows "ip_edge (Some j) (Some (ip_intent j))"
proof -
  have "(ip_phase j, if ip_phase j = ip_group_confirmed then ip_user_intent else ip_group_intent) \<in> ip_arcs"
    using assms by (auto simp: ip_arcs_def)
  then show ?thesis unfolding ip_edge_def ip_intent_def by auto
qed

lemma ip_edge_confirmed:
  assumes "ip_phase j = ip_group_intent \<or> ip_phase j = ip_user_intent"
  shows "ip_edge (Some j) (Some (ip_confirmed j))"
proof -
  have "(ip_phase j, if ip_phase j = ip_user_intent then ip_unix_confirmed else ip_group_confirmed) \<in> ip_arcs"
    using assms by (auto simp: ip_arcs_def)
  then show ?thesis unfolding ip_edge_def ip_confirmed_def by auto
qed

text \<open>Every arc keeps the table of phases and revisions.\<close>

lemma ip_arc_position: "(p, q) \<in> ip_arcs \<Longrightarrow> ip_position p n \<Longrightarrow> ip_position q (n + 1)"
  unfolding ip_arcs_def insert_iff empty_iff prod.inject
  by (elim disjE conjE) (simp_all add: ip_position_def ip_phase_defs)

lemma ip_edge_wf: "ip_edge (Some j) (Some j') \<Longrightarrow> ip_wf j \<Longrightarrow> ip_wf j'"
  using ip_arc_position by (auto simp: ip_edge_def ip_wf_def)

subsection \<open>What a call may do to the journal\<close>

definition ip_codec_ok :: "ip_store \<Rightarrow> bool" where
  "ip_codec_ok s \<longleftrightarrow> (\<forall>engine. s = Some engine \<longrightarrow> store_codec engine = ip_codec)"

text \<open>A context and a backend that do not touch the directory of the journal.\<close>

definition ip_quiet ::
  "('w \<Rightarrow> string \<Rightarrow> string option) \<Rightarrow> ('w \<Rightarrow> string \<Rightarrow> bool) \<Rightarrow> ('w \<Rightarrow> string \<Rightarrow> string option set) \<Rightarrow>
   'w ip_backend \<Rightarrow> 'w reading_ctx \<Rightarrow> bool" where
  "ip_quiet dv syn cr B ctx \<longleftrightarrow> (\<forall>w.
     keeps dv syn cr {} w (snd (ctx w)) \<and>
     keeps dv syn cr {} w (snd (ipb_observe B ctx w)) \<and>
     (\<forall>a. keeps dv syn cr {} w (snd (ipb_create_group B ctx a w)) \<and>
          keeps dv syn cr {} w (snd (ipb_create_user B ctx a w))))"

text \<open>The worlds in which the journal durably records an intent for an account.\<close>

definition ip_durable_intent ::
  "('w \<Rightarrow> string \<Rightarrow> string option) \<Rightarrow> ('w \<Rightarrow> string \<Rightarrow> string option set) \<Rightarrow> string \<Rightarrow> account \<Rightarrow> 'w \<Rightarrow> bool" where
  "ip_durable_intent dv cr p a w \<longleftrightarrow>
     (\<exists>j. doc_at dv ip_codec w = Some j \<and> settled dv cr ip_codec w \<and> ip_phase j = p \<and> ip_account j = a)"

locale ip_env = store_env K dv fv syn cr ip_codec
  for K :: "'w kernel" and dv fv syn cr +
  fixes B :: "'w ip_backend" and ctx :: "'w reading_ctx"
  assumes quiet: "ip_quiet dv syn cr B ctx"
begin

lemma ctx_quiet: "ctx w = (e, w') \<Longrightarrow> keeps dv syn cr {} w w'"
  using quiet by (metis ip_quiet_def snd_conv)

lemma observe_quiet: "ipb_observe B ctx w = (x, w') \<Longrightarrow> keeps dv syn cr {} w w'"
  using quiet by (metis ip_quiet_def snd_conv)

lemma command_quiet: "ip_run_command B ctx j w = (x, w') \<Longrightarrow> keeps dv syn cr {} w w'"
  using quiet by (metis ip_quiet_def ip_run_command_def snd_conv)

definition fits :: "'w \<Rightarrow> ip_error option \<times> ip_store \<times> 'w \<Rightarrow> bool" where
  "fits w out \<longleftrightarrow> evolves dv cr ip_codec ip_edge w (snd (snd out)) \<and> ip_codec_ok (fst (snd out))"

lemma fits_after: "keeps dv syn cr {} w w1 \<Longrightarrow> fits w1 out \<Longrightarrow> fits w out"
  using keeps_evolves evolves_trans by (metis fits_def)

lemma fits_commit:
  assumes "store_codec engine = ip_codec" "ip_edge (doc_at dv ip_codec w) (Some x)"
  shows "fits w (ip_commit K engine e x w)"
proof -
  obtain r engine' w' where c: "store_commit K engine e x w = (r, engine', w')" by (metis prod.collapse)
  from commit_edge [where R = ip_edge, OF c assms] show ?thesis
    by (simp add: fits_def ip_commit_def c ip_codec_ok_def)
qed

lemma fits_review:
  assumes "store_codec engine = ip_codec" "doc_at dv ip_codec w = Some j"
    "ip_phase j \<in> {ip_reserved, ip_group_intent, ip_group_confirmed, ip_user_intent, ip_unix_confirmed}"
  shows "fits w (ip_review K engine j w)"
proof -
  obtain r engine' w' where c: "store_commit K engine (ip_revision j)
      (j\<lparr>ip_revision := ip_revision j + 1, ip_phase := ip_review_required\<rparr>) w = (r, engine', w')" by (metis prod.collapse)
  have "ip_edge (doc_at dv ip_codec w) (Some (j\<lparr>ip_revision := ip_revision j + 1, ip_phase := ip_review_required\<rparr>))"
    using ip_edge_review [OF assms(3)] assms(2) by simp
  from commit_edge [where R = ip_edge, OF c assms(1) this] show ?thesis
    by (simp add: fits_def ip_review_def c ip_codec_ok_def)
qed

lemma fits_after_intent:
  assumes "store_codec engine = ip_codec" "doc_at dv ip_codec w = Some j"
    "ip_phase j = ip_group_intent \<or> ip_phase j = ip_user_intent"
  shows "fits w (ip_after_intent K B ctx engine j w)"
proof -
  have rev: "fits w' (ip_review K engine j w')" if "keeps dv syn cr {} w w'" for w'
    by (rule fits_review) (use assms keeps_doc [OF that] in auto)
  obtain e1 w1 where 1: "ctx w = (e1, w1)" by fastforce
  note k1 = ctx_quiet [OF 1]
  show ?thesis
  proof (cases e1)
    case (Some e)
    then show ?thesis using fits_after [OF k1 rev [OF k1]] by (simp add: ip_after_intent_def 1)
  next
    case None
    obtain ok w2 where 2: "ip_run_command B ctx j w1 = (ok, w2)" by fastforce
    have k2: "keeps dv syn cr {} w w2" using k1 command_quiet [OF 2] by (rule keep_trans)
    obtain ob w3 where 3: "ipb_observe B ctx w2 = (ob, w3)" by fastforce
    have k3: "keeps dv syn cr {} w w3" using k2 observe_quiet [OF 3] by (rule keep_trans)
    obtain e4 w4 where 4: "ctx w3 = (e4, w4)" by fastforce
    have k4: "keeps dv syn cr {} w w4" using k3 ctx_quiet [OF 4] by (rule keep_trans)
    have conf: "fits w4 (ip_commit K engine (ip_revision j) (ip_confirmed j) w4)"
      by (rule fits_commit [OF assms(1)]) (use ip_edge_confirmed [OF assms(3)] keeps_doc [OF k4] assms(2) in simp)
    show ?thesis
      using fits_after [OF k2 rev [OF k2]] fits_after [OF k3 rev [OF k3]] fits_after [OF k4 rev [OF k4]]
        fits_after [OF k4 conf]
      by (auto simp: ip_after_intent_def 1 2 3 4 None split: bool.splits option.splits sum.splits)
  qed
qed

lemma fits_observe_step:
  assumes "store_codec engine = ip_codec" "doc_at dv ip_codec w = Some j"
    "ip_phase j \<in> {ip_reserved, ip_group_confirmed, ip_unix_confirmed}"
  shows "fits w (ip_observe_step K B ctx engine j w)"
proof -
  have engine: "ip_codec_ok (Some engine)" using assms(1) by (simp add: ip_codec_ok_def)
  obtain e1 w1 where 1: "ctx w = (e1, w1)" by fastforce
  note k1 = ctx_quiet [OF 1]
  obtain ob w2 where 2: "ipb_observe B ctx w1 = (ob, w2)" by fastforce
  have k2: "keeps dv syn cr {} w w2" using k1 observe_quiet [OF 2] by (rule keep_trans)
  have d2: "doc_at dv ip_codec w2 = Some j" using keeps_doc [OF k2] assms(2) by simp
  have rev: "fits w (ip_review K engine j w2)"
    by (rule fits_after [OF k2], rule fits_review [OF assms(1) d2]) (use assms(3) in auto)
  have same: "fits w (x, Some engine, w')" if "keeps dv syn cr {} w w'" for x w'
    using keeps_evolves [OF that] engine by (simp add: fits_def)
  have go: "fits w (case store_commit K engine (ip_revision j) (ip_intent j) w2 of
      (Some e, engine', w3) \<Rightarrow> (Some (IP_Store e), Some engine', w3)
    | (None, engine', w3) \<Rightarrow> ip_after_intent K B ctx engine' (ip_intent j) w3)"
    if p: "ip_phase j \<noteq> ip_unix_confirmed"
  proof -
    obtain r engine' w3 where c: "store_commit K engine (ip_revision j) (ip_intent j) w2 = (r, engine', w3)"
      by (metis prod.collapse)
    have "ip_edge (doc_at dv ip_codec w2) (Some (ip_intent j))"
      using d2 ip_edge_intent [of j] assms(3) p by auto
    note e = commit_edge [where R = ip_edge, OF c assms(1) this]
    have ev: "evolves dv cr ip_codec ip_edge w w3"
      using keeps_evolves [OF k2] e by (blast intro: evolves_trans)
    show ?thesis
    proof (cases r)
      case None
      have "fits w3 (ip_after_intent K B ctx engine' (ip_intent j) w3)"
        by (rule fits_after_intent) (use None e in \<open>auto simp: ip_intent_def\<close>)
      then show ?thesis using ev None c by (auto simp: fits_def intro: evolves_trans)
    next
      case (Some x)
      then show ?thesis using ev e c by (simp add: fits_def ip_codec_ok_def)
    qed
  qed
  show ?thesis
    using rev same [OF k1] same [OF k2] go
    by (auto simp: ip_observe_step_def 1 2 split: option.splits sum.splits)
qed

lemma fits_step:
  assumes "ip_codec_ok s"
  shows "fits w (ip_step K s (Some ctx) e r (Some B) w)"
proof (cases s)
  case None
  then show ?thesis by (simp add: ip_step_def fits_def ip_codec_ok_def)
next
  case (Some engine)
  have codec: "store_codec engine = ip_codec" using assms Some by (simp add: ip_codec_ok_def)
  obtain l w1 where 1: "store_load K engine w = (l, w1)" by fastforce
  note k = load_keeps [OF 1 codec]
  have same: "fits w (x, s, w1)" for x using keeps_evolves k assms by (simp add: fits_def)
  show ?thesis
  proof (cases l)
    case (Inl x)
    then show ?thesis using same by (simp add: ip_step_def Some 1)
  next
    case (Inr j)
    then have d: "doc_at dv ip_codec w1 = Some j" using k by simp
    then have "ip_wf j" using doc_valid by simp
    then have p: "ip_phase j \<in> {ip_reserved, ip_group_intent, ip_group_confirmed, ip_user_intent, ip_unix_confirmed, ip_review_required}"
      by (auto simp: ip_wf_def ip_position_def)
    have "fits w (ip_review K engine j w1)" if "ip_phase j = ip_group_intent \<or> ip_phase j = ip_user_intent"
      using fits_after [OF _ fits_review [OF codec d]] k that by blast
    moreover have "fits w (ip_observe_step K B ctx engine j w1)"
      if "ip_phase j \<noteq> ip_group_intent" "ip_phase j \<noteq> ip_user_intent" "ip_phase j \<noteq> ip_review_required"
      using fits_after [OF _ fits_observe_step [OF codec d]] k p that by blast
    ultimately show ?thesis using same by (simp add: ip_step_def Some 1 Inr)
  qed
qed

lemma fits_begin:
  assumes "ip_codec_ok s"
  shows "fits w (ip_begin K s r ident observed w)"
proof (cases s)
  case None
  then show ?thesis by (simp add: ip_begin_def fits_def ip_codec_ok_def)
next
  case (Some engine)
  have same: "fits w (x, s, w)" for x using assms by (simp add: fits_def)
  have "fits w (ip_commit K engine 0 (ip_first r a) w)" if "is_ok (ip_validate (ip_first r a))" for a
  proof -
    have codec: "store_codec engine = ip_codec" using assms Some by (simp add: ip_codec_ok_def)
    have edge: "ip_edge None (Some (ip_first r a))"
      using that by (simp add: ip_edge_def ip_validate_iff) (simp add: ip_first_def)
    obtain x engine' w' where c: "store_commit K engine 0 (ip_first r a) w = (x, engine', w')" by (metis prod.collapse)
    from commit_first [where R = ip_edge, OF c codec edge] show ?thesis
      by (simp add: fits_def ip_commit_def c ip_codec_ok_def)
  qed
  then show ?thesis using same
    by (auto simp: ip_begin_def Some split: option.splits sum.splits)
qed

lemma settled_keeps: "settled dv cr C' w \<Longrightarrow> keeps dv syn cr {} w w' \<Longrightarrow> settled dv cr C' w'"
  by (auto simp: settled_def keeps_def)

lemma after_intent_agrees:
  assumes "doc_at dv ip_codec w = Some j" "settled dv cr ip_codec w"
    and "ip_phase j = ip_group_intent \<or> ip_phase j = ip_user_intent"
    and "ipb_observe B' = ipb_observe B"
    and "\<And>a w. ip_durable_intent dv cr ip_group_intent a w \<Longrightarrow> ipb_create_group B' ctx a w = ipb_create_group B ctx a w"
    and "\<And>a w. ip_durable_intent dv cr ip_user_intent a w \<Longrightarrow> ipb_create_user B' ctx a w = ipb_create_user B ctx a w"
  shows "ip_after_intent K B' ctx engine j w = ip_after_intent K B ctx engine j w"
proof -
  obtain e1 w1 where 1: "ctx w = (e1, w1)" by fastforce
  have "ip_durable_intent dv cr (ip_phase j) (ip_account j) w1"
    using keeps_doc [OF ctx_quiet [OF 1]] settled_keeps [OF assms(2) ctx_quiet [OF 1]] assms(1)
    by (auto simp: ip_durable_intent_def)
  then have cmd: "ip_run_command B' ctx j w1 = ip_run_command B ctx j w1"
    using assms(3,5,6) by (auto simp: ip_run_command_def)
  show ?thesis unfolding ip_after_intent_def 1 assms(4) prod.case cmd ..
qed

lemma observe_step_agrees:
  assumes "store_codec engine = ip_codec" "doc_at dv ip_codec w = Some j"
    and "ip_phase j \<in> {ip_reserved, ip_group_confirmed, ip_unix_confirmed}"
    and obs: "ipb_observe B' = ipb_observe B"
    and g: "\<And>a w. ip_durable_intent dv cr ip_group_intent a w \<Longrightarrow> ipb_create_group B' ctx a w = ipb_create_group B ctx a w"
    and u: "\<And>a w. ip_durable_intent dv cr ip_user_intent a w \<Longrightarrow> ipb_create_user B' ctx a w = ipb_create_user B ctx a w"
  shows "ip_observe_step K B' ctx engine j w = ip_observe_step K B ctx engine j w"
proof -
  obtain e1 w1 where 1: "ctx w = (e1, w1)" by fastforce
  obtain ob w2 where 2: "ipb_observe B ctx w1 = (ob, w2)" by fastforce
  have k2: "keeps dv syn cr {} w w2" using ctx_quiet [OF 1] observe_quiet [OF 2] by (rule keep_trans)
  have d2: "doc_at dv ip_codec w2 = Some j" using keeps_doc [OF k2] assms(2) by simp
  obtain r engine' w3 where c: "store_commit K engine (ip_revision j) (ip_intent j) w2 = (r, engine', w3)"
    by (metis prod.collapse)
  have "ip_after_intent K B' ctx engine' (ip_intent j) w3 = ip_after_intent K B ctx engine' (ip_intent j) w3"
    if "r = None" "ip_phase j \<noteq> ip_unix_confirmed"
  proof (rule after_intent_agrees [OF _ _ _ obs g u])
    have "ip_edge (doc_at dv ip_codec w2) (Some (ip_intent j))"
      using d2 ip_edge_intent [of j] assms(3) that(2) by auto
    from commit_edge [where R = ip_edge, OF c assms(1) this] that(1)
    show "doc_at dv ip_codec w3 = Some (ip_intent j)" "settled dv cr ip_codec w3" by simp_all
    show "ip_phase (ip_intent j) = ip_group_intent \<or> ip_phase (ip_intent j) = ip_user_intent"
      by (simp add: ip_intent_def)
  qed
  then show ?thesis
    by (cases r) (auto simp: ip_observe_step_def 1 2 obs c split: option.splits sum.splits)
qed

lemma step_agrees:
  assumes s: "ip_codec_ok s" and obs: "ipb_observe B' = ipb_observe B"
    and g: "\<And>a w. ip_durable_intent dv cr ip_group_intent a w \<Longrightarrow> ipb_create_group B' ctx a w = ipb_create_group B ctx a w"
    and u: "\<And>a w. ip_durable_intent dv cr ip_user_intent a w \<Longrightarrow> ipb_create_user B' ctx a w = ipb_create_user B ctx a w"
  shows "ip_step K s (Some ctx) e r (Some B') w = ip_step K s (Some ctx) e r (Some B) w"
proof (cases s)
  case None
  then show ?thesis by (simp add: ip_step_def)
next
  case (Some engine)
  have codec: "store_codec engine = ip_codec" using s Some by (simp add: ip_codec_ok_def)
  obtain l w1 where 1: "store_load K engine w = (l, w1)" by fastforce
  show ?thesis
  proof (cases l)
    case (Inl x)
    then show ?thesis by (simp add: ip_step_def Some 1)
  next
    case (Inr j)
    then have d: "doc_at dv ip_codec w1 = Some j" using load_keeps [OF 1 codec] by simp
    then have "ip_wf j" using doc_valid by simp
    then have p: "ip_phase j \<in> {ip_reserved, ip_group_intent, ip_group_confirmed, ip_user_intent, ip_unix_confirmed, ip_review_required}"
      by (auto simp: ip_wf_def ip_position_def)
    have "ip_observe_step K B' ctx engine j w1 = ip_observe_step K B ctx engine j w1"
      if "ip_phase j \<noteq> ip_group_intent" "ip_phase j \<noteq> ip_user_intent" "ip_phase j \<noteq> ip_review_required"
      by (rule observe_step_agrees [OF codec d _ obs g u]) (use p that in auto)
    then show ?thesis by (simp add: ip_step_def Some 1 Inr)
  qed
qed

end

subsection \<open>Success\<close>

definition phase_holds :: "string \<Rightarrow> assessment \<Rightarrow> bool" where
  "phase_holds p detail \<longleftrightarrow>
     p = ip_group_confirmed \<and> group_only detail \<or> p = ip_unix_confirmed \<and> as_status detail = id_observed"

context ip_env
begin

lemma review_fails: "ip_review K engine j w \<noteq> (None, s', w')"
  by (simp add: ip_review_def split: prod.splits)

lemma after_intent_success:
  assumes ok: "ip_after_intent K B ctx engine j w = (None, s', w')" and codec: "store_codec engine = ip_codec"
    and d: "doc_at dv ip_codec w = Some j" and p: "ip_phase j = ip_group_intent \<or> ip_phase j = ip_user_intent"
  shows "doc_at dv ip_codec w' = Some (ip_confirmed j) \<and> settled dv cr ip_codec w' \<and>
    (\<exists>observed detail w1 w2. ipb_observe B ctx w1 = (Some observed, w2) \<and>
       snapshot_inspect observed (ip_account j) = Inr detail \<and> phase_holds (ip_phase (ip_confirmed j)) detail)"
proof -
  obtain w1 where 1: "ctx w = (None, w1)"
    using ok review_fails by (cases "ctx w"; cases "fst (ctx w)") (auto simp: ip_after_intent_def)
  obtain w2 where 2: "ip_run_command B ctx j w1 = (True, w2)"
    using ok review_fails by (cases "ip_run_command B ctx j w1") (auto simp: ip_after_intent_def 1 split: bool.splits)
  obtain observed w3 where 3: "ipb_observe B ctx w2 = (Some observed, w3)"
    using ok review_fails by (cases "ipb_observe B ctx w2") (auto simp: ip_after_intent_def 1 2 split: option.splits)
  obtain detail where 4: "snapshot_inspect observed (ip_account j) = Inr detail"
    using ok review_fails by (cases "snapshot_inspect observed (ip_account j)") (auto simp: ip_after_intent_def 1 2 3)
  obtain w5 where 5: "ctx w3 = (None, w5)"
    using ok review_fails by (cases "ctx w3"; cases "fst (ctx w3)") (auto simp: ip_after_intent_def 1 2 3 4)
  have g: "\<not> (ip_phase j = ip_group_intent \<and> \<not> group_only detail \<or>
      ip_phase j = ip_user_intent \<and> as_status detail \<noteq> id_observed)"
    and c: "ip_commit K engine (ip_revision j) (ip_confirmed j) w5 = (None, s', w')"
    using ok review_fails by (auto simp: ip_after_intent_def 1 2 3 4 5 split: if_splits)
  have k: "keeps dv syn cr {} w w5"
    using ctx_quiet [OF 1] command_quiet [OF 2] observe_quiet [OF 3] ctx_quiet [OF 5] by (iprover intro: keep_trans)
  obtain x engine' where c': "store_commit K engine (ip_revision j) (ip_confirmed j) w5 = (x, engine', w')" "x = None"
    using c by (auto simp: ip_commit_def split: prod.splits)
  have "ip_edge (doc_at dv ip_codec w5) (Some (ip_confirmed j))"
    using ip_edge_confirmed [OF p] keeps_doc [OF k] d by simp
  from commit_edge [where R = ip_edge, OF c'(1) codec this] c'(2)
  have "doc_at dv ip_codec w' = Some (ip_confirmed j) \<and> settled dv cr ip_codec w'" by simp
  moreover have "phase_holds (ip_phase (ip_confirmed j)) detail"
    using p g by (auto simp: phase_holds_def ip_confirmed_def)
  ultimately show ?thesis using 3 4 by blast
qed

lemma step_success:
  assumes ok: "ip_step K s (Some ctx) e r (Some B) w = (None, s', w')" and s: "ip_codec_ok s"
  shows "\<exists>j. doc_at dv ip_codec w = Some j \<and> e = ip_revision j \<and> ip_matches j r \<and>
    (ip_phase j = ip_unix_confirmed \<and> doc_at dv ip_codec w' = Some j \<or>
     ip_phase j \<in> {ip_reserved, ip_group_confirmed} \<and>
     doc_at dv ip_codec w' = Some (ip_confirmed (ip_intent j)) \<and> settled dv cr ip_codec w' \<and>
     (\<exists>observed detail w1 w2. ipb_observe B ctx w1 = (Some observed, w2) \<and>
        snapshot_inspect observed (ip_account j) = Inr detail \<and>
        phase_holds (ip_phase (ip_confirmed (ip_intent j))) detail))"
proof -
  obtain engine where engine: "s = Some engine" using ok by (cases s) (auto simp: ip_step_def)
  have codec: "store_codec engine = ip_codec" using s engine by (simp add: ip_codec_ok_def)
  obtain j w1 where 1: "store_load K engine w = (Inr j, w1)"
    using ok by (cases "store_load K engine w"; cases "fst (store_load K engine w)") (auto simp: ip_step_def engine)
  note k1 = load_keeps [OF 1 codec]
  then have d: "doc_at dv ip_codec w1 = Some j" "doc_at dv ip_codec w = Some j" using keeps_doc by force+
  have g: "e = ip_revision j" "ip_matches j r" "ip_phase j \<noteq> ip_review_required" "ip_phase j \<noteq> ip_group_intent"
      "ip_phase j \<noteq> ip_user_intent" and o: "ip_observe_step K B ctx engine j w1 = (None, s', w')"
    using ok review_fails by (auto simp: ip_step_def engine 1 split: if_splits)
  have "ip_wf j" using d doc_valid by simp
  then have p: "ip_phase j \<in> {ip_reserved, ip_group_confirmed, ip_unix_confirmed}"
    using g by (auto simp: ip_wf_def ip_position_def)
  obtain w2 where 2: "ctx w1 = (None, w2)"
    using o by (cases "ctx w1"; cases "fst (ctx w1)") (auto simp: ip_observe_step_def)
  obtain observed w3 where 3: "ipb_observe B ctx w2 = (Some observed, w3)"
    using o by (cases "ipb_observe B ctx w2"; cases "fst (ipb_observe B ctx w2)") (auto simp: ip_observe_step_def 2)
  obtain detail where 4: "snapshot_inspect observed (ip_account j) = Inr detail"
    using o by (cases "snapshot_inspect observed (ip_account j)") (auto simp: ip_observe_step_def 2 3)
  have d3: "doc_at dv ip_codec w3 = Some j"
    using keeps_doc [OF ctx_quiet [OF 2]] keeps_doc [OF observe_quiet [OF 3]] d by simp
  show ?thesis
  proof (cases "ip_phase j = ip_unix_confirmed")
    case True
    then have "w' = w3" using o review_fails by (auto simp: ip_observe_step_def 2 3 4 split: if_splits)
    then show ?thesis using True g d d3 by blast
  next
    case False
    obtain x engine' w4 where c: "store_commit K engine (ip_revision j) (ip_intent j) w3 = (x, engine', w4)"
      by (metis prod.collapse)
    have x: "x = None" and a: "ip_after_intent K B ctx engine' (ip_intent j) w4 = (None, s', w')"
      using o False review_fails by (auto simp: ip_observe_step_def 2 3 4 c split: if_splits option.splits)
    have "ip_edge (doc_at dv ip_codec w3) (Some (ip_intent j))"
      using d3 ip_edge_intent [of j] p False by auto
    from commit_edge [where R = ip_edge, OF c codec this] x codec
    have "store_codec engine' = ip_codec" "doc_at dv ip_codec w4 = Some (ip_intent j)" by simp_all
    from after_intent_success [OF a this] show ?thesis
      using g d p False by (auto simp: ip_intent_def)
  qed
qed

end

subsection \<open>Sequences of calls\<close>

datatype 'w ip_call =
    IP_Begin registry string snapshot
  | IP_Step "'w reading_ctx" u64 registry "'w ip_backend"
  | IP_Load
  | IP_Close

definition ip_exec :: "'w kernel \<Rightarrow> 'w ip_call \<Rightarrow> ip_store \<Rightarrow> 'w \<Rightarrow> ip_store \<times> 'w" where
  "ip_exec K c s w =
     (case c of
        IP_Begin r ident observed \<Rightarrow> snd (ip_begin K s r ident observed w)
      | IP_Step ctx e r B \<Rightarrow> snd (ip_step K s (Some ctx) e r (Some B) w)
      | IP_Load \<Rightarrow> (s, snd (ip_load K s w))
      | IP_Close \<Rightarrow> snd (ip_close K s w))"

fun ip_run :: "'w kernel \<Rightarrow> 'w ip_call list \<Rightarrow> ip_store \<Rightarrow> 'w \<Rightarrow> ip_store \<times> 'w" where
  "ip_run K [] s w = (s, w)"
| "ip_run K (c # cs) s w = (case ip_exec K c s w of (s1, w1) \<Rightarrow> ip_run K cs s1 w1)"

definition host_quiet_call :: "('n \<times> disk) ip_call \<Rightarrow> bool" where
  "host_quiet_call c =
     (case c of IP_Step ctx e r B \<Rightarrow> ip_quiet host_files host_synced host_crash B ctx | _ \<Rightarrow> True)"

lemma host_ip_env:
  "ip_quiet host_files host_synced host_crash B ctx \<Longrightarrow>
     ip_env host_kernel host_files host_fds host_synced host_crash B ctx"
  by (intro ip_env.intro ip_env_axioms.intro ip_disk.store_env_axioms)

text \<open>A host with passwd and group entries as its native state, and commands that add to them.\<close>

definition no_deadline :: "'w reading_ctx" where
  "no_deadline w = (None, w)"

definition sim_create_group :: "account \<Rightarrow> snapshot \<times> disk \<Rightarrow> bool \<times> snapshot \<times> disk" where
  "sim_create_group a w =
     (True, (fst w)\<lparr>snap_groups := snap_groups (fst w) @ [\<lparr>ug_name = acc_name a, ug_gid = acc_gid a, ug_members = []\<rparr>]\<rparr>, snd w)"

definition sim_create_user :: "account \<Rightarrow> snapshot \<times> disk \<Rightarrow> bool \<times> snapshot \<times> disk" where
  "sim_create_user a w =
     (True, (fst w)\<lparr>snap_users := snap_users (fst w) @ [\<lparr>uu_name = acc_name a, uu_uid = acc_uid a, uu_gid = acc_gid a\<rparr>]\<rparr>, snd w)"

definition sim_backend :: "(snapshot \<times> disk) ip_backend" where
  "sim_backend = \<lparr>ipb_observe = (\<lambda>ctx w. (Some (fst w), w)),
     ipb_create_group = (\<lambda>ctx. sim_create_group), ipb_create_user = (\<lambda>ctx. sim_create_user)\<rparr>"

lemma sim_quiet: "ip_quiet host_files host_synced host_crash sim_backend no_deadline"
  by (simp add: ip_quiet_def sim_backend_def no_deadline_def sim_create_group_def sim_create_user_def keeps_def)

interpretation ip_sim: ip_env host_kernel host_files host_fds host_synced host_crash sim_backend no_deadline
  by (rule host_ip_env [OF sim_quiet])

lemma ip_exec_evolves:
  assumes "ip_exec host_kernel c s w = (s', w')" "ip_codec_ok s" "host_quiet_call c"
  shows "evolves host_files host_crash ip_codec ip_edge w w' \<and> ip_codec_ok s'"
proof (cases c)
  case (IP_Begin r ident observed)
  have "ip_quiet host_files host_synced host_crash
      \<lparr>ipb_observe = (\<lambda>ctx w. (None, w)), ipb_create_group = (\<lambda>ctx a w. (False, w)), ipb_create_user = (\<lambda>ctx a w. (False, w))\<rparr>
      (\<lambda>w. (None, w))" by (simp add: ip_quiet_def)
  from ip_env.fits_begin [OF host_ip_env [OF this] assms(2), of w r ident observed] show ?thesis
    using assms(1) IP_Begin by (simp add: ip_env.fits_def [OF host_ip_env [OF \<open>ip_quiet _ _ _ _ _\<close>]] ip_exec_def)
next
  case (IP_Step ctx e r B)
  then have q: "ip_quiet host_files host_synced host_crash B ctx" using assms(3) by (simp add: host_quiet_call_def)
  from ip_env.fits_step [OF host_ip_env [OF q] assms(2), of w e r] show ?thesis
    using assms(1) IP_Step by (simp add: ip_env.fits_def [OF host_ip_env [OF q]] ip_exec_def)
next
  case IP_Load
  have "keeps host_files host_synced host_crash {} w w'"
  proof (cases s)
    case (Some engine)
    then show ?thesis using assms IP_Load ip_disk.load_keeps [of engine w]
      by (cases "store_load host_kernel engine w") (simp add: ip_exec_def ip_load_def ip_codec_ok_def)
  qed (use assms IP_Load in \<open>simp add: ip_exec_def ip_load_def\<close>)
  then have "evolves host_files host_crash ip_codec ip_edge w w'" by (rule ip_disk.keeps_evolves)
  moreover have "s' = s" using assms(1) IP_Load by (simp add: ip_exec_def)
  ultimately show ?thesis using assms(2) by blast
next
  case IP_Close
  have "keeps host_files host_synced host_crash {} w w' \<and> s' = None"
  proof (cases s)
    case (Some engine)
    then show ?thesis using assms IP_Close ip_disk.store_close_keeps [of engine w]
      by (cases "store_close host_kernel engine w") (simp add: ip_exec_def ip_close_def)
  qed (use assms IP_Close in \<open>simp add: ip_exec_def ip_close_def\<close>)
  then have "evolves host_files host_crash ip_codec ip_edge w w'" by (intro ip_disk.keeps_evolves) (elim conjE)
  moreover have "ip_codec_ok s'" using \<open>_ \<and> s' = None\<close> by (simp add: ip_codec_ok_def)
  ultimately show ?thesis by blast
qed

lemma ip_run_evolves:
  "ip_run host_kernel cs s w = (s', w') \<Longrightarrow> ip_codec_ok s \<Longrightarrow> list_all host_quiet_call cs \<Longrightarrow>
     evolves host_files host_crash ip_codec ip_edge w w' \<and> ip_codec_ok s'"
proof (induction cs arbitrary: s w)
  case (Cons c cs)
  obtain s1 w1 where 1: "ip_exec host_kernel c s w = (s1, w1)" by (rule prod.exhaust)
  have e: "evolves host_files host_crash ip_codec ip_edge w w1 \<and> ip_codec_ok s1"
    by (rule ip_exec_evolves [OF 1]) (use Cons.prems in simp_all)
  have t: "evolves host_files host_crash ip_codec ip_edge w1 w' \<and> ip_codec_ok s'"
    by (rule Cons.IH [of s1 w1]) (use Cons.prems 1 e in simp_all)
  show ?case using evolves_trans [OF conjunct1 [OF e] conjunct1 [OF t]] conjunct2 [OF t] by (rule conjI)
qed simp

lemma find_key: "inj_on f (set xs) \<Longrightarrow> a \<in> set xs \<Longrightarrow> find (\<lambda>x. f x = f a) xs = Some a"
  by (induction xs) (auto simp: inj_on_def)

lemma ip_edges_same:
  assumes "ip_edge\<^sup>*\<^sup>* d d'" and "d = Some j"
  shows "\<exists>j'. d' = Some j' \<and> ip_account j' = ip_account j \<and> ip_registry_revision j' = ip_registry_revision j"
  using assms(1)
proof (induction rule: rtranclp_induct)
  case (step y z)
  then show ?case by (cases y; cases z) (auto simp: ip_edge_def)
qed (use assms(2) in simp)

subsection \<open>A whole provisioning\<close>

lemma length_put_ip:
  assumes "ip_wf j"
  shows "int (length (json_print (put_ip_journal j))) \<le> ip_max_bytes"
proof -
  have "account_wf (acc_uid (ip_account j)) (acc_uid (ip_account j)) (ip_account j)"
    using assms by (simp add: ip_wf_def native_account_def account_wf_def)
  note a = length_put_account [OF this]
  have "length (print_string (ip_phase j)) \<le> 20"
    using assms by (auto simp: ip_wf_def ip_position_def ip_phase_defs print_string_plain html_safe_def)
  then show ?thesis
    using assms a length_put_u64 [of "ip_revision j"] length_put_u64 [of "ip_registry_revision j"]
    by (simp add: put_ip_journal_def ip_wf_def ip_format_name_def print_string_plain html_safe_def
        ip_max_bytes_def put_int_def format_uint.simps)
qed

lemma ip_decode_marshal: "ip_wf j \<Longrightarrow> ip_decode (Some (reader_of (json_print (put_ip_journal j)))) = Inr j"
  using config_decode_print [OF put_ip_ok put_ip_scan length_put_ip, of j json_ip_journal] json_ip_put [of j]
  by (simp add: ip_decode_iff ip_max_bytes_def)

definition ip_engine :: "ip_journal store" where
  "ip_engine = \<lparr>store_ready = True, store_closed = False, store_uncertain = False,
     store_noatime = False, store_codec = ip_codec\<rparr>"

lemma ip_commit_calm:
  assumes "calm w" "holds_doc ip_codec w d" "ip_wf x" "expected = doc_revision ip_codec d" "expected \<noteq> - 1"
    "ip_revision x = expected + 1"
  shows "\<exists>w'. store_commit host_kernel ip_engine expected x (n, w) = (None, ip_engine, n, w') \<and>
    calm w' \<and> holds_doc ip_codec w' (Some x)"
proof -
  have "codec_max_bytes ip_codec = ip_max_bytes" by (simp add: ip_codec_def)
  then have "\<exists>w'. store_commit disk_kernel ip_engine expected x w = (None, ip_engine, w') \<and> calm w' \<and>
      holds_doc ip_codec w' (Some x)"
    by (intro commit_calm [OF assms(1,2) _ _ ip_doc.doc_codec_axioms])
      (use assms length_put_ip ip_decode_marshal in \<open>simp_all add: ip_engine_def store_check_def\<close>)
  then show ?thesis by (auto simp: store_commit_beside)
qed

lemma ip_load_calm:
  assumes "calm w" "holds_doc ip_codec w (Some x)"
  shows "\<exists>w'. store_load host_kernel ip_engine (n, w) = (Inr x, n, w') \<and> calm w' \<and> holds_doc ip_codec w' (Some x)"
  using store_load_calm [OF assms, of ip_engine] by (auto simp: store_load_beside ip_engine_def store_check_def)

lemma ip_intent_wf: "ip_wf j \<Longrightarrow> ip_phase j \<in> {ip_reserved, ip_group_confirmed} \<Longrightarrow> ip_wf (ip_intent j)"
  using ip_edge_intent [of j] ip_edge_wf by blast

lemma ip_confirmed_wf:
  assumes "ip_wf j" "ip_phase j \<in> {ip_reserved, ip_group_confirmed}"
  shows "ip_wf (ip_confirmed (ip_intent j))"
proof (rule ip_edge_wf [OF ip_edge_confirmed ip_intent_wf [OF assms]])
  show "ip_phase (ip_intent j) = ip_group_intent \<or> ip_phase (ip_intent j) = ip_user_intent"
    by (simp add: ip_intent_def)
qed

text \<open>One confirmed step of a journal whose files are as its phase demands.\<close>

lemma ip_step_calm:
  assumes w: "calm w" "holds_doc ip_codec w (Some j)" and j: "ip_wf j" "ip_matches j r"
    and p: "ip_phase j \<in> {ip_reserved, ip_group_confirmed}"
    and before: "snapshot_inspect n (ip_account j) = Inr d1"
      "ip_phase j = ip_reserved \<Longrightarrow> as_status d1 = id_absent" "ip_phase j = ip_group_confirmed \<Longrightarrow> group_only d1"
    and cmd: "\<And>v. ip_run_command sim_backend no_deadline (ip_intent j) (n, v) = (True, n', v)"
    and after: "snapshot_inspect n' (ip_account j) = Inr d2" "phase_holds (ip_phase (ip_confirmed (ip_intent j))) d2"
  shows "\<exists>w'. ip_step host_kernel (Some ip_engine) (Some no_deadline) (ip_revision j) r (Some sim_backend) (n, w) =
    (None, Some ip_engine, n', w') \<and> calm w' \<and> holds_doc ip_codec w' (Some (ip_confirmed (ip_intent j)))"
proof -
  have ip: "ip_phase (ip_intent j) = ip_group_intent \<or> ip_phase (ip_intent j) = ip_user_intent"
    by (simp add: ip_intent_def)
  note intent = ip_intent_wf [OF j(1) p] and conf = ip_confirmed_wf [OF j(1) p]
  have rev: "ip_revision j \<noteq> - 1" "ip_revision j + 1 \<noteq> - 1"
    using j(1) p by (auto simp: ip_wf_def ip_position_def ip_phase_defs)
  obtain w1 where 1: "store_load host_kernel ip_engine (n, w) = (Inr j, n, w1)" "calm w1" "holds_doc ip_codec w1 (Some j)"
    using ip_load_calm [OF w, of n] by blast
  obtain w2 where 2: "store_commit host_kernel ip_engine (ip_revision j) (ip_intent j) (n, w1) = (None, ip_engine, n, w2)"
    "calm w2" "holds_doc ip_codec w2 (Some (ip_intent j))"
    using ip_commit_calm [OF 1(2,3) intent, of "ip_revision j" n] rev by (auto simp: doc_revision_def ip_intent_def)
  obtain w3 where 3: "store_commit host_kernel ip_engine (ip_revision (ip_intent j)) (ip_confirmed (ip_intent j)) (n', w2) =
      (None, ip_engine, n', w3)" "calm w3" "holds_doc ip_codec w3 (Some (ip_confirmed (ip_intent j)))"
    using ip_commit_calm [OF 2(2,3) conf, of "ip_revision (ip_intent j)" n'] rev
    by (auto simp: doc_revision_def ip_intent_def ip_confirmed_def)
  have guard: "\<not> (ip_phase (ip_intent j) = ip_group_intent \<and> \<not> group_only d2 \<or>
      ip_phase (ip_intent j) = ip_user_intent \<and> as_status d2 \<noteq> id_observed)"
    using after(2) ip by (auto simp: phase_holds_def ip_confirmed_def)
  have acc: "ip_account (ip_intent j) = ip_account j" by (simp add: ip_intent_def)
  have "ip_after_intent host_kernel sim_backend no_deadline ip_engine (ip_intent j) (n, w2) = (None, Some ip_engine, n', w3)"
    using guard
    by (auto simp: ip_after_intent_def no_deadline_def [of "(n, w2)"] no_deadline_def [of "(n', w2)"] cmd
        sim_backend_def [THEN arg_cong [of _ _ ipb_observe]] after(1) acc ip_commit_def 3)
  moreover have "ip_phase j \<noteq> ip_unix_confirmed"
    "\<not> (ip_phase j = ip_reserved \<and> as_status d1 \<noteq> id_absent \<or> ip_phase j = ip_group_confirmed \<and> \<not> group_only d1)"
    using p before by auto
  ultimately have "ip_observe_step host_kernel sim_backend no_deadline ip_engine j (n, w1) = (None, Some ip_engine, n', w3)"
    by (auto simp: ip_observe_step_def no_deadline_def [of "(n, w1)"] sim_backend_def [THEN arg_cong [of _ _ ipb_observe]]
        before(1) 2)
  then show ?thesis using 1 3 j(2) p by (auto simp: ip_step_def)
qed

text \<open>The verdicts on a host the commands have extended.\<close>

lemma absent_free:
  assumes "snapshot_inspect n a = Inr d" "as_status d = id_absent"
  shows "(\<forall>u \<in> set (snap_users n). user_free a u) \<and> (\<forall>g \<in> set (snap_groups n). group_free a g) \<and>
    snap_valid n \<and> native_account a"
proof -
  have v: "snap_valid n" "native_account a" and d: "d = identity_verdict n a"
    using assms(1) by (auto simp: snapshot_inspect_eq split: if_splits)
  have neq: "id_conflict \<noteq> id_absent" "id_observed \<noteq> id_absent" "id_partial \<noteq> id_absent"
    by (simp_all add: id_status_defs)
  have "\<not> ((\<exists>u \<in> set (snap_users n). \<not> user_match a u \<and> \<not> user_free a u) \<or>
      (\<exists>g \<in> set (snap_groups n). \<not> group_match a g \<and> \<not> group_free a g))" (is "\<not> ?c")
  proof
    assume "?c"
    then have "as_status d = id_conflict" by (simp only: d identity_verdict_def if_True assessment.simps)
    then show False using assms(2) neq by simp
  qed
  moreover have "\<not> (\<exists>u \<in> set (snap_users n). user_match a u) \<and> \<not> (\<exists>g \<in> set (snap_groups n). group_match a g)"
    using assms(2) calculation neq
    by (simp only: d identity_verdict_def if_False Let_def assessment.simps) (metis (full_types))
  ultimately show ?thesis using v by blast
qed

lemma group_added:
  assumes "\<forall>u \<in> set (snap_users n). user_free a u" "\<forall>g \<in> set (snap_groups n). group_free a g" "snap_valid n" "native_account a"
  shows "snapshot_inspect (n\<lparr>snap_groups := snap_groups n @ [\<lparr>ug_name = acc_name a, ug_gid = acc_gid a, ug_members = []\<rparr>]\<rparr>) a =
    Inr \<lparr>as_status = id_partial, as_user_present = False, as_group_present = True\<rparr>"
proof -
  let ?g = "\<lparr>ug_name = acc_name a, ug_gid = acc_gid a, ug_members = []\<rparr>"
  have "group_match a ?g" by (simp add: group_match_def)
  moreover have "\<forall>u \<in> set (snap_users n). \<not> user_match a u"
    using assms(1) by (auto simp: user_free_def user_match_def)
  ultimately show ?thesis using assms by (auto simp: snapshot_inspect_eq identity_verdict_def Let_def)
qed

lemma user_added:
  assumes "\<forall>u \<in> set (snap_users n). user_free a u" "\<forall>g \<in> set (snap_groups n). group_free a g" "snap_valid n" "native_account a"
  shows "snapshot_inspect (n\<lparr>snap_groups := snap_groups n @ [\<lparr>ug_name = acc_name a, ug_gid = acc_gid a, ug_members = []\<rparr>],
      snap_users := snap_users n @ [\<lparr>uu_name = acc_name a, uu_uid = acc_uid a, uu_gid = acc_gid a\<rparr>]\<rparr>) a =
    Inr \<lparr>as_status = id_observed, as_user_present = True, as_group_present = True\<rparr>"
proof -
  have "group_match a \<lparr>ug_name = acc_name a, ug_gid = acc_gid a, ug_members = []\<rparr>"
    "user_match a \<lparr>uu_name = acc_name a, uu_uid = acc_uid a, uu_gid = acc_gid a\<rparr>"
    by (simp_all add: group_match_def user_match_def)
  then show ?thesis using assms by (auto simp: snapshot_inspect_eq identity_verdict_def Let_def)
qed

lemma ip_begin_calm:
  assumes "registry_wf r" and "a \<in> set (accounts_of r)" and "ip_wf (ip_first r a)"
    and "snapshot_inspect n a = Inr d" and "as_status d = id_absent"
    and "calm w" and "dk_files w ''identity-operation.json'' = None"
  shows "\<exists>w1. ip_begin host_kernel (Some ip_engine) r (acc_id a) n (n, w) = (None, Some ip_engine, n, w1) \<and> calm w1 \<and>
    holds_doc ip_codec w1 (Some (ip_first r a))"
proof -
  have "inj_on acc_id (set (accounts_of r))"
    using registry_wf_accounts [OF assms(1)] by (auto simp: accounts_wf_def distinct_map)
  then have find: "find (\<lambda>x. acc_id x = acc_id a) (accounts_of r) = Some a" by (rule find_key [OF _ assms(2)])
  have w0: "holds_doc ip_codec w None" using assms(7) by (simp add: holds_doc_def ip_codec_def)
  obtain w1 where "store_commit host_kernel ip_engine 0 (ip_first r a) (n, w) = (None, ip_engine, n, w1)" "calm w1"
      "holds_doc ip_codec w1 (Some (ip_first r a))"
    using ip_commit_calm [OF assms(6) w0 assms(3), of 0 n] by (auto simp: doc_revision_def ip_first_def)
  then show ?thesis
    using assms(1,3-5) find
    by (auto simp: ip_begin_def registry_validate_iff ip_validate_iff snapshot_assess_def ip_commit_def)
qed



subsection \<open>Properties\<close>

lemma sample_native: "ip_wf (ip_first sample_registry2 (new_account ''alice'' ''alice'' 1001))"
  unfolding ip_validate_iff [symmetric] by code_simp

lemma sample_absent:
  "snapshot_inspect sample_snapshot (new_account ''alice'' ''alice'' 1001) =
     Inr \<lparr>as_status = id_absent, as_user_present = False, as_group_present = False\<rparr>"
  by code_simp

lemma sample_in_registry: "new_account ''alice'' ''alice'' 1001 \<in> set (accounts_of sample_registry2)"
  by (simp add: sample_registry2_def accounts_of_def)

lemma sample_first_step:
  "\<exists>w s' w'. ip_step host_kernel (Some ip_engine) (Some no_deadline) 1 sample_registry2 (Some sim_backend) w = (None, s', w')"
proof -
  let ?a = "new_account ''alice'' ''alice'' 1001"
  let ?n2 = "sample_snapshot\<lparr>snap_groups := snap_groups sample_snapshot @ [\<lparr>ug_name = acc_name ?a, ug_gid = acc_gid ?a, ug_members = []\<rparr>]\<rparr>"
  have wf: "registry_wf sample_registry2" by (rule registry_create_wf [OF sample_create])
  obtain w1 where w1: "calm w1" "holds_doc ip_codec w1 (Some (ip_first sample_registry2 ?a))"
    using ip_begin_calm [OF wf sample_in_registry sample_native sample_absent, of "empty_disk []"]
    by (auto simp: calm_def empty_disk_def)
  have m: "ip_matches (ip_first sample_registry2 ?a) sample_registry2"
    using wf sample_in_registry by (auto simp: ip_matches_def registry_validate_iff list_ex_iff ip_first_def)
  note free = absent_free [OF sample_absent]
  have group: "snapshot_inspect ?n2 ?a = Inr \<lparr>as_status = id_partial, as_user_present = False, as_group_present = True\<rparr>"
    using group_added [of sample_snapshot ?a] free by simp
  have "\<exists>w'. ip_step host_kernel (Some ip_engine) (Some no_deadline) (ip_revision (ip_first sample_registry2 ?a)) sample_registry2
      (Some sim_backend) (sample_snapshot, w1) = (None, Some ip_engine, ?n2, w') \<and> calm w' \<and>
      holds_doc ip_codec w' (Some (ip_confirmed (ip_intent (ip_first sample_registry2 ?a))))"
    by (rule ip_step_calm [OF w1 sample_native m, where ?d1.0 = "\<lparr>as_status = id_absent, as_user_present = False, as_group_present = False\<rparr>"
          and ?d2.0 = "\<lparr>as_status = id_partial, as_user_present = False, as_group_present = True\<rparr>"])
      (use sample_absent group in \<open>simp_all add: ip_first_def ip_run_command_def sim_backend_def sim_create_group_def
        ip_intent_def ip_confirmed_def phase_holds_def group_only_def\<close>)
  then show ?thesis by (simp add: ip_first_def) blast
qed


definition host_start :: "snapshot \<times> disk" where
  "host_start = (sample_snapshot, empty_disk [])"

definition ip_start :: ip_store where
  "ip_start = Some ip_engine"



text \<open>A backend that refuses every command unless the intent is durable.\<close>

definition wary_backend :: "(snapshot \<times> disk) ip_backend" where
  "wary_backend = sim_backend
     \<lparr>ipb_create_group := (\<lambda>ctx a w. if ip_durable_intent host_files host_crash ip_group_intent a w
        then sim_create_group a w else (False, w)),
      ipb_create_user := (\<lambda>ctx a w. if ip_durable_intent host_files host_crash ip_user_intent a w
        then sim_create_user a w else (False, w))\<rparr>"


text \<open>
  A resumed intent is never replayed. When the loaded journal is in an intent phase or needs
  review, the outcome of \<open>Step\<close> does not depend on the context or the backend at all, so no
  command is run and nothing is observed.
\<close>

lemma ip_no_replay:
  assumes "store_load K engine w = (Inr j, w1)"
    and "ip_phase j \<in> {ip_group_intent, ip_user_intent, ip_review_required}"
  shows "ip_step K (Some engine) (Some ctx) e r (Some B) w = ip_step K (Some engine) (Some ctx') e r (Some B') w"
  using assms by (auto simp: ip_step_def)



end
