(* ===== verification/Smb_Provision.thy ===== *)
theory Smb_Provision
  imports Identity_Provision
begin

section \<open>Enrollment of one identity in Samba\<close>

text \<open>
  The model of \<open>internal/smbprovision/journal.go\<close> and \<open>store_linux.go\<close>: the enrollment
  journal, its document form, the password rule, the observation checks, and the store
  operations \<open>Begin\<close>, \<open>Step\<close>, \<open>Enable\<close>, \<open>Disable\<close>, \<open>SetPasswordDisabled\<close>,
  \<open>RecoverInterrupted\<close> and \<open>ObserveReview\<close>. The backend that runs the Samba commands is a
  parameter. The lemmas show that the journal only moves along its phases and never changes its
  account or its SID, that a command runs only while its intent is durable, and that access is
  recorded as enabled only after the same SID was observed enabled.
\<close>

subsection \<open>Journal and observation\<close>

record sp_journal =
  sp_format :: string
  sp_schema_version :: int
  sp_revision :: u64
  sp_native_revision :: u64
  sp_account :: account
  sp_sid :: string
  sp_phase :: string

record observation =
  ob_present :: bool
  ob_name :: string
  ob_uid :: u32
  ob_gid :: u32
  ob_sid :: string
  ob_disabled :: bool

definition sp_format_name :: string where "sp_format_name = ''phantowd-smb-provision''"
definition sp_max_bytes :: int where "sp_max_bytes = 4096"
definition sp_reserved :: string where "sp_reserved = ''reserved''"
definition sp_create_intent :: string where "sp_create_intent = ''create-disabled-intent''"
definition sp_no_password :: string where "sp_no_password = ''disabled-no-password''"
definition sp_password_intent :: string where "sp_password_intent = ''set-password-disabled-intent''"
definition sp_credential_set :: string where "sp_credential_set = ''credential-set-disabled''"
definition sp_enable_intent :: string where "sp_enable_intent = ''enable-intent''"
definition sp_enabled :: string where "sp_enabled = ''enabled''"
definition sp_disable_intent :: string where "sp_disable_intent = ''disable-intent''"
definition sp_disabled :: string where "sp_disabled = ''disabled''"
definition sp_review_required :: string where "sp_review_required = ''review-required''"
definition min_password_bytes :: nat where "min_password_bytes = 12"
definition max_password_bytes :: nat where "max_password_bytes = 256"

lemmas sp_phase_defs = sp_reserved_def sp_create_intent_def sp_no_password_def sp_password_intent_def
  sp_credential_set_def sp_enable_intent_def sp_enabled_def sp_disable_intent_def sp_disabled_def
  sp_review_required_def

datatype sp_error = SP_Invalid | SP_Conflict | SP_Review | SP_Observation | SP_Pending
  | SP_Joined_Review "store_error option" | SP_Store store_error | SP_Ctx ctx_error

definition sid_part_ok :: "string \<Rightarrow> bool" where
  "sid_part_ok part =
     (case parse_uint 32 part of
        None \<Rightarrow> False
      | Some n \<Rightarrow> n \<noteq> 0 \<and> format_uint n = part)"

definition valid_sid :: "string \<Rightarrow> bool" where
  "valid_sid v =
     (let parts = split_on (CHR ''-'') v in
      if length parts \<noteq> 8 \<or> parts ! 0 \<noteq> ''S'' \<or> parts ! 1 \<noteq> ''1'' \<or> parts ! 2 \<noteq> ''5'' \<or> parts ! 3 \<noteq> ''21'' then False
      else list_all sid_part_ok (drop 4 parts))"

definition ob_validate_for :: "observation \<Rightarrow> account \<Rightarrow> bool \<Rightarrow> sp_error option" where
  "ob_validate_for ob a require_disabled =
     (if \<not> ob_present ob then
        (if ob_name ob \<noteq> [] \<or> ob_uid ob \<noteq> 0 \<or> ob_gid ob \<noteq> 0 \<or> ob_sid ob \<noteq> [] \<or> ob_disabled ob
         then Some SP_Observation else None)
      else if ob_name ob \<noteq> acc_name a \<or> ob_uid ob \<noteq> acc_uid a \<or> ob_gid ob \<noteq> acc_gid a \<or> \<not> valid_sid (ob_sid ob) \<or>
         (require_disabled \<and> \<not> ob_disabled ob)
      then Some SP_Observation
      else None)"

definition sid_required :: "string \<Rightarrow> bool" where
  "sid_required p \<longleftrightarrow> p = sp_no_password \<or> p = sp_password_intent \<or> p = sp_credential_set \<or>
     p = sp_enable_intent \<or> p = sp_enabled \<or> p = sp_disable_intent \<or> p = sp_disabled"

definition sp_position :: "string \<Rightarrow> u64 \<Rightarrow> bool" where
  "sp_position p n \<longleftrightarrow>
     p = sp_reserved \<and> n = 1 \<or>
     p = sp_create_intent \<and> n = 2 \<or>
     p = sp_no_password \<and> n = 3 \<or>
     p = sp_password_intent \<and> n \<ge> 4 \<and> n mod 2 = 0 \<or>
     p = sp_credential_set \<and> n \<ge> 5 \<and> n mod 2 = 1 \<or>
     p = sp_enable_intent \<and> n \<ge> 6 \<and> n mod 2 = 0 \<or>
     p = sp_enabled \<and> n \<ge> 7 \<and> n mod 2 = 1 \<or>
     p = sp_disable_intent \<and> n \<ge> 8 \<and> n mod 2 = 0 \<or>
     p = sp_disabled \<and> n \<ge> 9 \<and> n mod 2 = 1 \<or>
     p = sp_review_required \<and> n \<ge> 2"

definition sp_validate :: "sp_journal \<Rightarrow> sp_error + unit" where
  "sp_validate j =
     (let p = sp_phase j; n = sp_revision j in
      if \<not> account_alone_ok (sp_account j) \<or> acc_state (sp_account j) \<noteq> st_disabled \<or>
         sp_format j \<noteq> sp_format_name \<or> sp_schema_version j \<noteq> 1 \<or> n = 0 \<or> sp_native_revision j = 0
      then Inl SP_Invalid
      else
        (let valid_phase = sp_position p n;
             require_sid = (sid_required p \<or> p = sp_review_required \<and> n \<ge> 4);
             valid_review_sid = (p = sp_review_required \<and> n = 3 \<and> sp_sid j \<noteq> [] \<and> valid_sid (sp_sid j)) in
         if \<not> valid_phase \<or> \<not> require_sid \<and> sp_sid j \<noteq> [] \<and> \<not> valid_review_sid \<or>
            require_sid \<and> \<not> valid_sid (sp_sid j)
         then Inl SP_Invalid
         else Inr ()))"

definition validate_observation :: "sp_journal \<Rightarrow> observation \<Rightarrow> sp_error option" where
  "validate_observation j ob =
     (if \<not> is_ok (sp_validate j) \<or> ob_validate_for ob (sp_account j) False \<noteq> None then Some SP_Observation
      else if sp_phase j = sp_reserved then (if ob_present ob then Some SP_Observation else None)
      else if sp_phase j \<in> {sp_create_intent, sp_password_intent, sp_enable_intent, sp_disable_intent} then Some SP_Review
      else if sp_phase j \<in> {sp_no_password, sp_credential_set, sp_disabled} then
        (if \<not> ob_present ob \<or> \<not> ob_disabled ob \<or> ob_sid ob \<noteq> sp_sid j then Some SP_Observation else None)
      else if sp_phase j = sp_enabled then
        (if \<not> ob_present ob \<or> ob_disabled ob \<or> ob_sid ob \<noteq> sp_sid j then Some SP_Observation else None)
      else if sp_phase j = sp_review_required then
        (if ob_present ob \<and> sp_sid j \<noteq> [] \<and> ob_sid ob \<noteq> sp_sid j then Some SP_Observation else None)
      else Some SP_Invalid)"

text \<open>\<open>unicode.IsControl\<close>.\<close>

definition control_rune :: "nat \<Rightarrow> bool" where
  "control_rune r \<longleftrightarrow> r < 32 \<or> 127 \<le> r \<and> r < 160"

definition valid_password :: "string \<Rightarrow> bool" where
  "valid_password secret =
     (if length secret < min_password_bytes \<or> length secret > max_password_bytes \<or> \<not> valid_string secret then False
      else list_all (\<lambda>r. \<not> control_rune r) (runes secret))"

subsection \<open>The document\<close>

definition sp_keys :: "string list" where
  "sp_keys = [''format'', ''schema_version'', ''revision'', ''native_revision'', ''account'', ''id'', ''name'',
     ''uid'', ''gid'', ''state'', ''sid'', ''phase'']"

definition json_sp_journal :: "json \<Rightarrow> sp_journal option" where
  "json_sp_journal v = do {
     ms \<leftarrow> json_object [''format'', ''schema_version'', ''revision'', ''native_revision'', ''account'', ''sid'', ''phase''] v;
     f \<leftarrow> json_member ms ''format'' json_string [];
     sv \<leftarrow> json_member ms ''schema_version'' json_int 0;
     r \<leftarrow> json_member ms ''revision'' json_u64 0;
     nr \<leftarrow> json_member ms ''native_revision'' json_u64 0;
     a \<leftarrow> json_member ms ''account'' json_account zero_account;
     sid \<leftarrow> json_member ms ''sid'' json_string [];
     p \<leftarrow> json_member ms ''phase'' json_string [];
     Some \<lparr>sp_format = f, sp_schema_version = sv, sp_revision = r, sp_native_revision = nr,
           sp_account = a, sp_sid = sid, sp_phase = p\<rparr> }"

text \<open>The SID is omitted when it is empty.\<close>

definition put_sp_journal :: "sp_journal \<Rightarrow> json" where
  "put_sp_journal j = JObj ([(''format'', JStr (sp_format j)), (''schema_version'', put_int (sp_schema_version j)),
     (''revision'', put_uint (unat (sp_revision j))),
     (''native_revision'', put_uint (unat (sp_native_revision j))),
     (''account'', put_account (sp_account j))] @
     (if sp_sid j = [] then [] else [(''sid'', JStr (sp_sid j))]) @
     [(''phase'', JStr (sp_phase j))])"

definition sp_decode :: "reader option \<Rightarrow> sp_error + sp_journal" where
  "sp_decode input =
     (case input of
        None \<Rightarrow> Inl SP_Invalid
      | Some r \<Rightarrow> (case config_decode json_sp_journal r sp_max_bytes 5 (Some sp_keys) of
          None \<Rightarrow> Inl SP_Invalid
        | Some j \<Rightarrow> if is_ok (sp_validate j) then Inr j else Inl SP_Invalid))"

definition sp_codec :: "sp_journal codec" where
  "sp_codec = \<lparr>codec_current_name = ''smb-operation.json'',
     codec_pending_name = ''.smb-operation.pending'', codec_max_bytes = sp_max_bytes,
     codec_complete = True,
     codec_decode = (\<lambda>input. case sp_decode (Some input) of Inl _ \<Rightarrow> None | Inr j \<Rightarrow> Some j),
     codec_validate = (\<lambda>j. is_ok (sp_validate j)), codec_revision = sp_revision,
     codec_transition = None, codec_marshal = (\<lambda>j. Some (json_print (put_sp_journal j)))\<rparr>"

subsection \<open>The store\<close>

text \<open>
  The backend is trusted code outside the package; a command answers whether it succeeded. A
  store without a backend permits recovery and inspection only.
\<close>

record 'w sp_backend =
  spb_observe :: "'w reading_ctx \<Rightarrow> account \<Rightarrow> 'w \<Rightarrow> observation option \<times> 'w"
  spb_create_disabled :: "'w reading_ctx \<Rightarrow> account \<Rightarrow> 'w \<Rightarrow> bool \<times> 'w"
  spb_set_password :: "'w reading_ctx \<Rightarrow> account \<Rightarrow> string \<Rightarrow> 'w \<Rightarrow> bool \<times> 'w"
  spb_enable :: "'w reading_ctx \<Rightarrow> account \<Rightarrow> 'w \<Rightarrow> bool \<times> 'w"
  spb_disable :: "'w reading_ctx \<Rightarrow> account \<Rightarrow> 'w \<Rightarrow> bool \<times> 'w"

record 'w sp_store =
  sps_engine :: "sp_journal store option"
  sps_backend :: "'w sp_backend option"

type_synonym 'w sp_result = "sp_error option \<times> 'w sp_store \<times> 'w"

definition sp_open :: "'w kernel \<Rightarrow> string \<Rightarrow> 'w sp_backend option \<Rightarrow> 'w \<Rightarrow> (store_error + 'w sp_store) \<times> 'w" where
  "sp_open K directory backend w =
     (case open_with_codec K directory sp_codec w of
        (Inl e, w1) \<Rightarrow> (Inl e, w1)
      | (Inr engine, w1) \<Rightarrow> (Inr \<lparr>sps_engine = Some engine, sps_backend = backend\<rparr>, w1))"

definition sp_close :: "'w kernel \<Rightarrow> 'w sp_store \<Rightarrow> 'w \<Rightarrow> store_error option \<times> 'w sp_store \<times> 'w" where
  "sp_close K s w =
     (case sps_engine s of
        None \<Rightarrow> (None, s, w)
      | Some engine \<Rightarrow> (case store_close K engine w of (e, _, w1) \<Rightarrow> (e, s\<lparr>sps_engine := None\<rparr>, w1)))"

definition sp_load :: "'w kernel \<Rightarrow> 'w sp_store \<Rightarrow> 'w \<Rightarrow> (store_error + sp_journal) \<times> 'w" where
  "sp_load K s w =
     (case sps_engine s of None \<Rightarrow> (Inl ErrClosed, w) | Some engine \<Rightarrow> store_load K engine w)"

definition sp_advance :: "sp_journal \<Rightarrow> string \<Rightarrow> sp_journal" where
  "sp_advance j p = j\<lparr>sp_revision := sp_revision j + 1, sp_phase := p\<rparr>"

definition sp_commit ::
  "'w kernel \<Rightarrow> 'w sp_store \<Rightarrow> sp_journal store \<Rightarrow> u64 \<Rightarrow> sp_journal \<Rightarrow> 'w \<Rightarrow> 'w sp_result" where
  "sp_commit K s engine expected next w =
     (case store_commit K engine expected next w of
        (e, engine', w1) \<Rightarrow> (map_option SP_Store e, s\<lparr>sps_engine := Some engine'\<rparr>, w1))"

definition sp_review ::
  "'w kernel \<Rightarrow> 'w sp_store \<Rightarrow> sp_journal store \<Rightarrow> sp_journal \<Rightarrow> 'w \<Rightarrow> 'w sp_result" where
  "sp_review K s engine j w =
     (case store_commit K engine (sp_revision j) (sp_advance j sp_review_required) w of
        (e, engine', w1) \<Rightarrow> (Some (SP_Joined_Review e), s\<lparr>sps_engine := Some engine'\<rparr>, w1))"

definition sp_intents :: "string list" where
  "sp_intents = [sp_create_intent, sp_password_intent, sp_enable_intent, sp_disable_intent]"

definition sp_recover_interrupted ::
  "'w kernel \<Rightarrow> 'w sp_store \<Rightarrow> 'w \<Rightarrow> (store_error + sp_journal) \<times> 'w sp_store \<times> 'w" where
  "sp_recover_interrupted K s w =
     (case sps_engine s of
        None \<Rightarrow> (Inl ErrClosed, s, w)
      | Some engine \<Rightarrow> (case store_load K engine w of
          (Inl e, w1) \<Rightarrow> (Inl e, s, w1)
        | (Inr j, w1) \<Rightarrow>
            if sp_phase j \<notin> set sp_intents then (Inr j, s, w1)
            else (case store_commit K engine (sp_revision j) (sp_advance j sp_review_required) w1 of
              (Some e, engine', w2) \<Rightarrow> (Inl e, s\<lparr>sps_engine := Some engine'\<rparr>, w2)
            | (None, engine', w2) \<Rightarrow>
                (Inr (sp_advance j sp_review_required), s\<lparr>sps_engine := Some engine'\<rparr>, w2))))"

definition sp_observe_review ::
  "'w kernel \<Rightarrow> 'w sp_store \<Rightarrow> 'w reading_ctx option \<Rightarrow> 'w \<Rightarrow> (sp_error + observation) \<times> 'w" where
  "sp_observe_review K s ctx w =
     (case sps_engine s of
        None \<Rightarrow> (Inl (SP_Store ErrClosed), w)
      | Some engine \<Rightarrow> (case ctx of
          None \<Rightarrow> (Inl SP_Observation, w)
        | Some c \<Rightarrow> (case c w of
            (Some _, w1) \<Rightarrow> (Inl SP_Observation, w1)
          | (None, w1) \<Rightarrow> (case store_load K engine w1 of
              (Inl _, w2) \<Rightarrow> (Inl SP_Observation, w2)
            | (Inr j, w2) \<Rightarrow>
                if sp_phase j \<noteq> sp_review_required then (Inl SP_Conflict, w2)
                else (case sps_backend s of
                  None \<Rightarrow> (Inl SP_Observation, w2)
                | Some B \<Rightarrow> (case spb_observe B c (sp_account j) w2 of
                    (ob, w3) \<Rightarrow> (case c w3 of
                      (Some _, w4) \<Rightarrow> (Inl SP_Observation, w4)
                    | (None, w4) \<Rightarrow> (case ob of
                        None \<Rightarrow> (Inl SP_Observation, w4)
                      | Some observed \<Rightarrow>
                          if ob_validate_for observed (sp_account j) False \<noteq> None then (Inl SP_Observation, w4)
                          else (Inr observed, w4)))))))))"

definition sp_first :: "u64 \<Rightarrow> account \<Rightarrow> sp_journal" where
  "sp_first native_revision a = \<lparr>sp_format = sp_format_name, sp_schema_version = 1, sp_revision = 1,
     sp_native_revision = native_revision, sp_account = a, sp_sid = [], sp_phase = sp_reserved\<rparr>"

definition valid_account :: "account \<Rightarrow> bool" where
  "valid_account a \<longleftrightarrow> account_alone_ok a \<and> acc_state a = st_disabled"

definition sp_begin ::
  "'w kernel \<Rightarrow> 'w sp_store \<Rightarrow> 'w reading_ctx option \<Rightarrow> u64 \<Rightarrow> account \<Rightarrow> 'w \<Rightarrow> 'w sp_result" where
  "sp_begin K s ctx native_revision a w =
     (case sps_engine s of
        None \<Rightarrow> (Some (SP_Store ErrClosed), s, w)
      | Some engine \<Rightarrow> (case (ctx, sps_backend s) of
          (Some c, Some B) \<Rightarrow>
            if native_revision = 0 \<or> \<not> valid_account a then (Some SP_Invalid, s, w)
            else (case c w of
              (Some e, w1) \<Rightarrow> (Some (SP_Ctx e), s, w1)
            | (None, w1) \<Rightarrow> (case spb_observe B c a w1 of
                (None, w2) \<Rightarrow> (Some SP_Observation, s, w2)
              | (Some observed, w2) \<Rightarrow> (case c w2 of
                  (Some e, w3) \<Rightarrow> (Some (SP_Ctx e), s, w3)
                | (None, w3) \<Rightarrow>
                    if ob_validate_for observed a False \<noteq> None then (Some SP_Observation, s, w3)
                    else if ob_present observed then (Some SP_Review, s, w3)
                    else if \<not> is_ok (sp_validate (sp_first native_revision a)) then (Some SP_Invalid, s, w3)
                    else sp_commit K s engine 0 (sp_first native_revision a) w3)))
        | _ \<Rightarrow> (Some SP_Invalid, s, w)))"

text \<open>
  The tail every mutating operation shares: the intent is committed, then the command runs, the
  account is observed again, and the outcome is confirmed or sent to review.
\<close>

definition sp_after_intent ::
  "'w kernel \<Rightarrow> 'w sp_store \<Rightarrow> 'w reading_ctx \<Rightarrow> 'w sp_backend \<Rightarrow> sp_journal store \<Rightarrow> sp_journal \<Rightarrow>
   ('w \<Rightarrow> bool \<times> 'w) \<Rightarrow> (observation \<Rightarrow> bool) \<Rightarrow> (observation \<Rightarrow> sp_journal) \<Rightarrow> 'w \<Rightarrow> 'w sp_result" where
  "sp_after_intent K s c B engine intent command good confirmed w =
     (case c w of
        (Some _, w1) \<Rightarrow> sp_review K s engine intent w1
      | (None, w1) \<Rightarrow> (case command w1 of
          (False, w2) \<Rightarrow> sp_review K s engine intent w2
        | (True, w2) \<Rightarrow> (case c w2 of
            (Some _, w3) \<Rightarrow> sp_review K s engine intent w3
          | (None, w3) \<Rightarrow> (case spb_observe B c (sp_account intent) w3 of
              (None, w4) \<Rightarrow> sp_review K s engine intent w4
            | (Some after, w4) \<Rightarrow>
                if \<not> good after then sp_review K s engine intent w4
                else sp_commit K s engine (sp_revision intent) (confirmed after) w4))))"

definition sp_native ::
  "'w kernel \<Rightarrow> 'w sp_store \<Rightarrow> 'w reading_ctx \<Rightarrow> 'w sp_backend \<Rightarrow> sp_journal store \<Rightarrow> sp_journal \<Rightarrow> string \<Rightarrow>
   ('w \<Rightarrow> bool \<times> 'w) \<Rightarrow> (observation \<Rightarrow> bool) \<Rightarrow> (observation \<Rightarrow> sp_journal) \<Rightarrow> 'w \<Rightarrow> 'w sp_result" where
  "sp_native K s c B engine j intent_phase command good confirmed w =
     (case store_commit K engine (sp_revision j) (sp_advance j intent_phase) w of
        (Some e, engine', w1) \<Rightarrow> (Some (SP_Store e), s\<lparr>sps_engine := Some engine'\<rparr>, w1)
      | (None, engine', w1) \<Rightarrow>
          sp_after_intent K s c B engine' (sp_advance j intent_phase) command good confirmed w1)"

definition same_disabled :: "sp_journal \<Rightarrow> observation \<Rightarrow> bool" where
  "same_disabled j ob \<longleftrightarrow> ob_validate_for ob (sp_account j) True = None \<and> ob_present ob \<and> ob_sid ob = sp_sid j"

text \<open>\<open>Step\<close> on an observed journal.\<close>

definition sp_step_phase ::
  "'w kernel \<Rightarrow> 'w sp_store \<Rightarrow> 'w reading_ctx \<Rightarrow> 'w sp_backend \<Rightarrow> sp_journal store \<Rightarrow> sp_journal \<Rightarrow> observation \<Rightarrow>
   'w \<Rightarrow> 'w sp_result" where
  "sp_step_phase K s c B engine j observed w =
     (if sp_phase j = sp_reserved then
        (if ob_validate_for observed (sp_account j) False \<noteq> None \<or> ob_present observed then sp_review K s engine j w
         else sp_native K s c B engine j sp_create_intent (spb_create_disabled B c (sp_account j))
           (\<lambda>after. ob_validate_for after (sp_account j) True = None \<and> ob_present after)
           (\<lambda>after. (sp_advance (sp_advance j sp_create_intent) sp_no_password)\<lparr>sp_sid := ob_sid after\<rparr>) w)
      else if sp_phase j = sp_no_password then
        (if \<not> same_disabled j observed then sp_review K s engine j w
         else (Some SP_Pending, s, w))
      else if sp_phase j = sp_credential_set then
        (if \<not> same_disabled j observed then sp_review K s engine j w
         else (None, s, w))
      else (Some SP_Invalid, s, w))"

definition sp_step ::
  "'w kernel \<Rightarrow> 'w sp_store \<Rightarrow> 'w reading_ctx option \<Rightarrow> u64 \<Rightarrow> 'w \<Rightarrow> 'w sp_result" where
  "sp_step K s ctx expected w =
     (case sps_engine s of
        None \<Rightarrow> (Some (SP_Store ErrClosed), s, w)
      | Some engine \<Rightarrow> (case ctx of
          None \<Rightarrow> (Some SP_Invalid, s, w)
        | Some c \<Rightarrow> (case store_load K engine w of
            (Inl e, w1) \<Rightarrow> (Some (SP_Store e), s, w1)
          | (Inr j, w1) \<Rightarrow>
              if expected \<noteq> sp_revision j then (Some SP_Conflict, s, w1)
              else if sp_phase j = sp_review_required then (Some SP_Review, s, w1)
              else if sp_phase j \<in> set sp_intents then sp_review K s engine j w1
              else (case c w1 of
                (Some e, w2) \<Rightarrow> (Some (SP_Ctx e), s, w2)
              | (None, w2) \<Rightarrow> (case sps_backend s of
                  None \<Rightarrow> (Some SP_Invalid, s, w2)
                | Some B \<Rightarrow> (case spb_observe B c (sp_account j) w2 of
                    (None, w3) \<Rightarrow> (Some SP_Observation, s, w3)
                  | (Some observed, w3) \<Rightarrow> sp_step_phase K s c B engine j observed w3))))))"

text \<open>
  The part \<open>Enable\<close> and \<open>Disable\<close> share: the checks on the loaded journal, the observation, and
  the second reading of the context before the intent.
\<close>

definition sp_switch ::
  "'w kernel \<Rightarrow> 'w sp_store \<Rightarrow> 'w reading_ctx option \<Rightarrow> u64 \<Rightarrow> string \<Rightarrow> string list \<Rightarrow>
   (sp_journal \<Rightarrow> observation \<Rightarrow> bool) \<Rightarrow>
   ('w reading_ctx \<Rightarrow> 'w sp_backend \<Rightarrow> sp_journal store \<Rightarrow> sp_journal \<Rightarrow> 'w \<Rightarrow> 'w sp_result) \<Rightarrow> 'w \<Rightarrow> 'w sp_result" where
  "sp_switch K s ctx expected intent_phase from expected_state go w =
     (case sps_engine s of
        None \<Rightarrow> (Some (SP_Store ErrClosed), s, w)
      | Some engine \<Rightarrow> (case ctx of
          None \<Rightarrow> (Some SP_Invalid, s, w)
        | Some c \<Rightarrow> (case store_load K engine w of
            (Inl e, w1) \<Rightarrow> (Some (SP_Store e), s, w1)
          | (Inr j, w1) \<Rightarrow>
              if expected \<noteq> sp_revision j then (Some SP_Conflict, s, w1)
              else if sp_phase j = sp_review_required then (Some SP_Review, s, w1)
              else if sp_phase j = intent_phase then sp_review K s engine j w1
              else if sp_phase j \<notin> set from then (Some SP_Conflict, s, w1)
              else (case c w1 of
                (Some e, w2) \<Rightarrow> (Some (SP_Ctx e), s, w2)
              | (None, w2) \<Rightarrow> (case sps_backend s of
                  None \<Rightarrow> (Some SP_Invalid, s, w2)
                | Some B \<Rightarrow> (case spb_observe B c (sp_account j) w2 of
                    (None, w3) \<Rightarrow> (Some SP_Observation, s, w3)
                  | (Some observed, w3) \<Rightarrow>
                      if \<not> expected_state j observed then sp_review K s engine j w3
                      else (case c w3 of
                        (Some e, w4) \<Rightarrow> (Some (SP_Ctx e), s, w4)
                      | (None, w4) \<Rightarrow> go c B engine j w4)))))))"

definition seen_disabled :: "sp_journal \<Rightarrow> observation \<Rightarrow> bool" where
  "seen_disabled j ob \<longleftrightarrow> ob_validate_for ob (sp_account j) False = None \<and> ob_present ob \<and> ob_sid ob = sp_sid j \<and> ob_disabled ob"

definition seen_enabled :: "sp_journal \<Rightarrow> observation \<Rightarrow> bool" where
  "seen_enabled j ob \<longleftrightarrow> ob_validate_for ob (sp_account j) False = None \<and> ob_present ob \<and> ob_sid ob = sp_sid j \<and> \<not> ob_disabled ob"

definition sp_enable ::
  "'w kernel \<Rightarrow> 'w sp_store \<Rightarrow> 'w reading_ctx option \<Rightarrow> u64 \<Rightarrow> 'w \<Rightarrow> 'w sp_result" where
  "sp_enable K s ctx expected w =
     sp_switch K s ctx expected sp_enable_intent [sp_credential_set, sp_disabled] seen_disabled
       (\<lambda>c B engine j. sp_native K s c B engine j sp_enable_intent (spb_enable B c (sp_account j))
          (seen_enabled j) (\<lambda>_. sp_advance (sp_advance j sp_enable_intent) sp_enabled)) w"

definition sp_disable ::
  "'w kernel \<Rightarrow> 'w sp_store \<Rightarrow> 'w reading_ctx option \<Rightarrow> u64 \<Rightarrow> 'w \<Rightarrow> 'w sp_result" where
  "sp_disable K s ctx expected w =
     sp_switch K s ctx expected sp_disable_intent [sp_enabled] seen_enabled
       (\<lambda>c B engine j. sp_native K s c B engine j sp_disable_intent (spb_disable B c (sp_account j))
          (\<lambda>after. ob_validate_for after (sp_account j) True = None \<and> ob_present after \<and> ob_sid after = sp_sid j \<and> ob_disabled after)
          (\<lambda>_. sp_advance (sp_advance j sp_disable_intent) sp_disabled)) w"

definition sp_set_password_disabled ::
  "'w kernel \<Rightarrow> 'w sp_store \<Rightarrow> 'w reading_ctx option \<Rightarrow> u64 \<Rightarrow> string \<Rightarrow> 'w \<Rightarrow> 'w sp_result" where
  "sp_set_password_disabled K s ctx expected secret w =
     (case sps_engine s of
        None \<Rightarrow> (Some (SP_Store ErrClosed), s, w)
      | Some engine \<Rightarrow> (case ctx of
          None \<Rightarrow> (Some SP_Invalid, s, w)
        | Some c \<Rightarrow>
            if \<not> valid_password secret then (Some SP_Invalid, s, w)
            else (case store_load K engine w of
              (Inl e, w1) \<Rightarrow> (Some (SP_Store e), s, w1)
            | (Inr j, w1) \<Rightarrow>
                if expected \<noteq> sp_revision j then (Some SP_Conflict, s, w1)
                else if sp_phase j = sp_review_required then (Some SP_Review, s, w1)
                else if sp_phase j \<in> set sp_intents then sp_review K s engine j w1
                else if sp_phase j \<notin> {sp_no_password, sp_credential_set, sp_disabled} then (Some SP_Conflict, s, w1)
                else (case c w1 of
                  (Some e, w2) \<Rightarrow> (Some (SP_Ctx e), s, w2)
                | (None, w2) \<Rightarrow> (case sps_backend s of
                    None \<Rightarrow> (Some SP_Invalid, s, w2)
                  | Some B \<Rightarrow> (case spb_observe B c (sp_account j) w2 of
                      (None, w3) \<Rightarrow> (Some SP_Observation, s, w3)
                    | (Some observed, w3) \<Rightarrow>
                        if \<not> same_disabled j observed then sp_review K s engine j w3
                        else sp_native K s c B engine j sp_password_intent (spb_set_password B c (sp_account j) secret)
                          (same_disabled j) (\<lambda>_. sp_advance (sp_advance j sp_password_intent) sp_credential_set) w3))))))"

subsection \<open>Valid journals and their document form\<close>

lemma sp_phase_neq [simp]:
  "sp_reserved \<noteq> sp_create_intent" "sp_reserved \<noteq> sp_no_password" "sp_reserved \<noteq> sp_password_intent"
  "sp_reserved \<noteq> sp_credential_set" "sp_reserved \<noteq> sp_enable_intent" "sp_reserved \<noteq> sp_enabled"
  "sp_reserved \<noteq> sp_disable_intent" "sp_reserved \<noteq> sp_disabled" "sp_reserved \<noteq> sp_review_required"
  "sp_create_intent \<noteq> sp_reserved" "sp_create_intent \<noteq> sp_no_password" "sp_create_intent \<noteq> sp_password_intent"
  "sp_create_intent \<noteq> sp_credential_set" "sp_create_intent \<noteq> sp_enable_intent" "sp_create_intent \<noteq> sp_enabled"
  "sp_create_intent \<noteq> sp_disable_intent" "sp_create_intent \<noteq> sp_disabled" "sp_create_intent \<noteq> sp_review_required"
  "sp_no_password \<noteq> sp_reserved" "sp_no_password \<noteq> sp_create_intent" "sp_no_password \<noteq> sp_password_intent"
  "sp_no_password \<noteq> sp_credential_set" "sp_no_password \<noteq> sp_enable_intent" "sp_no_password \<noteq> sp_enabled"
  "sp_no_password \<noteq> sp_disable_intent" "sp_no_password \<noteq> sp_disabled" "sp_no_password \<noteq> sp_review_required"
  "sp_password_intent \<noteq> sp_reserved" "sp_password_intent \<noteq> sp_create_intent" "sp_password_intent \<noteq> sp_no_password"
  "sp_password_intent \<noteq> sp_credential_set" "sp_password_intent \<noteq> sp_enable_intent" "sp_password_intent \<noteq> sp_enabled"
  "sp_password_intent \<noteq> sp_disable_intent" "sp_password_intent \<noteq> sp_disabled" "sp_password_intent \<noteq> sp_review_required"
  "sp_credential_set \<noteq> sp_reserved" "sp_credential_set \<noteq> sp_create_intent" "sp_credential_set \<noteq> sp_no_password"
  "sp_credential_set \<noteq> sp_password_intent" "sp_credential_set \<noteq> sp_enable_intent" "sp_credential_set \<noteq> sp_enabled"
  "sp_credential_set \<noteq> sp_disable_intent" "sp_credential_set \<noteq> sp_disabled" "sp_credential_set \<noteq> sp_review_required"
  "sp_enable_intent \<noteq> sp_reserved" "sp_enable_intent \<noteq> sp_create_intent" "sp_enable_intent \<noteq> sp_no_password"
  "sp_enable_intent \<noteq> sp_password_intent" "sp_enable_intent \<noteq> sp_credential_set" "sp_enable_intent \<noteq> sp_enabled"
  "sp_enable_intent \<noteq> sp_disable_intent" "sp_enable_intent \<noteq> sp_disabled" "sp_enable_intent \<noteq> sp_review_required"
  "sp_enabled \<noteq> sp_reserved" "sp_enabled \<noteq> sp_create_intent" "sp_enabled \<noteq> sp_no_password"
  "sp_enabled \<noteq> sp_password_intent" "sp_enabled \<noteq> sp_credential_set" "sp_enabled \<noteq> sp_enable_intent"
  "sp_enabled \<noteq> sp_disable_intent" "sp_enabled \<noteq> sp_disabled" "sp_enabled \<noteq> sp_review_required"
  "sp_disable_intent \<noteq> sp_reserved" "sp_disable_intent \<noteq> sp_create_intent" "sp_disable_intent \<noteq> sp_no_password"
  "sp_disable_intent \<noteq> sp_password_intent" "sp_disable_intent \<noteq> sp_credential_set" "sp_disable_intent \<noteq> sp_enable_intent"
  "sp_disable_intent \<noteq> sp_enabled" "sp_disable_intent \<noteq> sp_disabled" "sp_disable_intent \<noteq> sp_review_required"
  "sp_disabled \<noteq> sp_reserved" "sp_disabled \<noteq> sp_create_intent" "sp_disabled \<noteq> sp_no_password"
  "sp_disabled \<noteq> sp_password_intent" "sp_disabled \<noteq> sp_credential_set" "sp_disabled \<noteq> sp_enable_intent"
  "sp_disabled \<noteq> sp_enabled" "sp_disabled \<noteq> sp_disable_intent" "sp_disabled \<noteq> sp_review_required"
  "sp_review_required \<noteq> sp_reserved" "sp_review_required \<noteq> sp_create_intent" "sp_review_required \<noteq> sp_no_password"
  "sp_review_required \<noteq> sp_password_intent" "sp_review_required \<noteq> sp_credential_set" "sp_review_required \<noteq> sp_enable_intent"
  "sp_review_required \<noteq> sp_enabled" "sp_review_required \<noteq> sp_disable_intent" "sp_review_required \<noteq> sp_disabled"
  by (simp_all add: sp_phase_defs)

definition sp_sid_rule :: "sp_journal \<Rightarrow> bool" where
  "sp_sid_rule j \<longleftrightarrow>
     (if sid_required (sp_phase j) \<or> sp_phase j = sp_review_required \<and> sp_revision j \<ge> 4 then valid_sid (sp_sid j)
      else sp_sid j = [] \<or> sp_phase j = sp_review_required \<and> sp_revision j = 3 \<and> valid_sid (sp_sid j))"

definition sp_wf :: "sp_journal \<Rightarrow> bool" where
  "sp_wf j \<longleftrightarrow> native_account (sp_account j) \<and> acc_state (sp_account j) = st_disabled \<and>
     sp_format j = sp_format_name \<and> sp_schema_version j = 1 \<and> sp_revision j \<noteq> 0 \<and> sp_native_revision j \<noteq> 0 \<and>
     sp_position (sp_phase j) (sp_revision j) \<and> sp_sid_rule j"

lemma sp_validate_iff: "is_ok (sp_validate j) \<longleftrightarrow> sp_wf j"
proof (cases "sid_required (sp_phase j) \<or> sp_phase j = sp_review_required \<and> sp_revision j \<ge> 4")
  case True
  then show ?thesis unfolding sp_validate_def sp_wf_def sp_sid_rule_def account_alone_iff Let_def if_P [OF True]
    by simp
next
  case False
  then show ?thesis unfolding sp_validate_def sp_wf_def sp_sid_rule_def account_alone_iff Let_def if_not_P [OF False]
    by simp blast
qed

text \<open>A SID is the fixed prefix followed by four canonical decimal numbers.\<close>

lemma join_split_on: "d \<notin> \<Union> (set ` set ws) \<Longrightarrow> ws \<noteq> [] \<Longrightarrow> split_on d (join_with d ws) = ws"
proof (induction d ws rule: join_with.induct)
  case (2 d w)
  then show ?case by (simp add: split_on_single)
next
  case (3 d w v va)
  then show ?case by (simp add: split_on_append split_on_single)
qed simp

lemma sid_part_iff: "sid_part_ok s \<longleftrightarrow> (\<exists>n. 0 < n \<and> n < 2 ^ 32 \<and> s = format_uint n)"
proof
  assume "sid_part_ok s"
  then show "\<exists>n. 0 < n \<and> n < 2 ^ 32 \<and> s = format_uint n"
    using parse_uint_bound [of 32 s] unfolding sid_part_ok_def by (auto split: option.splits)
next
  assume "\<exists>n. 0 < n \<and> n < 2 ^ 32 \<and> s = format_uint n"
  then show "sid_part_ok s" using parse_format_uint [of _ 32] by (auto simp: sid_part_ok_def)
qed

lemma eight_parts:
  "length xs = 8 \<Longrightarrow> xs = [xs ! 0, xs ! 1, xs ! 2, xs ! 3, xs ! 4, xs ! 5, xs ! 6, xs ! 7]"
  by (auto simp: numeral_eq_Suc length_Suc_conv)

lemma valid_sid_iff:
  "valid_sid v \<longleftrightarrow> (\<exists>a b c d. list_all (\<lambda>n. 0 < n \<and> n < 2 ^ 32) [a, b, c, d] \<and>
     v = join_with (CHR ''-'') ([''S'', ''1'', ''5'', ''21''] @ map format_uint [a, b, c, d]))" (is "_ \<longleftrightarrow> ?form")
proof
  assume v: "valid_sid v"
  define ps where "ps = split_on (CHR ''-'') v"
  have len: "length ps = 8" and head: "ps ! 0 = ''S''" "ps ! 1 = ''1''" "ps ! 2 = ''5''" "ps ! 3 = ''21''"
    and ok: "list_all sid_part_ok (drop 4 ps)"
    using v by (auto simp: valid_sid_def Let_def ps_def split: if_splits)
  define e f g h where "e = ps ! 4" and "f = ps ! 5" and "g = ps ! 6" and "h = ps ! 7"
  have parts: "ps = [''S'', ''1'', ''5'', ''21'', e, f, g, h]"
    using eight_parts [OF len] unfolding head e_def f_def g_def h_def .
  have ok: "sid_part_ok e" "sid_part_ok f" "sid_part_ok g" "sid_part_ok h"
    using ok unfolding parts by simp_all
  have "v = join_with (CHR ''-'') [''S'', ''1'', ''5'', ''21'', e, f, g, h]" using join_split [of "CHR ''-''" v] parts unfolding ps_def by simp
  moreover obtain a where "0 < a" "a < 2 ^ 32" "e = format_uint a" using ok(1) unfolding sid_part_iff by blast
  moreover obtain b where "0 < b" "b < 2 ^ 32" "f = format_uint b" using ok(2) unfolding sid_part_iff by blast
  moreover obtain c where "0 < c" "c < 2 ^ 32" "g = format_uint c" using ok(3) unfolding sid_part_iff by blast
  moreover obtain d where "0 < d" "d < 2 ^ 32" "h = format_uint d" using ok(4) unfolding sid_part_iff by blast
  ultimately show ?form by (intro exI [of _ a] exI [of _ b] exI [of _ c] exI [of _ d]) simp
next
  assume ?form
  then obtain a b c d where n: "list_all (\<lambda>n. 0 < n \<and> n < 2 ^ 32) [a, b, c, d]"
    and v: "v = join_with (CHR ''-'') ([''S'', ''1'', ''5'', ''21''] @ map format_uint [a, b, c, d])" by blast
  have "CHR ''-'' \<notin> set (format_uint k)" for k
    using format_uint_digits [of k] by (auto simp: list_all_iff dec_digit_def)
  then have "split_on (CHR ''-'') v = [''S'', ''1'', ''5'', ''21''] @ map format_uint [a, b, c, d]"
    unfolding v by (intro join_split_on) auto
  moreover have "sid_part_ok (format_uint a)" "sid_part_ok (format_uint b)" "sid_part_ok (format_uint c)" "sid_part_ok (format_uint d)"
    using n by (auto simp: sid_part_iff)
  ultimately show "valid_sid v" by (simp add: valid_sid_def Let_def)
qed

lemma valid_sid_plain:
  assumes "valid_sid v"
  shows "list_all (\<lambda>c. html_safe c \<and> (of_char c :: nat) < 128) v \<and> length v \<le> 56 \<and> v \<noteq> []"
proof -
  obtain a b c d where n: "list_all (\<lambda>n. 0 < n \<and> n < 2 ^ 32) [a, b, c, d]"
    and v: "v = join_with (CHR ''-'') ([''S'', ''1'', ''5'', ''21''] @ map format_uint [a, b, c, d])"
    using assms valid_sid_iff by blast
  have digit: "dec_digit x \<Longrightarrow> html_safe x \<and> (of_char x :: nat) < 128" for x by (auto simp: html_safe_def dec_digit_def)
  have plain: "list_all (\<lambda>c. html_safe c \<and> (of_char c :: nat) < 128) (format_uint k)" for k
    using format_uint_digits [of k] digit by (auto simp: list_all_iff)
  have len: "k < 2 ^ 32 \<Longrightarrow> length (format_uint k) \<le> 10" for k by (rule length_format_uint) simp_all
  have "length v \<le> 56" using len [of a] len [of b] len [of c] len [of d] n by (simp add: v)
  moreover have "list_all (\<lambda>c. html_safe c \<and> (of_char c :: nat) < 128) v"
    using plain by (simp add: v html_safe_def)
  ultimately show ?thesis by (simp add: v)
qed

lemma sp_position_valid: "sp_position p n \<Longrightarrow> valid_string p"
  unfolding sp_position_def by (elim disjE conjE) (simp_all add: sp_phase_defs valid_string_ascii ascii_string_def)

lemma sp_sid_valid: "sp_wf j \<Longrightarrow> sp_sid j = [] \<or> valid_sid (sp_sid j)"
  by (auto simp: sp_wf_def sp_sid_rule_def split: if_splits)

lemma valid_sid_string: "valid_sid v \<Longrightarrow> valid_string v"
  using valid_sid_plain [of v] by (auto intro!: valid_string_ascii simp: ascii_string_def list_all_iff)

lemma put_sp_ok:
  assumes "sp_wf j"
  shows "json_ok (put_sp_journal j)"
proof -
  have "json_ok (put_account (sp_account j))" "valid_string (sp_phase j)" "valid_string (sp_sid j)"
    using assms put_native_account_ok sp_position_valid sp_sid_valid [OF assms] valid_sid_string
    by (auto simp: sp_wf_def valid_string_ascii ascii_string_def)
  moreover have "valid_string (sp_format j)"
    using assms by (simp add: sp_wf_def sp_format_name_def valid_string_ascii ascii_string_def)
  ultimately show ?thesis by (simp add: put_sp_journal_def valid_string_ascii ascii_string_def)
qed

lemma put_sp_scan: "scan_value 0 5 (Some sp_keys) (put_sp_journal j)"
  by (simp add: put_sp_journal_def put_account_def scan_keys_iff sp_keys_def put_uint_def put_int_def)

lemma json_sp_put: "sp_wf j \<Longrightarrow> json_sp_journal (put_sp_journal j) = Some j"
  by (cases "sp_sid j") (simp_all add: json_sp_journal_def put_sp_journal_def json_member_def sp_wf_def json_int_put)

lemma sp_decode_iff:
  "sp_decode (Some r) = Inr j \<longleftrightarrow>
     config_decode json_sp_journal r sp_max_bytes 5 (Some sp_keys) = Some j \<and> sp_wf j"
  by (auto simp: sp_decode_def sp_validate_iff split: option.splits)

lemma sp_decode_print:
  "sp_wf j \<Longrightarrow> sp_decode (Some (reader_of (json_print (put_sp_journal j)))) = Inr j' \<Longrightarrow> j' = j"
  using config_decode_print_cases [OF put_sp_ok put_sp_scan, of j json_sp_journal sp_max_bytes]
  by (auto simp: sp_decode_iff json_sp_put)

lemma sp_codec_simps [simp]:
  "codec_decode sp_codec input = Some j \<longleftrightarrow> sp_decode (Some input) = Inr j"
  "codec_validate sp_codec j \<longleftrightarrow> sp_wf j"
  "codec_revision sp_codec = sp_revision"
  "codec_transition sp_codec = None"
  "codec_marshal sp_codec j = Some (json_print (put_sp_journal j))"
  by (auto simp: sp_codec_def sp_validate_iff split: sum.splits)

interpretation sp_doc: doc_codec sp_codec
proof
  show "codec_valid sp_codec" by code_simp
  show "codec_decode sp_codec (bs, True) = None" for bs
    by (simp add: sp_codec_def sp_decode_def config_decode_fails)
  show "codec_validate sp_codec d \<and> codec_revision sp_codec d \<noteq> 0"
    if "codec_decode sp_codec r = Some d" for r d
    using that by (auto simp: sp_decode_iff sp_wf_def)
  show "d' = d" if "codec_validate sp_codec d" "codec_marshal sp_codec d = Some bs"
    "codec_decode sp_codec (reader_of bs) = Some d'" for d bs d'
    using that sp_decode_print by simp
qed

interpretation sp_disk: store_env host_kernel host_files host_fds host_synced host_crash sp_codec
  by unfold_locales

subsection \<open>The phase graph\<close>

definition sp_arcs :: "(string \<times> string) set" where
  "sp_arcs = {(sp_reserved, sp_create_intent), (sp_create_intent, sp_no_password),
     (sp_no_password, sp_password_intent), (sp_credential_set, sp_password_intent), (sp_disabled, sp_password_intent),
     (sp_password_intent, sp_credential_set),
     (sp_credential_set, sp_enable_intent), (sp_disabled, sp_enable_intent), (sp_enable_intent, sp_enabled),
     (sp_enabled, sp_disable_intent), (sp_disable_intent, sp_disabled),
     (sp_reserved, sp_review_required), (sp_create_intent, sp_review_required), (sp_no_password, sp_review_required),
     (sp_password_intent, sp_review_required), (sp_credential_set, sp_review_required),
     (sp_enable_intent, sp_review_required), (sp_enabled, sp_review_required), (sp_disable_intent, sp_review_required),
     (sp_disabled, sp_review_required)}"

definition sp_edge :: "sp_journal option \<Rightarrow> sp_journal option \<Rightarrow> bool" where
  "sp_edge d d' =
     (case (d, d') of
        (None, Some j) \<Rightarrow> sp_wf j \<and> sp_phase j = sp_reserved
      | (Some j, Some j') \<Rightarrow> sp_revision j \<noteq> - 1 \<and> (\<exists>p sid. (sp_phase j, p) \<in> sp_arcs \<and>
          j' = (sp_advance j p)\<lparr>sp_sid := sid\<rparr> \<and>
          (if p = sp_no_password then valid_sid sid else sid = sp_sid j))
      | _ \<Rightarrow> False)"

lemma sp_edge_arc:
  "sp_revision j \<noteq> - 1 \<Longrightarrow> (sp_phase j, p) \<in> sp_arcs \<Longrightarrow> p \<noteq> sp_no_password \<Longrightarrow> sp_edge (Some j) (Some (sp_advance j p))"
  unfolding sp_edge_def prod.case option.case
  by (intro conjI exI [of _ p] exI [of _ "sp_sid j"]) (simp_all add: sp_advance_def)

lemma sp_edge_created:
  "sp_revision j \<noteq> - 1 \<Longrightarrow> sp_phase j = sp_create_intent \<Longrightarrow> valid_sid sid \<Longrightarrow>
     sp_edge (Some j) (Some ((sp_advance j sp_no_password)\<lparr>sp_sid := sid\<rparr>))"
  unfolding sp_edge_def prod.case option.case
  by (intro conjI exI [of _ sp_no_password] exI [of _ sid]) (simp_all add: sp_arcs_def)

text \<open>Revisions count up, and below the last one their parity alternates.\<close>

lemma unat_succ: "n \<noteq> (- 1 :: u64) \<Longrightarrow> unat (n + 1) = unat n + 1"
  using unatSuc [of n] by (simp add: add_eq_0_iff add.commute)

lemma revision_succ:
  fixes n :: u64
  assumes n: "n \<noteq> - 1"
  shows "k \<le> n \<Longrightarrow> k + 1 \<le> n + 1" "n mod 2 = 0 \<Longrightarrow> (n + 1) mod 2 = 1" "n mod 2 = 1 \<Longrightarrow> (n + 1) mod 2 = 0"
    "n + 1 \<noteq> 0"
proof -
  note s = unat_succ [OF n]
  show "n + 1 \<noteq> 0" using n by (simp add: add_eq_0_iff2)
  show "k + 1 \<le> n + 1" if "k \<le> n"
  proof -
    have "k \<noteq> - 1" using that n word_order.extremum_uniqueI by blast
    then show ?thesis using that s unat_succ [of k] by (simp add: word_le_nat_alt)
  qed
  have m: "unat (x mod 2) = unat x mod 2" for x :: u64 by (simp add: unat_mod_distrib)
  show "(n + 1) mod 2 = 1" if "n mod 2 = 0"
    using arg_cong [OF that, of unat] m [of n] m [of "n + 1"] s by (simp add: word_unat_eq_iff) presburger
  show "(n + 1) mod 2 = 0" if "n mod 2 = 1"
    using arg_cong [OF that, of unat] m [of n] m [of "n + 1"] s by (simp add: word_unat_eq_iff) presburger
qed

lemma sp_position_unat:
  "sp_position p n \<longleftrightarrow>
     p = sp_reserved \<and> unat n = 1 \<or> p = sp_create_intent \<and> unat n = 2 \<or> p = sp_no_password \<and> unat n = 3 \<or>
     p = sp_password_intent \<and> unat n \<ge> 4 \<and> unat n mod 2 = 0 \<or> p = sp_credential_set \<and> unat n \<ge> 5 \<and> unat n mod 2 = 1 \<or>
     p = sp_enable_intent \<and> unat n \<ge> 6 \<and> unat n mod 2 = 0 \<or> p = sp_enabled \<and> unat n \<ge> 7 \<and> unat n mod 2 = 1 \<or>
     p = sp_disable_intent \<and> unat n \<ge> 8 \<and> unat n mod 2 = 0 \<or> p = sp_disabled \<and> unat n \<ge> 9 \<and> unat n mod 2 = 1 \<or>
     p = sp_review_required \<and> unat n \<ge> 2"
proof -
  have "unat (n mod 2) = unat n mod 2" by (simp add: unat_mod_distrib)
  then have "n mod 2 = 0 \<longleftrightarrow> unat n mod 2 = 0" "n mod 2 = 1 \<longleftrightarrow> unat n mod 2 = 1"
    by (simp_all add: word_unat_eq_iff)
  then show ?thesis by (simp only: sp_position_def word_le_nat_alt) (simp add: word_unat_eq_iff)
qed

lemma sp_arc_position:
  assumes "(p, q) \<in> sp_arcs" "sp_position p n" "n \<noteq> - 1"
  shows "sp_position q (n + 1)"
  using assms(1,2) unfolding sp_position_unat unat_succ [OF assms(3)] sp_arcs_def insert_iff empty_iff prod.inject
  by (elim disjE conjE) (simp_all, presburger+)

lemma sp_arc_sid:
  assumes "(p, q) \<in> sp_arcs" "q \<noteq> sp_no_password" "sp_position p n" "n \<noteq> - 1"
  shows "sid_required q \<or> q = sp_review_required \<and> n + 1 \<ge> 4 \<longleftrightarrow> sid_required p"
  using assms(1-3) unfolding sp_position_unat word_le_nat_alt unat_succ [OF assms(4)] sp_arcs_def insert_iff empty_iff prod.inject
  by (elim disjE conjE) (simp_all add: sid_required_def)

lemma sp_edge_wf:
  assumes "sp_edge (Some j) (Some j')" "sp_wf j"
  shows "sp_wf j'"
proof -
  obtain p sid where n: "sp_revision j \<noteq> - 1" and arc: "(sp_phase j, p) \<in> sp_arcs"
    and j': "j' = (sp_advance j p)\<lparr>sp_sid := sid\<rparr>"
    and sid: "if p = sp_no_password then valid_sid sid else sid = sp_sid j"
    using assms(1) unfolding sp_edge_def prod.case option.case by blast
  have pos: "sp_position (sp_phase j) (sp_revision j)" using assms(2) by (simp add: sp_wf_def)
  have rule: "sp_sid_rule j" using assms(2) by (simp add: sp_wf_def)
  have "sp_sid_rule j'"
  proof (cases "p = sp_no_password")
    case True
    then show ?thesis using sid by (simp add: sp_sid_rule_def j' sp_advance_def sid_required_def)
  next
    case False
    have review: "sp_phase j \<noteq> sp_review_required" using arc by (auto simp: sp_arcs_def)
    show ?thesis using rule sid False review sp_arc_sid [OF arc False pos n]
      by (simp add: sp_sid_rule_def j' sp_advance_def split: if_splits)
  qed
  then show ?thesis using assms(2) sp_arc_position [OF arc pos n] revision_succ(4) [OF n]
    by (simp add: sp_wf_def j' sp_advance_def)
qed

lemma sp_phases:
  "sp_wf j \<Longrightarrow> sp_phase j = sp_review_required \<or> (sp_phase j, sp_review_required) \<in> sp_arcs"
  unfolding sp_wf_def sp_position_def sp_arcs_def by (elim conjE disjE) simp_all

text \<open>What a chain of transitions keeps.\<close>

definition sp_follows :: "sp_journal \<Rightarrow> sp_journal \<Rightarrow> bool" where
  "sp_follows j j' \<longleftrightarrow> sp_account j' = sp_account j \<and> sp_native_revision j' = sp_native_revision j \<and>
     (sp_sid j \<noteq> [] \<longrightarrow> sp_sid j' = sp_sid j) \<and> sp_revision j \<le> sp_revision j' \<and>
     (sp_phase j = sp_review_required \<or> sp_revision j = sp_revision j' \<longrightarrow> j' = j)"

lemma sp_edge_follows:
  assumes "sp_edge (Some j) (Some j')" "sp_wf j"
  shows "sp_follows j j' \<and> unat (sp_revision j') = unat (sp_revision j) + 1"
proof -
  obtain p sid where n: "sp_revision j \<noteq> - 1" and arc: "(sp_phase j, p) \<in> sp_arcs"
    and j': "j' = (sp_advance j p)\<lparr>sp_sid := sid\<rparr>"
    and sid: "if p = sp_no_password then valid_sid sid else sid = sp_sid j"
    using assms(1) unfolding sp_edge_def prod.case option.case by blast
  have "sp_sid j = []" if "p = sp_no_password"
  proof -
    have "sp_phase j = sp_create_intent" using arc that by (auto simp: sp_arcs_def)
    then show ?thesis using assms(2) by (simp add: sp_wf_def sp_sid_rule_def sid_required_def)
  qed
  moreover have "sp_phase j \<noteq> sp_review_required" using arc by (auto simp: sp_arcs_def)
  moreover have "unat (sp_revision j') = unat (sp_revision j) + 1" using unat_succ [OF n] by (simp add: j' sp_advance_def)
  ultimately show ?thesis using sid
    by (auto simp: sp_follows_def j' sp_advance_def word_le_nat_alt split: if_splits)
qed

lemma sp_follows_trans: "sp_follows a b \<Longrightarrow> sp_follows b c \<Longrightarrow> sp_follows a c"
  unfolding sp_follows_def by (auto dest: order_antisym)

lemma sp_edges_follow:
  assumes "sp_edge\<^sup>*\<^sup>* d d'" and "d = Some j" and "sp_wf j"
  shows "\<exists>j'. d' = Some j' \<and> sp_wf j' \<and> sp_follows j j'"
  using assms(1)
proof (induction rule: rtranclp_induct)
  case base
  then show ?case using assms(2,3) by (simp add: sp_follows_def)
next
  case (step y z)
  then obtain a where a: "y = Some a" "sp_wf a" "sp_follows j a" by blast
  obtain b where b: "z = Some b" using step(2) a by (cases z) (auto simp: sp_edge_def)
  show ?case using sp_edge_follows [of a b] sp_edge_wf [of a b] sp_follows_trans [of j a b] a b step(2) by blast
qed

subsection \<open>What a call may do to the journal\<close>

definition sp_codec_ok :: "'w sp_store \<Rightarrow> bool" where
  "sp_codec_ok s \<longleftrightarrow> (\<forall>engine. sps_engine s = Some engine \<longrightarrow> store_codec engine = sp_codec)"

text \<open>A context and a backend that do not touch the directory of the journal.\<close>

definition sp_quiet ::
  "('w \<Rightarrow> string \<Rightarrow> string option) \<Rightarrow> ('w \<Rightarrow> string \<Rightarrow> bool) \<Rightarrow> ('w \<Rightarrow> string \<Rightarrow> string option set) \<Rightarrow>
   'w sp_backend \<Rightarrow> 'w reading_ctx \<Rightarrow> bool" where
  "sp_quiet dv syn cr B c \<longleftrightarrow> (\<forall>w.
     keeps dv syn cr {} w (snd (c w)) \<and>
     (\<forall>a. keeps dv syn cr {} w (snd (spb_observe B c a w)) \<and>
          keeps dv syn cr {} w (snd (spb_create_disabled B c a w)) \<and>
          (\<forall>secret. keeps dv syn cr {} w (snd (spb_set_password B c a secret w))) \<and>
          keeps dv syn cr {} w (snd (spb_enable B c a w)) \<and>
          keeps dv syn cr {} w (snd (spb_disable B c a w))))"

locale sp_env = store_env K dv fv syn cr sp_codec
  for K :: "'w kernel" and dv fv syn cr +
  fixes B :: "'w sp_backend" and c :: "'w reading_ctx"
  assumes quiet: "sp_quiet dv syn cr B c"
begin

abbreviation still :: "'w \<Rightarrow> 'w \<Rightarrow> bool" where
  "still \<equiv> keeps dv syn cr {}"

lemma ctx_quiet: "c w = (e, w') \<Longrightarrow> still w w'"
  using quiet by (metis sp_quiet_def snd_conv)

lemma observe_quiet: "spb_observe B c a w = (x, w') \<Longrightarrow> still w w'"
  using quiet by (metis sp_quiet_def snd_conv)

lemma create_quiet: "spb_create_disabled B c a w = (x, w') \<Longrightarrow> still w w'"
  using quiet by (metis sp_quiet_def snd_conv)

lemma password_quiet: "spb_set_password B c a secret w = (x, w') \<Longrightarrow> still w w'"
  using quiet by (metis sp_quiet_def snd_conv)

lemma enable_quiet: "spb_enable B c a w = (x, w') \<Longrightarrow> still w w'"
  using quiet by (metis sp_quiet_def snd_conv)

lemma disable_quiet: "spb_disable B c a w = (x, w') \<Longrightarrow> still w w'"
  using quiet by (metis sp_quiet_def snd_conv)

definition fits :: "'w sp_store \<Rightarrow> 'w \<Rightarrow> 'w sp_result \<Rightarrow> bool" where
  "fits s w out \<longleftrightarrow> evolves dv cr sp_codec sp_edge w (snd (snd out)) \<and> sp_codec_ok (fst (snd out)) \<and>
     sps_backend (fst (snd out)) = sps_backend s"

lemma fits_after: "still w w1 \<Longrightarrow> fits s w1 out \<Longrightarrow> fits s w out"
  using keeps_evolves evolves_trans by (metis fits_def)

lemma fits_same: "sp_codec_ok s \<Longrightarrow> still w w' \<Longrightarrow> fits s w (x, s, w')"
  using keeps_evolves by (simp add: fits_def)

lemma fits_commit:
  assumes "store_codec engine = sp_codec" "e \<noteq> - 1 \<Longrightarrow> sp_edge (doc_at dv sp_codec w) (Some x)"
  shows "fits s w (sp_commit K s engine e x w)"
proof -
  obtain r engine' w' where c: "store_commit K engine e x w = (r, engine', w')" by (metis prod.collapse)
  from commit_edge [where R = sp_edge, OF c assms] show ?thesis
    by (simp add: fits_def sp_commit_def c sp_codec_ok_def)
qed

lemma fits_review:
  assumes "store_codec engine = sp_codec" "doc_at dv sp_codec w = Some j" "(sp_phase j, sp_review_required) \<in> sp_arcs"
  shows "fits s w (sp_review K s engine j w)"
proof -
  obtain r engine' w' where c: "store_commit K engine (sp_revision j) (sp_advance j sp_review_required) w = (r, engine', w')"
    by (metis prod.collapse)
  have "sp_revision j \<noteq> - 1 \<Longrightarrow> sp_edge (doc_at dv sp_codec w) (Some (sp_advance j sp_review_required))"
    using sp_edge_arc [OF _ assms(3)] assms(2) by simp
  from commit_edge [where R = sp_edge, OF c assms(1) this] show ?thesis
    by (simp add: fits_def sp_review_def c sp_codec_ok_def)
qed

lemma fits_after_intent:
  assumes "store_codec engine = sp_codec" "doc_at dv sp_codec w = Some intent"
    "(sp_phase intent, sp_review_required) \<in> sp_arcs"
    and cmd: "\<And>w x w'. command w = (x, w') \<Longrightarrow> still w w'"
    and conf: "\<And>ob. sp_revision intent \<noteq> - 1 \<Longrightarrow> good ob \<Longrightarrow> sp_edge (Some intent) (Some (confirmed ob))"
  shows "fits s w (sp_after_intent K s c B engine intent command good confirmed w)"
proof -
  have rev: "fits s w (sp_review K s engine intent w')" if "still w w'" for w'
    by (rule fits_after [OF that], rule fits_review) (use assms keeps_doc [OF that] in auto)
  obtain e1 w1 where 1: "c w = (e1, w1)" by (rule prod.exhaust)
  note k1 = ctx_quiet [OF 1]
  obtain ok w2 where 2: "command w1 = (ok, w2)" by (rule prod.exhaust)
  have k2: "still w w2" using k1 cmd [OF 2] by (rule keep_trans)
  obtain e3 w3 where 3: "c w2 = (e3, w3)" by (rule prod.exhaust)
  have k3: "still w w3" using k2 ctx_quiet [OF 3] by (rule keep_trans)
  obtain ob w4 where 4: "spb_observe B c (sp_account intent) w3 = (ob, w4)" by (rule prod.exhaust)
  have k4: "still w w4" using k3 observe_quiet [OF 4] by (rule keep_trans)
  have ok: "fits s w (sp_commit K s engine (sp_revision intent) (confirmed x) w4)" if "good x" for x
    by (rule fits_after [OF k4], rule fits_commit [OF assms(1)]) (use conf [OF _ that] keeps_doc [OF k4] assms(2) in simp)
  show ?thesis using rev [OF k1] rev [OF k2] rev [OF k3] rev [OF k4] ok
    by (auto simp: sp_after_intent_def 1 2 3 4 split: bool.splits option.splits)
qed

lemma fits_native:
  assumes "store_codec engine = sp_codec" "doc_at dv sp_codec w = Some j"
    "(sp_phase j, p) \<in> sp_arcs" "(p, sp_review_required) \<in> sp_arcs" "p \<noteq> sp_no_password"
    and cmd: "\<And>w x w'. command w = (x, w') \<Longrightarrow> still w w'"
    and conf: "\<And>ob. sp_revision (sp_advance j p) \<noteq> - 1 \<Longrightarrow> good ob \<Longrightarrow> sp_edge (Some (sp_advance j p)) (Some (confirmed ob))"
  shows "fits s w (sp_native K s c B engine j p command good confirmed w)"
proof -
  obtain r engine' w1 where c: "store_commit K engine (sp_revision j) (sp_advance j p) w = (r, engine', w1)"
    by (metis prod.collapse)
  have "sp_revision j \<noteq> - 1 \<Longrightarrow> sp_edge (doc_at dv sp_codec w) (Some (sp_advance j p))"
    using sp_edge_arc [OF _ assms(3,5)] assms(2) by simp
  note e = commit_edge [where R = sp_edge, OF c assms(1) this]
  show ?thesis
  proof (cases r)
    case None
    have "fits s w1 (sp_after_intent K s c B engine' (sp_advance j p) command good confirmed w1)"
      by (rule fits_after_intent) (use None e cmd conf assms(4) in \<open>auto simp: sp_advance_def\<close>)
    then show ?thesis using e None c by (auto simp: sp_native_def fits_def intro: evolves_trans)
  next
    case (Some x)
    then show ?thesis using e c by (simp add: sp_native_def fits_def sp_codec_ok_def)
  qed
qed

lemma fits_step_phase:
  assumes "sp_codec_ok s" "store_codec engine = sp_codec" "doc_at dv sp_codec w = Some j"
    "(sp_phase j, sp_review_required) \<in> sp_arcs"
  shows "fits s w (sp_step_phase K s c B engine j ob w)"
proof -
  note rev = fits_review [OF assms(2-4)]
  have same: "fits s w (x, s, w)" for x using fits_same [OF assms(1)] by simp
  have "fits s w (sp_native K s c B engine j sp_create_intent (spb_create_disabled B c (sp_account j))
      (\<lambda>after. ob_validate_for after (sp_account j) True = None \<and> ob_present after)
      (\<lambda>after. (sp_advance (sp_advance j sp_create_intent) sp_no_password)\<lparr>sp_sid := ob_sid after\<rparr>) w)"
    if "sp_phase j = sp_reserved"
  proof (rule fits_native [OF assms(2,3)])
    show "(sp_phase j, sp_create_intent) \<in> sp_arcs" "(sp_create_intent, sp_review_required) \<in> sp_arcs"
      using that by (simp_all add: sp_arcs_def)
    show "sp_edge (Some (sp_advance j sp_create_intent))
        (Some ((sp_advance (sp_advance j sp_create_intent) sp_no_password)\<lparr>sp_sid := ob_sid x\<rparr>))"
      if "sp_revision (sp_advance j sp_create_intent) \<noteq> - 1" "ob_validate_for x (sp_account j) True = None \<and> ob_present x" for x
      by (rule sp_edge_created) (use that in \<open>auto simp: sp_advance_def ob_validate_for_def split: if_splits\<close>)
  qed (use create_quiet in simp_all)
  then show ?thesis using rev [of s] same by (simp add: sp_step_phase_def)
qed

lemma fits_step:
  assumes s: "sp_codec_ok s" "sps_backend s = Some B \<or> sps_backend s = None"
  shows "fits s w (sp_step K s (Some c) e w)"
proof (cases "sps_engine s")
  case None
  then show ?thesis using fits_same [OF s(1)] by (simp add: sp_step_def)
next
  case (Some engine)
  have codec: "store_codec engine = sp_codec" using s Some by (simp add: sp_codec_ok_def)
  obtain l w1 where 1: "store_load K engine w = (l, w1)" by (rule prod.exhaust)
  note k = load_keeps [OF 1 codec]
  then have k1: "still w w1" by (rule conjunct1)
  have same: "fits s w (x, s, w')" if "still w w'" for x w' using fits_same [OF s(1) that] .
  show ?thesis
  proof (cases l)
    case (Inl x)
    then show ?thesis using same [OF k1] by (simp add: sp_step_def Some 1)
  next
    case (Inr j)
    then have d: "doc_at dv sp_codec w1 = Some j" using k by simp
    then have wf: "sp_wf j" using doc_valid by simp
    obtain e2 w2 where 2: "c w1 = (e2, w2)" by (rule prod.exhaust)
    have k2: "still w w2" using k1 ctx_quiet [OF 2] by (rule keep_trans)
    obtain ob w3 where 3: "spb_observe B c (sp_account j) w2 = (ob, w3)" by (rule prod.exhaust)
    have k3: "still w w3" using k2 observe_quiet [OF 3] by (rule keep_trans)
    have d3: "doc_at dv sp_codec w3 = Some j"
      using d keeps_doc [OF ctx_quiet [OF 2]] keeps_doc [OF observe_quiet [OF 3]] by simp
    have go: "fits s w (sp_review K s engine j w1)" "\<And>x. fits s w (sp_step_phase K s c B engine j x w3)"
      if "sp_phase j \<noteq> sp_review_required"
      using fits_after [OF k1 fits_review [OF codec d]] fits_after [OF k3 fits_step_phase [OF s(1) codec d3]]
        sp_phases [OF wf] that by auto
    show ?thesis using s(2)
    proof
      assume b: "sps_backend s = Some B"
      show ?thesis using go same [OF k1] same [OF k2] same [OF k3]
        by (cases "sp_phase j = sp_review_required") (simp_all add: sp_step_def Some 1 2 3 Inr b split: option.splits)
    next
      assume b: "sps_backend s = None"
      show ?thesis using go same [OF k1] same [OF k2]
        by (cases "sp_phase j = sp_review_required") (simp_all add: sp_step_def Some 1 2 Inr b split: option.splits)
    qed
  qed
qed

lemma fits_switch:
  assumes s: "sp_codec_ok s" "sps_backend s = Some B \<or> sps_backend s = None"
    and p: "p \<noteq> sp_review_required" "sp_review_required \<notin> set from"
    and go: "\<And>engine j w. store_codec engine = sp_codec \<Longrightarrow> doc_at dv sp_codec w = Some j \<Longrightarrow> sp_phase j \<in> set from \<Longrightarrow>
      fits s w (go c B engine j w)"
  shows "fits s w (sp_switch K s (Some c) e p from st go w)"
proof (cases "sps_engine s")
  case None
  then show ?thesis using fits_same [OF s(1)] by (simp add: sp_switch_def)
next
  case (Some engine)
  have codec: "store_codec engine = sp_codec" using s Some by (simp add: sp_codec_ok_def)
  obtain l w1 where 1: "store_load K engine w = (l, w1)" by (rule prod.exhaust)
  note k = load_keeps [OF 1 codec]
  then have k1: "still w w1" by (rule conjunct1)
  have same: "fits s w (x, s, w')" if "still w w'" for x w' using fits_same [OF s(1) that] .
  show ?thesis
  proof (cases l)
    case (Inl x)
    then show ?thesis using same [OF k1] by (simp add: sp_switch_def Some 1)
  next
    case (Inr j)
    then have d: "doc_at dv sp_codec w1 = Some j" using k by simp
    then have wf: "sp_wf j" using doc_valid by simp
    obtain e2 w2 where 2: "c w1 = (e2, w2)" by (rule prod.exhaust)
    have k2: "still w w2" using k1 ctx_quiet [OF 2] by (rule keep_trans)
    obtain ob w3 where 3: "spb_observe B c (sp_account j) w2 = (ob, w3)" by (rule prod.exhaust)
    have k3: "still w w3" using k2 observe_quiet [OF 3] by (rule keep_trans)
    obtain e4 w4 where 4: "c w3 = (e4, w4)" by (rule prod.exhaust)
    have k4: "still w w4" using k3 ctx_quiet [OF 4] by (rule keep_trans)
    have d3: "doc_at dv sp_codec w3 = Some j" and d4: "doc_at dv sp_codec w4 = Some j"
      using d keeps_doc [OF ctx_quiet [OF 2]] keeps_doc [OF observe_quiet [OF 3]] keeps_doc [OF ctx_quiet [OF 4]] by simp_all
    have rev: "fits s w (sp_review K s engine j w1)" "fits s w (sp_review K s engine j w3)"
      if "sp_phase j \<noteq> sp_review_required"
      using fits_after [OF k1 fits_review [OF codec d]] fits_after [OF k3 fits_review [OF codec d3]] sp_phases [OF wf] that by auto
    have run: "fits s w (go c B engine j w4)" if "sp_phase j \<in> set from"
      by (rule fits_after [OF k4 go [OF codec d4 that]])
    show ?thesis using s(2)
    proof
      assume b: "sps_backend s = Some B"
      show ?thesis using rev run same [OF k1] same [OF k2] same [OF k3] same [OF k4] p
        by (cases "sp_phase j = sp_review_required") (simp_all add: sp_switch_def Some 1 2 3 4 Inr b split: option.splits)
    next
      assume b: "sps_backend s = None"
      show ?thesis using rev same [OF k1] same [OF k2] p
        by (cases "sp_phase j = sp_review_required") (simp_all add: sp_switch_def Some 1 2 Inr b split: option.splits)
    qed
  qed
qed

lemma fits_enable:
  assumes s: "sp_codec_ok s" "sps_backend s = Some B \<or> sps_backend s = None"
  shows "fits s w (sp_enable K s (Some c) e w)"
  unfolding sp_enable_def
proof (rule fits_switch [OF s])
  fix engine :: "sp_journal store" and j w
  assume a: "store_codec engine = sp_codec" "doc_at dv sp_codec w = Some j" "sp_phase j \<in> set [sp_credential_set, sp_disabled]"
  show "fits s w (sp_native K s c B engine j sp_enable_intent (spb_enable B c (sp_account j)) (seen_enabled j)
      (\<lambda>_. sp_advance (sp_advance j sp_enable_intent) sp_enabled) w)"
  proof (rule fits_native [OF a(1,2)])
    show "(sp_phase j, sp_enable_intent) \<in> sp_arcs" using a(3) by (auto simp: sp_arcs_def)
    show "sp_edge (Some (sp_advance j sp_enable_intent)) (Some (sp_advance (sp_advance j sp_enable_intent) sp_enabled))"
      if "sp_revision (sp_advance j sp_enable_intent) \<noteq> - 1"
      by (rule sp_edge_arc [OF that]) (simp_all add: sp_advance_def sp_arcs_def)
  qed (use enable_quiet in \<open>simp_all add: sp_arcs_def\<close>)
qed simp_all

lemma fits_disable:
  assumes s: "sp_codec_ok s" "sps_backend s = Some B \<or> sps_backend s = None"
  shows "fits s w (sp_disable K s (Some c) e w)"
  unfolding sp_disable_def
proof (rule fits_switch [OF s])
  fix engine :: "sp_journal store" and j w
  assume a: "store_codec engine = sp_codec" "doc_at dv sp_codec w = Some j" "sp_phase j \<in> set [sp_enabled]"
  show "fits s w (sp_native K s c B engine j sp_disable_intent (spb_disable B c (sp_account j))
      (\<lambda>after. ob_validate_for after (sp_account j) True = None \<and> ob_present after \<and> ob_sid after = sp_sid j \<and> ob_disabled after)
      (\<lambda>_. sp_advance (sp_advance j sp_disable_intent) sp_disabled) w)"
  proof (rule fits_native [OF a(1,2)])
    show "(sp_phase j, sp_disable_intent) \<in> sp_arcs" using a(3) by (auto simp: sp_arcs_def)
    show "sp_edge (Some (sp_advance j sp_disable_intent)) (Some (sp_advance (sp_advance j sp_disable_intent) sp_disabled))"
      if "sp_revision (sp_advance j sp_disable_intent) \<noteq> - 1"
      by (rule sp_edge_arc [OF that]) (simp_all add: sp_advance_def sp_arcs_def)
  qed (use disable_quiet in \<open>simp_all add: sp_arcs_def\<close>)
qed simp_all

lemma fits_password_native:
  assumes a: "store_codec engine = sp_codec" "doc_at dv sp_codec w = Some j"
    "sp_phase j \<in> {sp_no_password, sp_credential_set, sp_disabled}"
  shows "fits s w (sp_native K s c B engine j sp_password_intent (spb_set_password B c (sp_account j) secret)
    (same_disabled j) (\<lambda>_. sp_advance (sp_advance j sp_password_intent) sp_credential_set) w)"
proof (rule fits_native [OF a(1,2)])
  show "(sp_phase j, sp_password_intent) \<in> sp_arcs" using a(3) by (auto simp: sp_arcs_def)
  show "sp_edge (Some (sp_advance j sp_password_intent)) (Some (sp_advance (sp_advance j sp_password_intent) sp_credential_set))"
    if "sp_revision (sp_advance j sp_password_intent) \<noteq> - 1"
    by (rule sp_edge_arc [OF that]) (simp_all add: sp_advance_def sp_arcs_def)
qed (use password_quiet in \<open>simp_all add: sp_arcs_def\<close>)

lemma fits_set_password:
  assumes s: "sp_codec_ok s" "sps_backend s = Some B \<or> sps_backend s = None"
  shows "fits s w (sp_set_password_disabled K s (Some c) e secret w)"
proof (cases "sps_engine s")
  case None
  then show ?thesis using fits_same [OF s(1)] by (simp add: sp_set_password_disabled_def)
next
  case (Some engine)
  have codec: "store_codec engine = sp_codec" using s Some by (simp add: sp_codec_ok_def)
  obtain l w1 where 1: "store_load K engine w = (l, w1)" by (rule prod.exhaust)
  note k = load_keeps [OF 1 codec]
  then have k1: "still w w1" by (rule conjunct1)
  have same: "fits s w (x, s, w')" if "still w w'" for x w' using fits_same [OF s(1) that] .
  show ?thesis
  proof (cases l)
    case (Inl x)
    then show ?thesis using same [OF k1] same [of w] by (simp add: sp_set_password_disabled_def Some 1)
  next
    case (Inr j)
    then have d: "doc_at dv sp_codec w1 = Some j" using k by simp
    then have wf: "sp_wf j" using doc_valid by simp
    obtain e2 w2 where 2: "c w1 = (e2, w2)" by (rule prod.exhaust)
    have k2: "still w w2" using k1 ctx_quiet [OF 2] by (rule keep_trans)
    obtain ob w3 where 3: "spb_observe B c (sp_account j) w2 = (ob, w3)" by (rule prod.exhaust)
    have k3: "still w w3" using k2 observe_quiet [OF 3] by (rule keep_trans)
    have d3: "doc_at dv sp_codec w3 = Some j"
      using d keeps_doc [OF ctx_quiet [OF 2]] keeps_doc [OF observe_quiet [OF 3]] by simp
    have rev: "fits s w (sp_review K s engine j w1)" "fits s w (sp_review K s engine j w3)"
      if "sp_phase j \<noteq> sp_review_required"
      using fits_after [OF k1 fits_review [OF codec d]] fits_after [OF k3 fits_review [OF codec d3]] sp_phases [OF wf] that by auto
    note run = fits_after [OF k3 fits_password_native [OF codec d3]]
    show ?thesis using s(2)
    proof
      assume b: "sps_backend s = Some B"
      show ?thesis using rev run same [of w] same [OF k1] same [OF k2] same [OF k3]
        by (cases "sp_phase j = sp_review_required")
          (simp_all add: sp_set_password_disabled_def Some 1 2 3 Inr b split: option.splits)
    next
      assume b: "sps_backend s = None"
      show ?thesis using rev same [of w] same [OF k1] same [OF k2]
        by (cases "sp_phase j = sp_review_required")
          (simp_all add: sp_set_password_disabled_def Some 1 2 Inr b split: option.splits)
    qed
  qed
qed

lemma fits_begin:
  assumes s: "sp_codec_ok s" "sps_backend s = Some B \<or> sps_backend s = None"
  shows "fits s w (sp_begin K s (Some c) nr a w)"
proof (cases "sps_engine s")
  case None
  then show ?thesis using fits_same [OF s(1)] by (simp add: sp_begin_def)
next
  case (Some engine)
  have codec: "store_codec engine = sp_codec" using s Some by (simp add: sp_codec_ok_def)
  obtain e1 w1 where 1: "c w = (e1, w1)" by (rule prod.exhaust)
  note k1 = ctx_quiet [OF 1]
  obtain ob w2 where 2: "spb_observe B c a w1 = (ob, w2)" by (rule prod.exhaust)
  have k2: "still w w2" using k1 observe_quiet [OF 2] by (rule keep_trans)
  obtain e3 w3 where 3: "c w2 = (e3, w3)" by (rule prod.exhaust)
  have k3: "still w w3" using k2 ctx_quiet [OF 3] by (rule keep_trans)
  have same: "fits s w (x, s, w')" if "still w w'" for x w' using fits_same [OF s(1) that] .
  have run: "fits s w (sp_commit K s engine 0 (sp_first nr a) w3)" if "is_ok (sp_validate (sp_first nr a))"
  proof -
    have edge: "sp_edge None (Some (sp_first nr a))"
      using that by (simp add: sp_edge_def sp_validate_iff) (simp add: sp_first_def)
    obtain x engine' w' where cm: "store_commit K engine 0 (sp_first nr a) w3 = (x, engine', w')" by (metis prod.collapse)
    from commit_first [where R = sp_edge, OF cm codec edge] show ?thesis
      by (intro fits_after [OF k3]) (simp add: fits_def sp_commit_def cm sp_codec_ok_def)
  qed
  show ?thesis using s(2)
  proof
    assume b: "sps_backend s = Some B"
    show ?thesis using run same [of w] same [OF k1] same [OF k2] same [OF k3]
      by (simp add: sp_begin_def Some 1 2 3 b split: option.splits)
  next
    assume b: "sps_backend s = None"
    show ?thesis using same [of w] by (simp add: sp_begin_def Some b)
  qed
qed

lemma observe_review_keeps:
  assumes s: "sp_codec_ok s" "sps_backend s = Some B \<or> sps_backend s = None"
  shows "still w (snd (sp_observe_review K s (Some c) w))"
proof (cases "sps_engine s")
  case (Some engine)
  have codec: "store_codec engine = sp_codec" using s Some by (simp add: sp_codec_ok_def)
  obtain e1 w1 where 1: "c w = (e1, w1)" by (rule prod.exhaust)
  note k1 = ctx_quiet [OF 1]
  obtain l w2 where 2: "store_load K engine w1 = (l, w2)" by (rule prod.exhaust)
  have k2: "still w w2" using k1 conjunct1 [OF load_keeps [OF 2 codec]] by (rule keep_trans)
  have k3: "still w w3" if "spb_observe B c a w2 = (ob, w3)" for a ob w3
    using k2 observe_quiet [OF that] by (rule keep_trans)
  have k4: "still w w4" if "spb_observe B c a w2 = (ob, w3)" "c w3 = (e, w4)" for a ob w3 e w4
    using k3 [OF that(1)] ctx_quiet [OF that(2)] by (rule keep_trans)
  show ?thesis using s(2) k1 k2 k3 k4
    by (auto simp: sp_observe_review_def Some 1 2 split: option.splits sum.splits prod.splits)
qed (simp add: sp_observe_review_def)

end

subsection \<open>Commands run only under a durable intent\<close>

text \<open>The worlds in which the journal durably records an intent for an account.\<close>

definition sp_durable ::
  "('w \<Rightarrow> string \<Rightarrow> string option) \<Rightarrow> ('w \<Rightarrow> string \<Rightarrow> string option set) \<Rightarrow> string \<Rightarrow> account \<Rightarrow> 'w \<Rightarrow> bool" where
  "sp_durable dv cr p a w \<longleftrightarrow>
     (\<exists>j. doc_at dv sp_codec w = Some j \<and> settled dv cr sp_codec w \<and> sp_phase j = p \<and> sp_account j = a)"

text \<open>Two backends that may differ, but not where the matching intent is durable.\<close>

definition sp_agree ::
  "('w \<Rightarrow> string \<Rightarrow> string option) \<Rightarrow> ('w \<Rightarrow> string \<Rightarrow> string option set) \<Rightarrow> 'w reading_ctx \<Rightarrow>
   'w sp_backend \<Rightarrow> 'w sp_backend \<Rightarrow> bool" where
  "sp_agree dv cr c B B' \<longleftrightarrow> spb_observe B' = spb_observe B \<and> (\<forall>a w.
     (sp_durable dv cr sp_create_intent a w \<longrightarrow> spb_create_disabled B' c a w = spb_create_disabled B c a w) \<and>
     (sp_durable dv cr sp_password_intent a w \<longrightarrow> (\<forall>x. spb_set_password B' c a x w = spb_set_password B c a x w)) \<and>
     (sp_durable dv cr sp_enable_intent a w \<longrightarrow> spb_enable B' c a w = spb_enable B c a w) \<and>
     (sp_durable dv cr sp_disable_intent a w \<longrightarrow> spb_disable B' c a w = spb_disable B c a w))"

definition sp_outcome :: "'w sp_result \<Rightarrow> sp_error option \<times> sp_journal store option \<times> 'w" where
  "sp_outcome out = (fst out, sps_engine (fst (snd out)), snd (snd out))"

lemma outcome_review: "sp_outcome (sp_review K s' engine j w) = sp_outcome (sp_review K s engine j w)"
  by (simp add: sp_outcome_def sp_review_def split: prod.splits)

lemma outcome_commit: "sp_outcome (sp_commit K s' engine e x w) = sp_outcome (sp_commit K s engine e x w)"
  by (simp add: sp_outcome_def sp_commit_def split: prod.splits)

lemma outcome_same: "sps_engine s' = sps_engine s \<Longrightarrow> sp_outcome (x, s', w) = sp_outcome (x, s, w)"
  by (simp add: sp_outcome_def)

context sp_env
begin

lemma settled_still: "settled dv cr C' w \<Longrightarrow> still w w' \<Longrightarrow> settled dv cr C' w'"
  by (auto simp: settled_def keeps_def)

lemma after_intent_agrees:
  assumes obs: "spb_observe B' = spb_observe B" and cmd: "\<And>w1. still w w1 \<Longrightarrow> command' w1 = command w1"
  shows "sp_outcome (sp_after_intent K s' c B' engine intent command' good confirmed w) =
    sp_outcome (sp_after_intent K s c B engine intent command good confirmed w)"
proof -
  obtain e1 w1 where 1: "c w = (e1, w1)" by (rule prod.exhaust)
  show ?thesis unfolding sp_after_intent_def obs 1 prod.case cmd [OF ctx_quiet [OF 1]]
    by (simp add: outcome_review [of K s' _ _ _ s] outcome_commit [of K s' _ _ _ _ s]
        split: option.splits bool.splits prod.splits)
qed

lemma native_agrees:
  assumes codec: "store_codec engine = sp_codec" and d: "doc_at dv sp_codec w = Some j"
    and arc: "(sp_phase j, p) \<in> sp_arcs" "p \<noteq> sp_no_password" and obs: "spb_observe B' = spb_observe B"
    and cmd: "\<And>w. sp_durable dv cr p (sp_account j) w \<Longrightarrow> command' w = command w"
  shows "sp_outcome (sp_native K s' c B' engine j p command' good confirmed w) =
    sp_outcome (sp_native K s c B engine j p command good confirmed w)"
proof -
  obtain r engine' w1 where cm: "store_commit K engine (sp_revision j) (sp_advance j p) w = (r, engine', w1)"
    by (metis prod.collapse)
  have "sp_revision j \<noteq> - 1 \<Longrightarrow> sp_edge (doc_at dv sp_codec w) (Some (sp_advance j p))"
    using sp_edge_arc [OF _ arc] d by simp
  note e = commit_edge [where R = sp_edge, OF cm codec this]
  have "command' w2 = command w2" if "r = None" "still w1 w2" for w2
  proof (rule cmd)
    have "doc_at dv sp_codec w2 = Some (sp_advance j p)" "settled dv cr sp_codec w2"
      using e that keeps_doc [OF that(2)] settled_still [of sp_codec w1 w2] by simp_all
    then show "sp_durable dv cr p (sp_account j) w2" by (simp add: sp_durable_def sp_advance_def)
  qed
  then have "sp_outcome (sp_after_intent K s' c B' engine' (sp_advance j p) command' good confirmed w1) =
      sp_outcome (sp_after_intent K s c B engine' (sp_advance j p) command good confirmed w1)" if "r = None"
    using after_intent_agrees [OF obs, of w1 command' command] that by blast
  then show ?thesis by (cases r) (simp_all add: sp_native_def cm sp_outcome_def)
qed

lemma step_agrees:
  assumes s: "sp_codec_ok s" "sps_backend s = Some B" "sps_backend s' = Some B'" "sps_engine s' = sps_engine s"
    and agree: "sp_agree dv cr c B B'"
  shows "sp_outcome (sp_step K s' (Some c) e w) = sp_outcome (sp_step K s (Some c) e w)"
proof (cases "sps_engine s")
  case None
  then show ?thesis using s(4) by (simp add: sp_step_def sp_outcome_def)
next
  case (Some engine)
  have codec: "store_codec engine = sp_codec" using s Some by (simp add: sp_codec_ok_def)
  have obs: "spb_observe B' = spb_observe B" using agree by (simp add: sp_agree_def)
  obtain l w1 where 1: "store_load K engine w = (l, w1)" by (rule prod.exhaust)
  show ?thesis
  proof (cases l)
    case (Inl x)
    then show ?thesis using s(4) Some by (simp add: sp_step_def 1 sp_outcome_def)
  next
    case (Inr j)
    obtain e2 w2 where 2: "c w1 = (e2, w2)" by (rule prod.exhaust)
    obtain ob w3 where 3: "spb_observe B c (sp_account j) w2 = (ob, w3)" by (rule prod.exhaust)
    have "doc_at dv sp_codec w3 = Some j"
      using load_keeps [OF 1 codec] Inr keeps_doc [OF ctx_quiet [OF 2]] keeps_doc [OF observe_quiet [OF 3]] by simp
    note native = native_agrees [OF codec this _ _ obs]
    have "sp_outcome (sp_native K s' c B' engine j sp_create_intent (spb_create_disabled B' c (sp_account j)) g f w3) =
        sp_outcome (sp_native K s c B engine j sp_create_intent (spb_create_disabled B c (sp_account j)) g f w3)"
      if "sp_phase j = sp_reserved" for g f
      by (rule native) (use agree that in \<open>simp_all add: sp_arcs_def sp_agree_def\<close>)
    then have "sp_outcome (sp_step_phase K s' c B' engine j x w3) = sp_outcome (sp_step_phase K s c B engine j x w3)" for x
      using s(4) Some by (simp add: sp_step_phase_def outcome_review [of K s' _ _ _ s] outcome_same [of s' s])
    then show ?thesis
      by (simp add: sp_step_def s Some 1 2 3 Inr obs outcome_review [of K s' _ _ _ s] outcome_same [of s' s] split: option.splits)
  qed
qed

lemma switch_agrees:
  assumes s: "sp_codec_ok s" "sps_backend s = Some B" "sps_backend s' = Some B'" "sps_engine s' = sps_engine s"
    and obs: "spb_observe B' = spb_observe B"
    and go: "\<And>engine j w. store_codec engine = sp_codec \<Longrightarrow> doc_at dv sp_codec w = Some j \<Longrightarrow> sp_phase j \<in> set from \<Longrightarrow>
      sp_outcome (go' c B' engine j w) = sp_outcome (go c B engine j w)"
  shows "sp_outcome (sp_switch K s' (Some c) e p from st go' w) = sp_outcome (sp_switch K s (Some c) e p from st go w)"
proof (cases "sps_engine s")
  case None
  then show ?thesis using s(4) by (simp add: sp_switch_def sp_outcome_def)
next
  case (Some engine)
  have codec: "store_codec engine = sp_codec" using s Some by (simp add: sp_codec_ok_def)
  obtain l w1 where 1: "store_load K engine w = (l, w1)" by (rule prod.exhaust)
  show ?thesis
  proof (cases l)
    case (Inl x)
    then show ?thesis using s(4) Some by (simp add: sp_switch_def 1 sp_outcome_def)
  next
    case (Inr j)
    obtain e2 w2 where 2: "c w1 = (e2, w2)" by (rule prod.exhaust)
    obtain ob w3 where 3: "spb_observe B c (sp_account j) w2 = (ob, w3)" by (rule prod.exhaust)
    obtain e4 w4 where 4: "c w3 = (e4, w4)" by (rule prod.exhaust)
    have d: "doc_at dv sp_codec w4 = Some j"
      using load_keeps [OF 1 codec] Inr keeps_doc [OF ctx_quiet [OF 2]] keeps_doc [OF observe_quiet [OF 3]]
        keeps_doc [OF ctx_quiet [OF 4]] by simp
    show ?thesis using go [OF codec d]
      by (simp add: sp_switch_def s Some 1 2 3 4 Inr obs outcome_review [of K s' _ _ _ s] outcome_same [of s' s] split: option.splits)
  qed
qed

lemma enable_agrees:
  assumes s: "sp_codec_ok s" "sps_backend s = Some B" "sps_backend s' = Some B'" "sps_engine s' = sps_engine s"
    and agree: "sp_agree dv cr c B B'"
  shows "sp_outcome (sp_enable K s' (Some c) e w) = sp_outcome (sp_enable K s (Some c) e w)"
  unfolding sp_enable_def
  by (rule switch_agrees [OF s], use agree in \<open>simp add: sp_agree_def\<close>, rule native_agrees)
    (use agree in \<open>auto simp: sp_agree_def sp_arcs_def\<close>)

lemma disable_agrees:
  assumes s: "sp_codec_ok s" "sps_backend s = Some B" "sps_backend s' = Some B'" "sps_engine s' = sps_engine s"
    and agree: "sp_agree dv cr c B B'"
  shows "sp_outcome (sp_disable K s' (Some c) e w) = sp_outcome (sp_disable K s (Some c) e w)"
  unfolding sp_disable_def
  by (rule switch_agrees [OF s], use agree in \<open>simp add: sp_agree_def\<close>, rule native_agrees)
    (use agree in \<open>auto simp: sp_agree_def sp_arcs_def\<close>)

lemma password_agrees:
  assumes s: "sp_codec_ok s" "sps_backend s = Some B" "sps_backend s' = Some B'" "sps_engine s' = sps_engine s"
    and agree: "sp_agree dv cr c B B'"
  shows "sp_outcome (sp_set_password_disabled K s' (Some c) e x w) = sp_outcome (sp_set_password_disabled K s (Some c) e x w)"
proof (cases "sps_engine s")
  case None
  then show ?thesis using s(4) by (simp add: sp_set_password_disabled_def sp_outcome_def)
next
  case (Some engine)
  have codec: "store_codec engine = sp_codec" using s Some by (simp add: sp_codec_ok_def)
  have obs: "spb_observe B' = spb_observe B" using agree by (simp add: sp_agree_def)
  obtain l w1 where 1: "store_load K engine w = (l, w1)" by (rule prod.exhaust)
  show ?thesis
  proof (cases l)
    case (Inl x)
    then show ?thesis using s(4) Some by (simp add: sp_set_password_disabled_def 1 sp_outcome_def)
  next
    case (Inr j)
    obtain e2 w2 where 2: "c w1 = (e2, w2)" by (rule prod.exhaust)
    obtain ob w3 where 3: "spb_observe B c (sp_account j) w2 = (ob, w3)" by (rule prod.exhaust)
    have d: "doc_at dv sp_codec w3 = Some j"
      using load_keeps [OF 1 codec] Inr keeps_doc [OF ctx_quiet [OF 2]] keeps_doc [OF observe_quiet [OF 3]] by simp
    have "sp_outcome (sp_native K s' c B' engine j sp_password_intent (spb_set_password B' c (sp_account j) x)
        (same_disabled j) (\<lambda>_. sp_advance (sp_advance j sp_password_intent) sp_credential_set) w3) =
      sp_outcome (sp_native K s c B engine j sp_password_intent (spb_set_password B c (sp_account j) x)
        (same_disabled j) (\<lambda>_. sp_advance (sp_advance j sp_password_intent) sp_credential_set) w3)"
      if "sp_phase j = sp_no_password \<or> sp_phase j = sp_credential_set \<or> sp_phase j = sp_disabled"
      by (rule native_agrees [OF codec d _ _ obs]) (use agree that in \<open>auto simp: sp_agree_def sp_arcs_def\<close>)
    then show ?thesis
      by (simp add: sp_set_password_disabled_def s Some 1 2 3 Inr obs outcome_review [of K s' _ _ _ s] outcome_same [of s' s]
          split: option.splits)
  qed
qed

end

subsection \<open>Confirmed outcomes\<close>

lemma sp_review_fails [simp]: "sp_review K s engine j w \<noteq> (None, s', w')"
  by (simp add: sp_review_def split: prod.splits)

lemma sp_commit_ok:
  "sp_commit K s engine e x w = (None, s', w') \<longleftrightarrow>
     (\<exists>engine'. store_commit K engine e x w = (None, engine', w') \<and> s' = s\<lparr>sps_engine := Some engine'\<rparr>)"
  by (auto simp: sp_commit_def split: prod.splits)

context sp_env
begin

lemma after_intent_success:
  assumes ok: "sp_after_intent K s c B engine intent command good confirmed w = (None, s', w')"
    and codec: "store_codec engine = sp_codec" and d: "doc_at dv sp_codec w = Some intent"
    and cmd: "\<And>w x w'. command w = (x, w') \<Longrightarrow> still w w'"
    and conf: "\<And>ob. sp_revision intent \<noteq> - 1 \<Longrightarrow> good ob \<Longrightarrow> sp_edge (Some intent) (Some (confirmed ob))"
  shows "\<exists>x w1 w2 w3 w4. command w1 = (True, w2) \<and> c w2 = (None, w3) \<and>
    spb_observe B c (sp_account intent) w3 = (Some x, w4) \<and> good x \<and>
    doc_at dv sp_codec w' = Some (confirmed x) \<and> settled dv cr sp_codec w'"
proof -
  obtain e1 w1 where 1: "c w = (e1, w1)" by (rule prod.exhaust)
  obtain b w2 where 2: "command w1 = (b, w2)" by (rule prod.exhaust)
  obtain e3 w3 where 3: "c w2 = (e3, w3)" by (rule prod.exhaust)
  obtain ob w4 where 4: "spb_observe B c (sp_account intent) w3 = (ob, w4)" by (rule prod.exhaust)
  have "e1 = None" "b" "e3 = None"
    using ok by (auto simp: sp_after_intent_def 1 2 3 split: option.splits bool.splits)
  moreover obtain x where x: "ob = Some x" "good x"
      "sp_commit K s engine (sp_revision intent) (confirmed x) w4 = (None, s', w')"
    using ok by (auto simp: sp_after_intent_def 1 2 3 4 split: option.splits bool.splits if_splits)
  moreover obtain engine' where cm: "store_commit K engine (sp_revision intent) (confirmed x) w4 = (None, engine', w')"
    using x(3) by (auto simp: sp_commit_ok)
  have "still w w4" using ctx_quiet [OF 1] cmd [OF 2] ctx_quiet [OF 3] observe_quiet [OF 4] by (iprover intro: keep_trans)
  then have "doc_at dv sp_codec w4 = Some intent" using keeps_doc d by simp
  then have "sp_revision intent \<noteq> - 1 \<Longrightarrow> sp_edge (doc_at dv sp_codec w4) (Some (confirmed x))" using conf x(2) by simp
  from commit_edge [where R = sp_edge, OF cm codec this]
  have "doc_at dv sp_codec w' = Some (confirmed x)" "settled dv cr sp_codec w'" by simp_all
  ultimately show ?thesis using 2 3 4
    by (intro exI [of _ x] exI [of _ w1] exI [of _ w2] exI [of _ w3] exI [of _ w4] conjI) simp_all
qed

lemma native_success:
  assumes ok: "sp_native K s c B engine j p command good confirmed w = (None, s', w')"
    and codec: "store_codec engine = sp_codec" and d: "doc_at dv sp_codec w = Some j"
    and arc: "(sp_phase j, p) \<in> sp_arcs" "p \<noteq> sp_no_password"
    and cmd: "\<And>w x w'. command w = (x, w') \<Longrightarrow> still w w'"
    and conf: "\<And>ob. sp_revision (sp_advance j p) \<noteq> - 1 \<Longrightarrow> good ob \<Longrightarrow> sp_edge (Some (sp_advance j p)) (Some (confirmed ob))"
  shows "\<exists>x w1 w2 w3 w4. command w1 = (True, w2) \<and> c w2 = (None, w3) \<and>
    spb_observe B c (sp_account j) w3 = (Some x, w4) \<and> good x \<and>
    doc_at dv sp_codec w' = Some (confirmed x) \<and> settled dv cr sp_codec w'"
proof -
  obtain r engine' w1 where cm: "store_commit K engine (sp_revision j) (sp_advance j p) w = (r, engine', w1)"
    by (metis prod.collapse)
  have r: "r = None" and a: "sp_after_intent K s c B engine' (sp_advance j p) command good confirmed w1 = (None, s', w')"
    using ok by (auto simp: sp_native_def cm split: option.splits)
  have "sp_revision j \<noteq> - 1 \<Longrightarrow> sp_edge (doc_at dv sp_codec w) (Some (sp_advance j p))"
    using sp_edge_arc [OF _ arc] d by simp
  note e = commit_edge [where R = sp_edge, OF cm codec this]
  have "sp_account (sp_advance j p) = sp_account j" by (simp add: sp_advance_def)
  then show ?thesis using after_intent_success [OF a _ _ cmd conf] e r by auto
qed

lemma switch_success:
  assumes ok: "sp_switch K s (Some c) e p from st go w = (None, s', w')" and s: "sp_codec_ok s" "sps_backend s = Some B"
  obtains j engine w1 ob where "doc_at dv sp_codec w = Some j" "doc_at dv sp_codec w1 = Some j" "e = sp_revision j"
    "sp_phase j \<in> set from" "store_codec engine = sp_codec" "st j ob" "go c B engine j w1 = (None, s', w')"
proof -
  obtain engine where engine: "sps_engine s = Some engine" using ok by (cases "sps_engine s") (auto simp: sp_switch_def)
  have codec: "store_codec engine = sp_codec" using s engine by (simp add: sp_codec_ok_def)
  obtain l w1 where 1: "store_load K engine w = (l, w1)" by (rule prod.exhaust)
  obtain j where j: "l = Inr j" using ok by (cases l) (auto simp: sp_switch_def engine 1)
  have d: "doc_at dv sp_codec w = Some j" "doc_at dv sp_codec w1 = Some j"
    using load_keeps [OF 1 codec] j keeps_doc [of w w1] by simp_all
  obtain e2 w2 where 2: "c w1 = (e2, w2)" by (rule prod.exhaust)
  obtain ob w3 where 3: "spb_observe B c (sp_account j) w2 = (ob, w3)" by (rule prod.exhaust)
  obtain e4 w4 where 4: "c w3 = (e4, w4)" by (rule prod.exhaust)
  have "doc_at dv sp_codec w4 = Some j"
    using d keeps_doc [OF ctx_quiet [OF 2]] keeps_doc [OF observe_quiet [OF 3]] keeps_doc [OF ctx_quiet [OF 4]] by simp
  moreover have "e = sp_revision j" "sp_phase j \<in> set from" "\<exists>x. ob = Some x \<and> st j x" "go c B engine j w4 = (None, s', w')"
    using ok
    by (auto simp: sp_switch_def engine 1 2 3 4 j s(2) split: if_splits option.splits)
  ultimately show thesis using that d(1) codec by blast
qed

lemma enable_success:
  assumes ok: "sp_enable K s (Some c) e w = (None, s', w')" and s: "sp_codec_ok s" "sps_backend s = Some B"
  shows "\<exists>j x w1 w2 w3 w4. doc_at dv sp_codec w = Some j \<and> e = sp_revision j \<and>
    sp_phase j \<in> {sp_credential_set, sp_disabled} \<and>
    spb_enable B c (sp_account j) w1 = (True, w2) \<and> c w2 = (None, w3) \<and>
    spb_observe B c (sp_account j) w3 = (Some x, w4) \<and> seen_enabled j x \<and>
    doc_at dv sp_codec w' = Some (sp_advance (sp_advance j sp_enable_intent) sp_enabled) \<and> settled dv cr sp_codec w'"
proof -
  obtain j engine w1 where d: "doc_at dv sp_codec w = Some j" "doc_at dv sp_codec w1 = Some j" "e = sp_revision j"
    and p: "sp_phase j \<in> set [sp_credential_set, sp_disabled]" and codec: "store_codec engine = sp_codec"
    and n: "sp_native K s c B engine j sp_enable_intent (spb_enable B c (sp_account j)) (seen_enabled j)
      (\<lambda>_. sp_advance (sp_advance j sp_enable_intent) sp_enabled) w1 = (None, s', w')"
    by (rule switch_success [OF ok [unfolded sp_enable_def] s])
  have "\<exists>x w1 w2 w3 w4. spb_enable B c (sp_account j) w1 = (True, w2) \<and> c w2 = (None, w3) \<and>
    spb_observe B c (sp_account j) w3 = (Some x, w4) \<and> seen_enabled j x \<and>
    doc_at dv sp_codec w' = Some (sp_advance (sp_advance j sp_enable_intent) sp_enabled) \<and> settled dv cr sp_codec w'"
  proof (rule native_success [OF n codec d(2)])
    show "(sp_phase j, sp_enable_intent) \<in> sp_arcs" using p by (auto simp: sp_arcs_def)
    show "sp_edge (Some (sp_advance j sp_enable_intent)) (Some (sp_advance (sp_advance j sp_enable_intent) sp_enabled))"
      if "sp_revision (sp_advance j sp_enable_intent) \<noteq> - 1"
      by (rule sp_edge_arc [OF that]) (simp_all add: sp_advance_def sp_arcs_def)
  qed (use enable_quiet in simp_all)
  then show ?thesis using d p by auto
qed

end

subsection \<open>Sequences of calls\<close>

datatype 'w sp_call =
    SP_Begin "'w reading_ctx" u64 account
  | SP_Step "'w reading_ctx" u64
  | SP_Enable "'w reading_ctx" u64
  | SP_Disable "'w reading_ctx" u64
  | SP_Set_Password "'w reading_ctx" u64 string
  | SP_Recover
  | SP_Observe_Review "'w reading_ctx"
  | SP_Load
  | SP_Close

definition sp_exec :: "'w kernel \<Rightarrow> 'w sp_call \<Rightarrow> 'w sp_store \<Rightarrow> 'w \<Rightarrow> 'w sp_store \<times> 'w" where
  "sp_exec K call s w =
     (case call of
        SP_Begin c nr a \<Rightarrow> snd (sp_begin K s (Some c) nr a w)
      | SP_Step c e \<Rightarrow> snd (sp_step K s (Some c) e w)
      | SP_Enable c e \<Rightarrow> snd (sp_enable K s (Some c) e w)
      | SP_Disable c e \<Rightarrow> snd (sp_disable K s (Some c) e w)
      | SP_Set_Password c e secret \<Rightarrow> snd (sp_set_password_disabled K s (Some c) e secret w)
      | SP_Recover \<Rightarrow> snd (sp_recover_interrupted K s w)
      | SP_Observe_Review c \<Rightarrow> (s, snd (sp_observe_review K s (Some c) w))
      | SP_Load \<Rightarrow> (s, snd (sp_load K s w))
      | SP_Close \<Rightarrow> snd (sp_close K s w))"

fun sp_run :: "'w kernel \<Rightarrow> 'w sp_call list \<Rightarrow> 'w sp_store \<Rightarrow> 'w \<Rightarrow> 'w sp_store \<times> 'w" where
  "sp_run K [] s w = (s, w)"
| "sp_run K (x # xs) s w = (case sp_exec K x s w of (s1, w1) \<Rightarrow> sp_run K xs s1 w1)"

definition call_ctx :: "'w sp_call \<Rightarrow> 'w reading_ctx option" where
  "call_ctx call =
     (case call of SP_Begin c _ _ \<Rightarrow> Some c | SP_Step c _ \<Rightarrow> Some c | SP_Enable c _ \<Rightarrow> Some c | SP_Disable c _ \<Rightarrow> Some c
      | SP_Set_Password c _ _ \<Rightarrow> Some c | SP_Observe_Review c \<Rightarrow> Some c | _ \<Rightarrow> None)"

definition quiet_calls :: "('n \<times> disk) sp_backend \<Rightarrow> ('n \<times> disk) sp_call list \<Rightarrow> bool" where
  "quiet_calls B calls \<longleftrightarrow> (\<forall>x \<in> set calls. \<forall>c. call_ctx x = Some c \<longrightarrow> sp_quiet host_files host_synced host_crash B c)"

lemma host_sp_env:
  "sp_quiet host_files host_synced host_crash B c \<Longrightarrow>
     sp_env host_kernel host_files host_fds host_synced host_crash B c"
  by (intro sp_env.intro sp_env_axioms.intro sp_disk.store_env_axioms)

text \<open>The invariant of a run: the documents evolve, the store keeps its codec and its backend.\<close>

definition sp_moves :: "('n \<times> disk) sp_store \<Rightarrow> 'n \<times> disk \<Rightarrow> ('n \<times> disk) sp_store \<times> 'n \<times> disk \<Rightarrow> bool" where
  "sp_moves s w out \<longleftrightarrow> evolves host_files host_crash sp_codec sp_edge w (snd out) \<and> sp_codec_ok (fst out) \<and>
     sps_backend (fst out) = sps_backend s"

lemma sp_moves_fits:
  fixes s :: "('n \<times> disk) sp_store" and B :: "('n \<times> disk) sp_backend"
  assumes "sp_quiet host_files host_synced host_crash B c"
    and "sp_env.fits host_files host_crash s w out"
  shows "sp_moves s w (snd out)"
  using assms(2) unfolding sp_env.fits_def [OF host_sp_env [OF assms(1)]] sp_moves_def by simp

lemma sp_moves_keeps:
  fixes s :: "('n \<times> disk) sp_store"
  shows "keeps host_files host_synced host_crash {} w w' \<Longrightarrow> sp_codec_ok s' \<Longrightarrow> sps_backend s' = sps_backend s \<Longrightarrow> sp_moves s w (s', w')"
  using sp_disk.keeps_evolves [of w w'] by (simp add: sp_moves_def)

lemma sp_recover_moves:
  fixes s :: "('n \<times> disk) sp_store"
  assumes s: "sp_codec_ok s"
  shows "sp_moves s w (snd (sp_recover_interrupted host_kernel s w))"
proof (cases "sps_engine s")
  case None
  then show ?thesis using sp_moves_keeps [of w w s s] s by (simp add: sp_recover_interrupted_def)
next
  case (Some engine)
  have codec: "store_codec engine = sp_codec" using s Some by (simp add: sp_codec_ok_def)
  obtain l w1 where 1: "store_load host_kernel engine w = (l, w1)" by (rule prod.exhaust)
  note k = sp_disk.load_keeps [OF 1 codec]
  have same: "sp_moves s w (s, w1)" by (rule sp_moves_keeps) (use k s in simp_all)
  show ?thesis
  proof (cases l)
    case (Inl x)
    then show ?thesis using same by (simp add: sp_recover_interrupted_def Some 1)
  next
    case (Inr j)
    obtain r engine' w2 where cm: "store_commit host_kernel engine (sp_revision j) (sp_advance j sp_review_required) w1 = (r, engine', w2)"
      by (metis prod.collapse)
    have d: "doc_at host_files sp_codec w1 = Some j" using k Inr by simp
    have "sp_moves s w (s\<lparr>sps_engine := Some engine'\<rparr>, w2)" if "sp_phase j \<in> set sp_intents"
    proof -
      have "(sp_phase j, sp_review_required) \<in> sp_arcs" using that by (auto simp: sp_intents_def sp_arcs_def)
      then have "sp_revision j \<noteq> - 1 \<Longrightarrow> sp_edge (doc_at host_files sp_codec w1) (Some (sp_advance j sp_review_required))"
        using sp_edge_arc d by simp
      from sp_disk.commit_edge [where R = sp_edge, OF cm codec this] sp_disk.keeps_evolves [OF conjunct1 [OF k]]
      show ?thesis by (auto simp: sp_moves_def sp_codec_ok_def intro: evolves_trans)
    qed
    then show ?thesis using same by (cases r) (simp_all add: sp_recover_interrupted_def Some 1 Inr cm)
  qed
qed

lemma sp_exec_moves:
  fixes s :: "('n \<times> disk) sp_store"
  assumes "sp_codec_ok s" "sps_backend s = Some B \<or> sps_backend s = None" "quiet_calls B [call]"
  shows "sp_moves s w (sp_exec host_kernel call s w)"
proof (cases "call_ctx call")
  case (Some c)
  then have q: "sp_quiet host_files host_synced host_crash B c" using assms(3) by (simp add: quiet_calls_def)
  note env = host_sp_env [OF q]
  note fits = sp_env.fits_begin [OF env assms(1,2)] sp_env.fits_step [OF env assms(1,2)] sp_env.fits_enable [OF env assms(1,2)]
    sp_env.fits_disable [OF env assms(1,2)] sp_env.fits_set_password [OF env assms(1,2)]
  show ?thesis
    using Some sp_moves_fits [OF q fits(1)] sp_moves_fits [OF q fits(2)] sp_moves_fits [OF q fits(3)] sp_moves_fits [OF q fits(4)]
      sp_moves_fits [OF q fits(5)] sp_moves_keeps [OF sp_env.observe_review_keeps [OF env assms(1,2)] assms(1)]
    by (cases call) (simp_all add: call_ctx_def sp_exec_def)
next
  case None
  have load: "sp_moves s w (s, snd (sp_load host_kernel s w))"
  proof (cases "sps_engine s")
    case (Some engine)
    then have "keeps host_files host_synced host_crash {} w (snd (store_load host_kernel engine w))"
      using sp_disk.load_keeps [of engine w] assms(1) by (simp add: sp_codec_ok_def) (metis prod.collapse)
    from sp_moves_keeps [OF this assms(1)] show ?thesis using Some by (simp add: sp_load_def)
  qed (use sp_moves_keeps [of w w] assms(1) in \<open>simp add: sp_load_def\<close>)
  have close: "sp_moves s w (snd (sp_close host_kernel s w))"
  proof (cases "sps_engine s")
    case (Some engine)
    obtain e x w1 where 1: "store_close host_kernel engine w = (e, x, w1)" by (metis prod.collapse)
    show ?thesis using sp_moves_keeps [OF sp_disk.store_close_keeps [OF 1], of "s\<lparr>sps_engine := None\<rparr>" s]
      by (simp add: sp_close_def Some 1 sp_codec_ok_def)
  qed (use sp_moves_keeps [of w w] assms(1) in \<open>simp add: sp_close_def\<close>)
  show ?thesis using None load close sp_recover_moves [OF assms(1)]
    by (cases call) (simp_all add: call_ctx_def sp_exec_def)
qed

lemma sp_run_moves:
  "sp_codec_ok s \<Longrightarrow> sps_backend s = Some B \<or> sps_backend s = None \<Longrightarrow> quiet_calls B calls \<Longrightarrow>
     sp_moves s w (sp_run host_kernel calls s w)"
proof (induction calls arbitrary: s w)
  case Nil
  then show ?case by (simp add: sp_moves_def)
next
  case (Cons x xs)
  obtain s1 w1 where 1: "sp_exec host_kernel x s w = (s1, w1)" by (rule prod.exhaust)
  have m: "sp_moves s w (s1, w1)"
    using sp_exec_moves [OF Cons.prems(1,2), of x w] Cons.prems(3) by (simp add: quiet_calls_def 1)
  have "sp_moves s1 w1 (sp_run host_kernel xs s1 w1)"
    by (rule Cons.IH) (use Cons.prems m in \<open>simp_all add: quiet_calls_def sp_moves_def\<close>)
  then show ?case using m by (auto simp: 1 sp_moves_def intro: evolves_trans)
qed

subsection \<open>A whole enrollment\<close>

lemma length_put_sp:
  assumes "sp_wf j"
  shows "int (length (json_print (put_sp_journal j))) \<le> sp_max_bytes"
proof -
  have "account_wf (acc_uid (sp_account j)) (acc_uid (sp_account j)) (sp_account j)"
    using assms by (simp add: sp_wf_def native_account_def account_wf_def)
  note a = length_put_account [OF this]
  have "sp_position (sp_phase j) (sp_revision j)" using assms by (simp add: sp_wf_def)
  then have p: "length (print_string (sp_phase j)) \<le> 40"
    unfolding sp_position_def by (elim disjE conjE) (simp_all add: sp_phase_defs print_string_plain html_safe_def)
  have s: "length (print_string (sp_sid j)) \<le> 58"
  proof (cases "sp_sid j = []")
    case False
    then have "valid_sid (sp_sid j)" using sp_sid_valid [OF assms] by blast
    from valid_sid_plain [OF this] show ?thesis by (simp add: print_string_plain list_all_iff)
  qed (simp add: print_string_plain)
  show ?thesis
    using assms a p s length_put_u64 [of "sp_revision j"] length_put_u64 [of "sp_native_revision j"]
    by (simp add: put_sp_journal_def sp_wf_def sp_format_name_def print_string_plain html_safe_def
        sp_max_bytes_def put_int_def format_uint.simps)
qed

lemma sp_decode_marshal: "sp_wf j \<Longrightarrow> sp_decode (Some (reader_of (json_print (put_sp_journal j)))) = Inr j"
  using config_decode_print [OF put_sp_ok put_sp_scan length_put_sp, of j json_sp_journal] json_sp_put [of j]
  by (simp add: sp_decode_iff sp_max_bytes_def)

definition sp_engine :: "sp_journal store" where
  "sp_engine = \<lparr>store_ready = True, store_closed = False, store_uncertain = False,
     store_noatime = False, store_codec = sp_codec\<rparr>"

lemma sp_commit_calm:
  assumes "calm w" "holds_doc sp_codec w d" "sp_wf x" "expected = doc_revision sp_codec d" "expected \<noteq> - 1"
    "sp_revision x = expected + 1"
  shows "\<exists>w'. store_commit host_kernel sp_engine expected x (n, w) = (None, sp_engine, n, w') \<and>
    calm w' \<and> holds_doc sp_codec w' (Some x)"
proof -
  have "codec_max_bytes sp_codec = sp_max_bytes" by (simp add: sp_codec_def)
  then have "\<exists>w'. store_commit disk_kernel sp_engine expected x w = (None, sp_engine, w') \<and> calm w' \<and>
      holds_doc sp_codec w' (Some x)"
    by (intro commit_calm [OF assms(1,2) _ _ sp_doc.doc_codec_axioms])
      (use assms length_put_sp sp_decode_marshal in \<open>simp_all add: sp_engine_def store_check_def\<close>)
  then show ?thesis by (auto simp: store_commit_beside)
qed

lemma sp_load_calm:
  assumes "calm w" "holds_doc sp_codec w (Some x)"
  shows "\<exists>w'. store_load host_kernel sp_engine (n, w) = (Inr x, n, w') \<and> calm w' \<and> holds_doc sp_codec w' (Some x)"
  using store_load_calm [OF assms, of sp_engine] by (auto simp: store_load_beside sp_engine_def store_check_def)

lemma sp_edge_revision: "sp_edge (Some j) (Some j') \<Longrightarrow> sp_revision j' = sp_revision j + 1"
  by (auto simp: sp_edge_def sp_advance_def)

text \<open>One native transition on a disk without faults, when the command does what it should.\<close>

lemma native_calm:
  assumes w: "calm w" "holds_doc sp_codec w (Some j)" and j: "sp_wf j" and rev: "sp_revision j \<noteq> - 1"
    and arc: "(sp_phase j, p) \<in> sp_arcs" "p \<noteq> sp_no_password"
    and cmd: "\<And>v. command (n, v) = (True, n', v)"
    and obs: "\<And>v. spb_observe B no_deadline (sp_account j) (n', v) = (Some x, n', v)" and good: "good x"
    and conf: "sp_edge (Some (sp_advance j p)) (Some (confirmed x))"
  shows "\<exists>w'. sp_native host_kernel s no_deadline B sp_engine j p command good confirmed (n, w) =
      (None, s\<lparr>sps_engine := Some sp_engine\<rparr>, n', w') \<and> calm w' \<and> holds_doc sp_codec w' (Some (confirmed x))"
proof -
  note edge = sp_edge_arc [OF rev arc]
  have wf: "sp_wf (sp_advance j p)" "sp_wf (confirmed x)"
    using sp_edge_wf [OF edge j] sp_edge_wf [OF conf] by simp_all
  have rev2: "sp_revision (sp_advance j p) \<noteq> - 1"
    using conf by (auto simp: sp_edge_def)
  obtain w1 where 1: "store_commit host_kernel sp_engine (sp_revision j) (sp_advance j p) (n, w) = (None, sp_engine, n, w1)"
    "calm w1" "holds_doc sp_codec w1 (Some (sp_advance j p))"
    using sp_commit_calm [OF w wf(1), of "sp_revision j" n] rev by (auto simp: doc_revision_def sp_advance_def)
  obtain w2 where 2: "store_commit host_kernel sp_engine (sp_revision (sp_advance j p)) (confirmed x) (n', w1) =
      (None, sp_engine, n', w2)" "calm w2" "holds_doc sp_codec w2 (Some (confirmed x))"
    using sp_commit_calm [OF 1(2,3) wf(2), of "sp_revision (sp_advance j p)" n'] rev2 sp_edge_revision [OF conf]
    by (auto simp: doc_revision_def)
  have acc: "sp_account (sp_advance j p) = sp_account j" by (simp add: sp_advance_def)
  show ?thesis using 2(2,3) good
    by (simp add: sp_native_def 1(1) sp_after_intent_def no_deadline_def [of "(n, w1)"] no_deadline_def [of "(n', w1)"]
        cmd acc obs sp_commit_def 2(1))
qed

text \<open>A host whose Samba database is a list of entries, and commands that edit it.\<close>

definition samba_sid :: "account \<Rightarrow> string" where
  "samba_sid a = join_with (CHR ''-'') ([''S'', ''1'', ''5'', ''21''] @ map format_uint [1, 2, 3, unat (acc_uid a)])"

definition samba_entry :: "account \<Rightarrow> bool \<Rightarrow> observation" where
  "samba_entry a off = \<lparr>ob_present = True, ob_name = acc_name a, ob_uid = acc_uid a, ob_gid = acc_gid a,
     ob_sid = samba_sid a, ob_disabled = off\<rparr>"

definition samba_find :: "observation list \<Rightarrow> account \<Rightarrow> observation" where
  "samba_find db a =
     (case find (\<lambda>x. ob_name x = acc_name a) db of
        Some x \<Rightarrow> x
      | None \<Rightarrow> \<lparr>ob_present = False, ob_name = [], ob_uid = 0, ob_gid = 0, ob_sid = [], ob_disabled = False\<rparr>)"

definition samba_put :: "observation list \<Rightarrow> account \<Rightarrow> bool \<Rightarrow> observation list" where
  "samba_put db a off = samba_entry a off # filter (\<lambda>x. ob_name x \<noteq> acc_name a) db"

definition samba_sim :: "(observation list \<times> disk) sp_backend" where
  "samba_sim = \<lparr>spb_observe = (\<lambda>c a w. (Some (samba_find (fst w) a), w)),
     spb_create_disabled = (\<lambda>c a w. (True, samba_put (fst w) a True, snd w)),
     spb_set_password = (\<lambda>c a secret w. (True, w)),
     spb_enable = (\<lambda>c a w. (True, samba_put (fst w) a False, snd w)),
     spb_disable = (\<lambda>c a w. (True, samba_put (fst w) a True, snd w))\<rparr>"

lemma samba_quiet: "sp_quiet host_files host_synced host_crash samba_sim no_deadline"
  by (simp add: sp_quiet_def samba_sim_def no_deadline_def keeps_def)

interpretation sp_sim: sp_env host_kernel host_files host_fds host_synced host_crash samba_sim no_deadline
  by (rule host_sp_env [OF samba_quiet])

lemma samba_sid_valid: "native_account a \<Longrightarrow> valid_sid (samba_sid a)"
  unfolding valid_sid_iff samba_sid_def
proof (intro exI conjI)
  assume "native_account a"
  then show "list_all (\<lambda>n. 0 < n \<and> n < 2 ^ 32) [1, 2, 3, unat (acc_uid a)]"
    using unsigned_less [of "acc_uid a", where ?'a = nat] by (auto simp: native_account_def word_less_nat_alt unat_gt_0)
qed (rule refl)

lemma samba_find_put [simp]: "samba_find (samba_put db a off) a = samba_entry a off"
  by (simp add: samba_find_def samba_put_def samba_entry_def)

lemma samba_observed:
  assumes "native_account a"
  shows "ob_validate_for (samba_entry a off) a req = None \<longleftrightarrow> (req \<longrightarrow> off)"
  using samba_sid_valid [OF assms] by (simp add: ob_validate_for_def samba_entry_def)

definition sp_host :: "(observation list \<times> disk) sp_store" where
  "sp_host = \<lparr>sps_engine = Some sp_engine, sps_backend = Some samba_sim\<rparr>"

lemma sp_host_simps [simp]:
  "sps_engine sp_host = Some sp_engine" "sps_backend sp_host = Some samba_sim"
  "sp_host\<lparr>sps_engine := Some sp_engine\<rparr> = sp_host"
  by (simp_all add: sp_host_def)

lemma samba_sim_simps [simp]:
  "spb_observe samba_sim c a w = (Some (samba_find (fst w) a), w)"
  "spb_create_disabled samba_sim c a w = (True, samba_put (fst w) a True, snd w)"
  "spb_set_password samba_sim c a secret w = (True, w)"
  "spb_enable samba_sim c a w = (True, samba_put (fst w) a False, snd w)"
  "spb_disable samba_sim c a w = (True, samba_put (fst w) a True, snd w)"
  by (simp_all add: samba_sim_def)

text \<open>The journal of an account at a phase and revision, with its SID.\<close>

definition enrolled :: "u64 \<Rightarrow> account \<Rightarrow> u64 \<Rightarrow> string \<Rightarrow> sp_journal" where
  "enrolled nr a n p = \<lparr>sp_format = sp_format_name, sp_schema_version = 1, sp_revision = n,
     sp_native_revision = nr, sp_account = a, sp_sid = samba_sid a, sp_phase = p\<rparr>"

lemma enrolled_wf:
  assumes "native_account a" "acc_state a = st_disabled" "nr \<noteq> 0" "sp_position p n" "sid_required p"
  shows "sp_wf (enrolled nr a n p)"
proof -
  have "n \<noteq> 0" using assms(4) by (auto simp: sp_position_def)
  then show ?thesis using assms samba_sid_valid [OF assms(1)] by (simp add: sp_wf_def enrolled_def sp_sid_rule_def)
qed

lemma enrolled_simps [simp]:
  "sp_phase (enrolled nr a n p) = p" "sp_revision (enrolled nr a n p) = n" "sp_account (enrolled nr a n p) = a"
  "sp_sid (enrolled nr a n p) = samba_sid a" "sp_advance (enrolled nr a n p) q = enrolled nr a (n + 1) q"
  by (simp_all add: enrolled_def sp_advance_def)

lemma sp_begin_calm:
  assumes a: "native_account a" "acc_state a = st_disabled" "nr \<noteq> 0"
    and db: "\<not> ob_present (samba_find db a)" "ob_validate_for (samba_find db a) a False = None"
    and w: "calm w" "holds_doc sp_codec w None"
  shows "\<exists>w'. sp_begin host_kernel sp_host (Some no_deadline) nr a (db, w) = (None, sp_host, db, w') \<and> calm w' \<and>
    holds_doc sp_codec w' (Some (sp_first nr a))"
proof -
  have wf: "sp_wf (sp_first nr a)"
    using a by (simp add: sp_wf_def sp_first_def sp_position_def sp_sid_rule_def sid_required_def)
  have va: "valid_account a" using a by (simp add: valid_account_def account_alone_iff)
  obtain w' where "store_commit host_kernel sp_engine 0 (sp_first nr a) (db, w) = (None, sp_engine, db, w')" "calm w'"
      "holds_doc sp_codec w' (Some (sp_first nr a))"
    using sp_commit_calm [OF w wf, of 0 db] by (auto simp: doc_revision_def sp_first_def)
  then show ?thesis using va a(3) db wf
    by (simp add: sp_begin_def no_deadline_def [of "(db, w)"] sp_validate_iff sp_commit_def)
qed

lemma sp_step_calm:
  assumes a: "native_account a" "acc_state a = st_disabled" "nr \<noteq> 0"
    and db: "\<not> ob_present (samba_find db a)" "ob_validate_for (samba_find db a) a False = None"
    and w: "calm w" "holds_doc sp_codec w (Some (sp_first nr a))"
  shows "\<exists>w'. sp_step host_kernel sp_host (Some no_deadline) 1 (db, w) = (None, sp_host, samba_put db a True, w') \<and> calm w' \<and>
    holds_doc sp_codec w' (Some (enrolled nr a 3 sp_no_password))"
proof -
  let ?j = "sp_first nr a"
  have j: "sp_wf ?j" "sp_phase ?j = sp_reserved" "sp_revision ?j = 1" "sp_account ?j = a"
    using a by (simp_all add: sp_wf_def sp_first_def sp_position_def sp_sid_rule_def sid_required_def)
  obtain w1 where 1: "store_load host_kernel sp_engine (db, w) = (Inr ?j, db, w1)" "calm w1" "holds_doc sp_codec w1 (Some ?j)"
    using sp_load_calm [OF w, of db] by blast
  have "\<exists>w'. sp_native host_kernel sp_host no_deadline samba_sim sp_engine ?j sp_create_intent
      (spb_create_disabled samba_sim no_deadline a)
      (\<lambda>after. ob_validate_for after a True = None \<and> ob_present after)
      (\<lambda>after. (sp_advance (sp_advance ?j sp_create_intent) sp_no_password)\<lparr>sp_sid := ob_sid after\<rparr>) (db, w1) =
      (None, sp_host\<lparr>sps_engine := Some sp_engine\<rparr>, samba_put db a True, w') \<and> calm w' \<and>
      holds_doc sp_codec w' (Some ((sp_advance (sp_advance ?j sp_create_intent) sp_no_password)\<lparr>sp_sid := ob_sid (samba_entry a True)\<rparr>))"
  proof (rule native_calm [OF 1(2,3) j(1)])
    show "(sp_phase ?j, sp_create_intent) \<in> sp_arcs" by (simp add: j sp_arcs_def)
    show "sp_edge (Some (sp_advance ?j sp_create_intent))
        (Some ((sp_advance (sp_advance ?j sp_create_intent) sp_no_password)\<lparr>sp_sid := ob_sid (samba_entry a True)\<rparr>))"
      by (rule sp_edge_created) (use samba_sid_valid [OF a(1)] in \<open>simp_all add: sp_advance_def samba_entry_def j\<close>)
  qed (use samba_observed [OF a(1), of True True] j in \<open>simp_all add: samba_entry_def\<close>)
  moreover have "(sp_advance (sp_advance ?j sp_create_intent) sp_no_password)\<lparr>sp_sid := ob_sid (samba_entry a True)\<rparr> =
      enrolled nr a 3 sp_no_password"
    by (simp add: sp_advance_def sp_first_def enrolled_def samba_entry_def)
  ultimately show ?thesis using db
    by (simp add: sp_step_def 1(1) j sp_intents_def no_deadline_def [of "(db, w1)"] sp_step_phase_def)
qed

lemma sp_password_calm:
  assumes a: "native_account a" "acc_state a = st_disabled" "nr \<noteq> 0" and secret: "valid_password secret"
    and w: "calm w" "holds_doc sp_codec w (Some (enrolled nr a 3 sp_no_password))"
  shows "\<exists>w'. sp_set_password_disabled host_kernel sp_host (Some no_deadline) 3 secret (samba_put db a True, w) =
      (None, sp_host, samba_put db a True, w') \<and> calm w' \<and> holds_doc sp_codec w' (Some (enrolled nr a 5 sp_credential_set))"
proof -
  let ?j = "enrolled nr a 3 sp_no_password" and ?n = "samba_put db a True"
  have wf: "sp_wf ?j" by (rule enrolled_wf [OF a]) (simp_all add: sp_position_def sid_required_def)
  have same: "same_disabled ?j (samba_entry a True)"
    using samba_observed [OF a(1), of True True] by (simp add: same_disabled_def samba_entry_def)
  obtain w1 where 1: "store_load host_kernel sp_engine (?n, w) = (Inr ?j, ?n, w1)" "calm w1" "holds_doc sp_codec w1 (Some ?j)"
    using sp_load_calm [OF w, of ?n] by blast
  have "\<exists>w'. sp_native host_kernel sp_host no_deadline samba_sim sp_engine ?j sp_password_intent
      (spb_set_password samba_sim no_deadline a secret) (same_disabled ?j)
      (\<lambda>_. sp_advance (sp_advance ?j sp_password_intent) sp_credential_set) (?n, w1) =
      (None, sp_host\<lparr>sps_engine := Some sp_engine\<rparr>, ?n, w') \<and> calm w' \<and>
      holds_doc sp_codec w' (Some (sp_advance (sp_advance ?j sp_password_intent) sp_credential_set))"
    by (rule native_calm [OF 1(2,3) wf])
      (use same sp_edge_arc [of "sp_advance ?j sp_password_intent" sp_credential_set] in \<open>simp_all add: sp_arcs_def\<close>)
  then show ?thesis using same secret
    by (simp add: sp_set_password_disabled_def 1(1) sp_intents_def no_deadline_def [of "(?n, w1)"])
qed

lemma sp_enable_calm:
  assumes a: "native_account a" "acc_state a = st_disabled" "nr \<noteq> 0"
    and w: "calm w" "holds_doc sp_codec w (Some (enrolled nr a 5 sp_credential_set))"
  shows "\<exists>w'. sp_enable host_kernel sp_host (Some no_deadline) 5 (samba_put db a True, w) =
      (None, sp_host, samba_put (samba_put db a True) a False, w') \<and> calm w' \<and>
      holds_doc sp_codec w' (Some (enrolled nr a 7 sp_enabled))"
proof -
  let ?j = "enrolled nr a 5 sp_credential_set" and ?n = "samba_put db a True"
  have wf: "sp_wf ?j" by (rule enrolled_wf [OF a]) (simp_all add: sp_position_def sid_required_def)
  have seen: "seen_disabled ?j (samba_entry a True)" "seen_enabled ?j (samba_entry a False)"
    using samba_observed [OF a(1), of _ False] by (simp_all add: seen_disabled_def seen_enabled_def samba_entry_def)
  obtain w1 where 1: "store_load host_kernel sp_engine (?n, w) = (Inr ?j, ?n, w1)" "calm w1" "holds_doc sp_codec w1 (Some ?j)"
    using sp_load_calm [OF w, of ?n] by blast
  have "\<exists>w'. sp_native host_kernel sp_host no_deadline samba_sim sp_engine ?j sp_enable_intent
      (spb_enable samba_sim no_deadline a) (seen_enabled ?j)
      (\<lambda>_. sp_advance (sp_advance ?j sp_enable_intent) sp_enabled) (?n, w1) =
      (None, sp_host\<lparr>sps_engine := Some sp_engine\<rparr>, samba_put ?n a False, w') \<and> calm w' \<and>
      holds_doc sp_codec w' (Some (sp_advance (sp_advance ?j sp_enable_intent) sp_enabled))"
    by (rule native_calm [OF 1(2,3) wf])
      (use seen sp_edge_arc [of "sp_advance ?j sp_enable_intent" sp_enabled] in \<open>simp_all add: sp_arcs_def\<close>)
  then show ?thesis using seen
    by (simp add: sp_enable_def sp_switch_def 1(1) no_deadline_def [of "(?n, w1)"])
qed

lemma sp_disable_calm:
  assumes a: "native_account a" "acc_state a = st_disabled" "nr \<noteq> 0"
    and w: "calm w" "holds_doc sp_codec w (Some (enrolled nr a 7 sp_enabled))"
  shows "\<exists>w'. sp_disable host_kernel sp_host (Some no_deadline) 7 (samba_put db a False, w) =
      (None, sp_host, samba_put (samba_put db a False) a True, w') \<and> calm w' \<and>
      holds_doc sp_codec w' (Some (enrolled nr a 9 sp_disabled))"
proof -
  let ?j = "enrolled nr a 7 sp_enabled" and ?n = "samba_put db a False"
  let ?good = "\<lambda>after. ob_validate_for after a True = None \<and> ob_present after \<and> ob_sid after = samba_sid a \<and> ob_disabled after"
  have wf: "sp_wf ?j" by (rule enrolled_wf [OF a]) (simp_all add: sp_position_def sid_required_def)
  have seen: "?good (samba_entry a True)" "seen_enabled ?j (samba_entry a False)"
    using samba_observed [OF a(1), of True True] samba_observed [OF a(1), of False False]
    by (simp_all add: seen_enabled_def samba_entry_def)
  obtain w1 where 1: "store_load host_kernel sp_engine (?n, w) = (Inr ?j, ?n, w1)" "calm w1" "holds_doc sp_codec w1 (Some ?j)"
    using sp_load_calm [OF w, of ?n] by blast
  have "\<exists>w'. sp_native host_kernel sp_host no_deadline samba_sim sp_engine ?j sp_disable_intent
      (spb_disable samba_sim no_deadline a) ?good
      (\<lambda>_. sp_advance (sp_advance ?j sp_disable_intent) sp_disabled) (?n, w1) =
      (None, sp_host\<lparr>sps_engine := Some sp_engine\<rparr>, samba_put ?n a True, w') \<and> calm w' \<and>
      holds_doc sp_codec w' (Some (sp_advance (sp_advance ?j sp_disable_intent) sp_disabled))"
    by (rule native_calm [OF 1(2,3) wf])
      (use seen sp_edge_arc [of "sp_advance ?j sp_disable_intent" sp_disabled] in \<open>simp_all add: sp_arcs_def\<close>)
  then show ?thesis using seen
    by (simp add: sp_disable_def sp_switch_def 1(1) no_deadline_def [of "(?n, w1)"])
qed

text \<open>Runs with agreeing backends.\<close>

definition agree_calls ::
  "('n \<times> disk) sp_backend \<Rightarrow> ('n \<times> disk) sp_backend \<Rightarrow> ('n \<times> disk) sp_call list \<Rightarrow> bool" where
  "agree_calls B B' calls \<longleftrightarrow> spb_observe B' = spb_observe B \<and>
     (\<forall>x \<in> set calls. \<forall>c. call_ctx x = Some c \<longrightarrow> sp_agree host_files host_crash c B B')"

definition same_state :: "'w sp_store \<times> 'w \<Rightarrow> 'w sp_store \<times> 'w \<Rightarrow> bool" where
  "same_state x y \<longleftrightarrow> sps_engine (fst x) = sps_engine (fst y) \<and> snd x = snd y"

lemma same_outcome: "sp_outcome x = sp_outcome y \<Longrightarrow> same_state (snd x) (snd y)"
  by (simp add: sp_outcome_def same_state_def)

lemma begin_agrees:
  assumes "sps_backend s = Some B" "sps_backend s' = Some B'" "sps_engine s' = sps_engine s"
    and "spb_observe B' = spb_observe B"
  shows "sp_outcome (sp_begin K s' (Some c) nr a w) = sp_outcome (sp_begin K s (Some c) nr a w)"
proof (cases "sps_engine s")
  case (Some engine)
  obtain e1 w1 where 1: "c w = (e1, w1)" by (rule prod.exhaust)
  obtain ob w2 where 2: "spb_observe B c a w1 = (ob, w2)" by (rule prod.exhaust)
  obtain e3 w3 where 3: "c w2 = (e3, w3)" by (rule prod.exhaust)
  show ?thesis
    by (auto simp: sp_begin_def assms Some 1 2 3 outcome_commit [of K s' _ _ _ _ s] outcome_same [of s' s] split: option.splits)
qed (simp add: sp_begin_def assms sp_outcome_def)

lemma recover_agrees:
  "sps_engine s' = sps_engine s \<Longrightarrow> same_state (snd (sp_recover_interrupted K s' w)) (snd (sp_recover_interrupted K s w))"
  by (auto simp: sp_recover_interrupted_def same_state_def split: option.splits sum.splits prod.splits)

lemma observe_review_agrees:
  assumes "sps_backend s = Some B" "sps_backend s' = Some B'" "sps_engine s' = sps_engine s" "spb_observe B' = spb_observe B"
  shows "sp_observe_review K s' ctx w = sp_observe_review K s ctx w"
  unfolding sp_observe_review_def assms option.case ..

lemma exec_agrees:
  assumes s: "sp_codec_ok s" "sps_backend s = Some B" "sps_backend s' = Some B'" "sps_engine s' = sps_engine s"
    and q: "quiet_calls B [call]" and agree: "agree_calls B B' [call]"
  shows "same_state (sp_exec host_kernel call s' w) (sp_exec host_kernel call s w)"
proof (cases "call_ctx call")
  case None
  have "same_state (snd (sp_close host_kernel s' w)) (snd (sp_close host_kernel s w))"
    by (auto simp: sp_close_def same_state_def s(4) split: option.splits prod.splits)
  moreover have "sp_load host_kernel s' w = sp_load host_kernel s w" by (simp add: sp_load_def s(4))
  ultimately show ?thesis using None recover_agrees [OF s(4)] s(4)
    by (cases call) (simp_all add: call_ctx_def sp_exec_def same_state_def)
next
  case (Some c)
  then have env: "sp_env host_kernel host_files host_fds host_synced host_crash B c"
    using q by (intro host_sp_env) (simp add: quiet_calls_def)
  have ag: "sp_agree host_files host_crash c B B'" and obs: "spb_observe B' = spb_observe B"
    using agree Some by (simp_all add: agree_calls_def)
  note agrees = begin_agrees [OF s(2-4) obs] sp_env.step_agrees [OF env s ag] sp_env.enable_agrees [OF env s ag]
    sp_env.disable_agrees [OF env s ag] sp_env.password_agrees [OF env s ag]
  show ?thesis
    using Some same_outcome [OF agrees(1)] same_outcome [OF agrees(2)] same_outcome [OF agrees(3)] same_outcome [OF agrees(4)]
      same_outcome [OF agrees(5)] observe_review_agrees [OF s(2-4) obs] s(4)
    by (cases call) (simp_all add: call_ctx_def sp_exec_def same_state_def)
qed

lemma exec_backend:
  "sps_backend (fst (sp_exec K call s w)) = sps_backend s"
proof -
  have review: "sps_backend (fst (snd (sp_review K s engine j w))) = sps_backend s" for engine j w
    by (simp add: sp_review_def split: prod.splits)
  have commit: "sps_backend (fst (snd (sp_commit K s engine e x w))) = sps_backend s" for engine e x w
    by (simp add: sp_commit_def split: prod.splits)
  have after: "sps_backend (fst (snd (sp_after_intent K s c B engine i f g h w))) = sps_backend s" for c B engine i f g h w
    by (simp add: sp_after_intent_def review commit split: prod.splits option.splits bool.splits)
  have native: "sps_backend (fst (snd (sp_native K s c B engine j p f g h w))) = sps_backend s" for c B engine j p f g h w
    by (simp add: sp_native_def after split: prod.splits option.splits)
  have switch: "sps_backend (fst (snd (sp_switch K s ctx e p ps st go w))) = sps_backend s"
    if "\<And>c B engine j w. sps_backend (fst (snd (go c B engine j w))) = sps_backend s" for ctx e p ps st go w
    by (simp add: sp_switch_def review that split: prod.splits option.splits sum.splits)
  have "sps_backend (fst (snd (sp_step_phase K s c B engine j ob w))) = sps_backend s" for c B engine j ob w
    by (simp add: sp_step_phase_def review native)
  then have step: "sps_backend (fst (snd (sp_step K s ctx e w))) = sps_backend s" for ctx e w
    by (simp add: sp_step_def review split: prod.splits option.splits sum.splits)
  have first: "sps_backend (fst (snd (sp_begin K s ctx nr a w))) = sps_backend s" for ctx nr a w
    by (simp add: sp_begin_def commit split: prod.splits option.splits)
  have pass: "sps_backend (fst (snd (sp_set_password_disabled K s ctx e x w))) = sps_backend s" for ctx e x w
    by (simp add: sp_set_password_disabled_def review native split: prod.splits option.splits sum.splits)
  have rest: "sps_backend (fst (snd (sp_recover_interrupted K s w))) = sps_backend s"
    "sps_backend (fst (snd (sp_close K s w))) = sps_backend s" for w
    by (simp_all add: sp_recover_interrupted_def sp_close_def split: prod.splits option.splits sum.splits)
  show ?thesis using step first pass rest native
    by (cases call) (simp_all add: sp_exec_def sp_enable_def sp_disable_def switch)
qed

lemma run_agrees:
  "sp_codec_ok s \<Longrightarrow> sps_backend s = Some B \<Longrightarrow> sps_backend s' = Some B' \<Longrightarrow> sps_engine s' = sps_engine s \<Longrightarrow>
     quiet_calls B calls \<Longrightarrow> agree_calls B B' calls \<Longrightarrow>
     same_state (sp_run host_kernel calls s' w) (sp_run host_kernel calls s w)"
proof (induction calls arbitrary: s s' w)
  case Nil
  then show ?case by (simp add: same_state_def)
next
  case (Cons x xs)
  obtain s1 w1 where 1: "sp_exec host_kernel x s w = (s1, w1)" by (rule prod.exhaust)
  obtain s2 w2 where 2: "sp_exec host_kernel x s' w = (s2, w2)" by (rule prod.exhaust)
  have q: "quiet_calls B [x]" "quiet_calls B xs" "agree_calls B B' [x]" "agree_calls B B' xs"
    using Cons.prems(5,6) by (simp_all add: quiet_calls_def agree_calls_def)
  have same: "sps_engine s2 = sps_engine s1" "w2 = w1"
    using exec_agrees [OF Cons.prems(1-4) q(1,3), of w] by (simp_all add: same_state_def 1 2)
  have "sp_moves s w (s1, w1)" using sp_exec_moves [OF Cons.prems(1) _ q(1), of w] Cons.prems(2) by (simp add: 1)
  then have ok: "sp_codec_ok s1" "sps_backend s1 = Some B" using Cons.prems(2) by (simp_all add: sp_moves_def)
  have "sps_backend s2 = Some B'" using exec_backend [of host_kernel x s' w] Cons.prems(3) 2 by simp
  from Cons.IH [OF ok this same(1) q(2,4), of w1] show ?case by (simp add: 1 2 same(2))
qed

subsection \<open>Properties\<close>


lemma sample_samba_account:
  "native_account (new_account ''alice'' ''alice'' 1001)" "acc_state (new_account ''alice'' ''alice'' 1001) = st_disabled"
  using sample_native by (simp_all add: ip_wf_def ip_first_def new_account_def)





text \<open>A disk that durably holds one journal, and a run of calls on it.\<close>

definition sp_disk_with :: "sp_journal \<Rightarrow> observation list \<times> disk" where
  "sp_disk_with j = ([], disk_with sp_codec (json_print (put_sp_journal j)))"

lemma sp_disk_with_possible:
  assumes "sp_wf j"
  shows "possible host_files host_crash sp_codec (sp_disk_with j) = {Some j}"
  unfolding sp_disk_with_def by (rule disk_with_possible) (use sp_decode_marshal [OF assms] in simp)

definition sample_journal :: sp_journal where
  "sample_journal = sp_first 5 (new_account ''alice'' ''alice'' 1001)"

lemma sample_journal_wf: "sp_wf sample_journal"
  using sample_samba_account
  by (simp add: sample_journal_def sp_wf_def sp_first_def sp_position_def sp_sid_rule_def sid_required_def)

definition sample_calls :: "(observation list \<times> disk) sp_call list" where
  "sample_calls = [SP_Step no_deadline 1, SP_Set_Password no_deadline 3 ''correct horse'', SP_Enable no_deadline 5]"

lemma sample_calls_quiet: "quiet_calls samba_sim sample_calls" "sp_codec_ok sp_host"
  using samba_quiet by (simp_all add: quiet_calls_def sample_calls_def call_ctx_def sp_codec_ok_def sp_engine_def)


text \<open>A backend that refuses to enable unless the intent is durable.\<close>

definition wary_samba :: "(observation list \<times> disk) sp_backend" where
  "wary_samba = samba_sim\<lparr>spb_enable := (\<lambda>c a w.
     if sp_durable host_files host_crash sp_enable_intent a w then spb_enable samba_sim c a w else (False, w))\<rparr>"



end
