(* ===== verification/File_Service_Plan.thy ===== *)
theory File_Service_Plan
  imports File_Service Smb_Provision
begin

section \<open>Activation plans of the file service\<close>

text \<open>
  The model of \<open>internal/fileserviceplan\<close>: \<open>Build\<close> checks a combined policy against a complete
  view of the identities and of the mounted volumes and compiles the candidate documents of both
  daemons; the candidates for Samba and NFS are views of one plan. The evidence comes from the
  identity and mount owners through the two adapters. The lemmas describe exactly when a plan
  exists and what it holds, independently of the order in which Go ranges over a map, read the
  rendered passwd and group documents back with the parser of \<open>unixidentity\<close>, and show
  what a fresh storage fingerprint means.
\<close>

subsection \<open>Evidence\<close>

definition compat_qualified :: string where "compat_qualified = ''qualified''"
definition compat_unqualified :: string where "compat_unqualified = ''unqualified''"
definition max_observed_volumes :: nat where "max_observed_volumes = max_volumes"
definition max_unix_identities :: nat where "max_unix_identities = 4096"

datatype plan_error = PlanInvalidPolicy | PlanNotReady | PlanInvalidEvidence

record observed_volume =
  ov_volume_id :: string
  ov_filesystem_uuid :: string
  ov_mount_path :: string
  ov_compatibility :: string
  ov_mount_id :: u64
  ov_device_major :: u32
  ov_device_minor :: u32
  ov_read_only :: bool

record storage_snapshot =
  ss_complete :: bool
  ss_generation :: u64
  ss_owner_fingerprint :: string
  ss_volumes :: "observed_volume list option"

record samba_identity =
  si_journal :: sp_journal
  si_observation :: observation

record identity_snapshot =
  ids_complete :: bool
  ids_generation :: u64
  ids_fingerprint :: string
  ids_registry :: registry
  ids_uids :: "u32 list option"
  ids_gids :: "u32 list option"
  ids_samba :: "samba_identity list option"
  ids_kerberos_ready :: bool

record freshness =
  fr_policy_revision :: u64
  fr_active_revision :: u64
  fr_identity_generation :: u64
  fr_identity_fingerprint :: string
  fr_storage_generation :: u64
  fr_storage_fingerprint :: string

record volume_binding =
  vb_volume_id :: string
  vb_filesystem_uuid :: string
  vb_mount_path :: string
  vb_mount_id :: u64
  vb_device_major :: u32
  vb_device_minor :: u32
  vb_read_only :: bool

record nfs_export_root =
  er_id :: string
  er_volume :: volume_binding
  er_relative_path :: string
  er_read_only :: bool
  er_clients :: "nfs_client list"

record samba_lookup =
  ld_passwd :: string
  ld_group :: string
  ld_nss :: string

record plan =
  pl_schema_version :: int
  pl_freshness :: freshness
  pl_scope :: string
  pl_activation_available :: bool
  pl_applied :: bool
  pl_runtime_validated :: bool
  pl_volumes :: "volume_binding list"
  pl_samba_config :: string
  pl_samba_policy :: share_config
  pl_samba_passwd :: string
  pl_samba_group :: string
  pl_samba_nss :: string
  pl_management_nss :: samba_lookup
  pl_nfs_config :: string
  pl_nfs_roots :: "nfs_export_root list"
  pl_requirements :: "string list"

text \<open>The zero value of a \<open>[32]byte\<close>.\<close>

definition zero_fingerprint :: string where
  "zero_fingerprint = replicate 32 (CHR 0x00)"

text \<open>A Go map filled in a loop and then only looked up: the last value for a key wins.\<close>

definition last_with :: "('a \<Rightarrow> 'k) \<Rightarrow> 'a list \<Rightarrow> 'k \<Rightarrow> 'a option" where
  "last_with key xs k = find (\<lambda>x. key x = k) (rev xs)"

subsection \<open>Checks on the identities\<close>

definition sameAccountIdentity :: "account \<Rightarrow> account \<Rightarrow> bool" where
  "sameAccountIdentity a b \<longleftrightarrow>
     acc_id a = acc_id b \<and> acc_name a = acc_name b \<and> acc_uid a = acc_uid b \<and> acc_gid a = acc_gid b"

text \<open>The loops over the UIDs and over the GIDs, which refuse a repeated number.\<close>

fun no_repeats :: "u32 list \<Rightarrow> u32 list \<Rightarrow> bool" where
  "no_repeats seen [] = True"
| "no_repeats seen (n # ns) = (if n \<in> set seen then False else no_repeats (n # seen) ns)"

fun check_samba :: "account list \<Rightarrow> string list \<Rightarrow> samba_identity list \<Rightarrow> bool" where
  "check_samba accounts seen [] = True"
| "check_samba accounts seen (i # is) =
     (let j = si_journal i; k = acc_id (sp_account j) in
      case last_with acc_id accounts k of
        None \<Rightarrow> False
      | Some a \<Rightarrow>
          if \<not> is_ok (sp_validate j) \<or> \<not> sameAccountIdentity (sp_account j) a \<or> k \<in> set seen then False
          else check_samba accounts (k # seen) is)"

definition validateIdentitySnapshot :: "identity_snapshot \<Rightarrow> plan_error + unit" where
  "validateIdentitySnapshot s =
     (case (ids_uids s, ids_gids s, ids_samba s) of
        (Some uids, Some gids, Some samba) \<Rightarrow>
          if \<not> ids_complete s \<or> ids_generation s = 0 \<or> \<not> is_ok (registry_validate (ids_registry s)) \<or>
             ids_fingerprint s = zero_fingerprint \<or> length uids > max_unix_identities \<or>
             length gids > max_unix_identities \<or> length samba > max_records
          then Inl PlanNotReady
          else if \<not> no_repeats [] uids then Inl PlanInvalidEvidence
          else if \<not> no_repeats [] gids then Inl PlanInvalidEvidence
          else if \<not> check_samba (accounts_of (ids_registry s)) [] samba then Inl PlanInvalidEvidence
          else Inr ()
      | _ \<Rightarrow> Inl PlanNotReady)"

text \<open>The condition under which the loop of \<open>validateSMBAccounts\<close> goes on.\<close>

definition smb_account_ready :: "identity_snapshot \<Rightarrow> account \<Rightarrow> bool" where
  "smb_account_ready s a =
     (acc_uid a \<in> set (slice (ids_uids s)) \<and> acc_gid a \<in> set (slice (ids_gids s)) \<and>
      (case last_with (acc_id \<circ> sp_account \<circ> si_journal) (slice (ids_samba s)) (acc_id a) of
         None \<Rightarrow> False
       | Some i \<Rightarrow>
           sp_phase (si_journal i) = sp_enabled \<and> sameAccountIdentity (sp_account (si_journal i)) a \<and>
           ob_present (si_observation i) \<and> \<not> ob_disabled (si_observation i) \<and>
           ob_name (si_observation i) = acc_name a \<and> ob_uid (si_observation i) = acc_uid a \<and>
           ob_gid (si_observation i) = acc_gid a \<and> ob_sid (si_observation i) \<noteq> [] \<and>
           ob_sid (si_observation i) = sp_sid (si_journal i)))"

definition validateSMBAccounts :: "share_config \<Rightarrow> identity_snapshot \<Rightarrow> plan_error + unit" where
  "validateSMBAccounts policy s =
     (case bind_shares (ids_registry s) policy of
        Inl e \<Rightarrow> Inl PlanNotReady
      | Inr bound \<Rightarrow> if list_all (smb_account_ready s) (bind_accounts bound) then Inr () else Inl PlanNotReady)"

definition validateNFSIdentities :: "nfs_policy \<Rightarrow> identity_snapshot \<Rightarrow> plan_error + unit" where
  "validateNFSIdentities policy s =
     (if list_all (\<lambda>e. list_all (\<lambda>c. cl_anonymous_uid c \<in> set (slice (ids_uids s)) \<and>
                                     cl_anonymous_gid c \<in> set (slice (ids_gids s))) (ex_clients e))
          (slice (np_exports policy))
      then Inr () else Inl PlanNotReady)"

subsection \<open>Checks on the storage\<close>

definition validateLogicalVolume :: "string \<Rightarrow> string \<Rightarrow> plan_error + unit" where
  "validateLogicalVolume ident uuid =
     (let config = \<lparr>sc_format = share_format, sc_schema_version = 1, sc_revision = 1,
            sc_volumes = Some [\<lparr>vol_id = ident, vol_filesystem_uuid = uuid\<rparr>], sc_users = Some [], sc_shares = Some []\<rparr> in
      if \<not> is_ok (share_validate config) \<or> path_clean ident \<noteq> ident \<or> CHR ''/'' \<in> set ident
      then Inl PlanInvalidEvidence else Inr ())"

definition device_of :: "observed_volume \<Rightarrow> u32 \<times> u32" where
  "device_of v = (ov_device_major v, ov_device_minor v)"

text \<open>The loop over the observed volumes; the maps it fills are those of the volumes seen before.\<close>

fun check_observed :: "string list \<Rightarrow> observed_volume list \<Rightarrow> observed_volume list \<Rightarrow> plan_error + unit" where
  "check_observed known seen [] = Inr ()"
| "check_observed known seen (v # vs) =
     (if ov_volume_id v \<notin> set known \<or> ov_volume_id v \<in> ov_volume_id ` set seen \<or>
         ov_filesystem_uuid v \<in> ov_filesystem_uuid ` set seen \<or> ov_mount_id v \<in> ov_mount_id ` set seen \<or>
         device_of v \<in> device_of ` set seen \<or> ov_mount_id v = 0 \<or> ov_device_major v = 0 \<or>
         ov_mount_path v \<noteq> path_join [volume_mount_root, ov_volume_id v] \<or>
         (ov_compatibility v \<noteq> compat_qualified \<and> ov_compatibility v \<noteq> compat_unqualified)
      then Inl PlanInvalidEvidence
      else if \<not> is_ok (validateLogicalVolume (ov_volume_id v) (ov_filesystem_uuid v)) then Inl PlanInvalidEvidence
      else check_observed known (v # seen) vs)"

definition validateStorageSnapshot :: "storage_snapshot \<Rightarrow> volume list \<Rightarrow> plan_error + unit" where
  "validateStorageSnapshot s policy_volumes =
     (case ss_volumes s of
        None \<Rightarrow> Inl PlanNotReady
      | Some vs \<Rightarrow>
          if \<not> ss_complete s \<or> ss_generation s = 0 \<or> length vs > max_observed_volumes then Inl PlanNotReady
          else check_observed (map vol_id policy_volumes) [] vs)"

text \<open>
  The bytes that \<open>fingerprintStorageSnapshot\<close> feeds to SHA-256. Volumes are sorted by identifier;
  an accepted snapshot has distinct identifiers, so the order is determined.
\<close>

definition writeUint64 :: "u64 \<Rightarrow> string" where
  "writeUint64 n = map (\<lambda>k. char_of (unat n div 256 ^ k)) [7, 6, 5, 4, 3, 2, 1, 0]"

definition write_flag :: "bool \<Rightarrow> string" where
  "write_flag b = [if b then CHR 0x01 else CHR 0x00]"

definition writeString :: "string \<Rightarrow> string" where
  "writeString s = writeUint64 (of_nat (length s)) @ s"

definition write_volume :: "observed_volume \<Rightarrow> string" where
  "write_volume v =
     writeString (ov_volume_id v) @ writeString (ov_filesystem_uuid v) @ writeString (ov_mount_path v) @
     writeString (ov_compatibility v) @ writeUint64 (ov_mount_id v) @ writeUint64 (ucast (ov_device_major v)) @
     writeUint64 (ucast (ov_device_minor v)) @ write_flag (ov_read_only v)"

definition storage_bytes :: "storage_snapshot \<Rightarrow> string" where
  "storage_bytes s =
     (let vs = sort_key ov_volume_id (slice (ss_volumes s)) in
      writeUint64 (ss_generation s) @ ss_owner_fingerprint s @ write_flag (ss_complete s) @
      writeUint64 (of_nat (length vs)) @ concat (map write_volume vs))"

definition fingerprintStorageSnapshot :: "storage_snapshot \<Rightarrow> string" where
  "fingerprintStorageSnapshot s = sha256 (storage_bytes s)"

subsection \<open>Lookup documents for Samba\<close>

definition max_samba_nss_bytes :: nat where "max_samba_nss_bytes = 32768"

definition nl :: char where "nl = CHR 0x0A"

definition sambaFilesOnlyNSS :: string where
  "sambaFilesOnlyNSS = ''passwd: files'' @ [nl] @ ''group: files'' @ [nl] @ ''initgroups: files'' @ [nl] @
     ''shadow: files'' @ [nl] @ ''hosts: files'' @ [nl] @ ''networks: files'' @ [nl] @
     ''protocols: files'' @ [nl] @ ''services: files'' @ [nl]"

definition passwd_line :: "account \<Rightarrow> string" where
  "passwd_line a = acc_name a @ '':!:'' @ format_uint (unat (acc_uid a)) @ '':'' @ format_uint (unat (acc_gid a)) @
     ''::/:/sbin/nologin'' @ [nl]"

definition group_line :: "account \<Rightarrow> string" where
  "group_line a = acc_name a @ '':!:'' @ format_uint (unat (acc_gid a)) @ '':'' @ [nl]"

definition fixed_passwd :: string where
  "fixed_passwd = ''root:!:0:0:root:/:/sbin/nologin'' @ [nl] @ ''nobody:!:65534:65534:nobody:/:/sbin/nologin'' @ [nl]"

definition fixed_group :: string where
  "fixed_group = ''root:!:0:'' @ [nl] @ ''nobody:!:65534:'' @ [nl]"

definition renderNativeSambaNSS :: "account list \<Rightarrow> plan_error + samba_lookup" where
  "renderNativeSambaNSS accounts =
     (let (fresh, verdict) = registry_new 1000 60000; r = fresh\<lparr>reg_accounts := Some accounts\<rparr> in
      if \<not> is_ok verdict \<or> \<not> is_ok (registry_validate r) \<or> length accounts > max_live then Inl PlanNotReady
      else if list_ex (\<lambda>a. acc_state a = st_retired) accounts then Inl PlanNotReady
      else
        (let sorted = sort_key acc_name accounts;
             passwd = fixed_passwd @ concat (map passwd_line sorted);
             group = fixed_group @ concat (map group_line sorted) in
         if length passwd + length group + length sambaFilesOnlyNSS > max_samba_nss_bytes then Inl PlanNotReady
         else Inr \<lparr>ld_passwd = passwd, ld_group = group, ld_nss = sambaFilesOnlyNSS\<rparr>))"

definition renderSambaNSS :: "share_config \<Rightarrow> registry \<Rightarrow> plan_error + samba_lookup" where
  "renderSambaNSS policy r =
     (case bind_shares r policy of
        Inl e \<Rightarrow> Inl PlanNotReady
      | Inr bound \<Rightarrow>
          if length (bind_accounts bound) > max_users then Inl PlanNotReady
          else renderNativeSambaNSS (bind_accounts bound))"

definition no_lookup :: samba_lookup where
  "no_lookup = \<lparr>ld_passwd = [], ld_group = [], ld_nss = []\<rparr>"

definition sambaManagementLookup :: "identity_snapshot \<Rightarrow> samba_lookup" where
  "sambaManagementLookup s =
     (let live = filter (\<lambda>a. acc_state a \<noteq> st_retired) (accounts_of (ids_registry s)) in
      if \<not> list_all (\<lambda>a. acc_uid a \<in> set (slice (ids_uids s)) \<and> acc_gid a \<in> set (slice (ids_gids s))) live
      then no_lookup
      else case renderNativeSambaNSS live of Inl e \<Rightarrow> no_lookup | Inr docs \<Rightarrow> docs)"

subsection \<open>Build\<close>

text \<open>The keys of the two maps of \<open>referencedVolumes\<close>, in the order of their insertion.\<close>

definition used_volumes :: "fs_config \<Rightarrow> string list" where
  "used_volumes c =
     map share_volume_id (slice (sc_shares (fc_shares c))) @ map ex_volume_id (slice (np_exports (fc_nfs c)))"

definition written_volumes :: "fs_config \<Rightarrow> string list" where
  "written_volumes c =
     concat (map (\<lambda>s. map (\<lambda>g. share_volume_id s) (filter (\<lambda>g. grant_access g = ''rw'') (share_grants s)))
       (slice (sc_shares (fc_shares c)))) @
     concat (map (\<lambda>e. map (\<lambda>k. ex_volume_id e) (filter (\<lambda>k. cl_access k = ''rw'') (ex_clients e)))
       (slice (np_exports (fc_nfs c))))"

definition desiredVolume :: "share_config \<Rightarrow> string \<Rightarrow> volume option" where
  "desiredVolume c i = find (\<lambda>v. vol_id v = i) (slice (sc_volumes c))"

definition binding_for :: "observed_volume \<Rightarrow> volume_binding" where
  "binding_for v =
     \<lparr>vb_volume_id = ov_volume_id v, vb_filesystem_uuid = ov_filesystem_uuid v, vb_mount_path = ov_mount_path v,
      vb_mount_id = ov_mount_id v, vb_device_major = ov_device_major v, vb_device_minor = ov_device_minor v,
      vb_read_only = ov_read_only v\<rparr>"

text \<open>
  \<open>for id := range used\<close>: Go ranges over the keys of a map in an order it does not specify, which
  is the first argument of \<open>plan_build\<close>. The early return of the loop depends on it.
\<close>

fun bind_volumes :: "fs_config \<Rightarrow> observed_volume list \<Rightarrow> string list \<Rightarrow> plan_error + volume_binding list" where
  "bind_volumes c observed [] = Inr []"
| "bind_volumes c observed (i # order) =
     (case last_with ov_volume_id observed i of
        None \<Rightarrow> Inl PlanNotReady
      | Some v \<Rightarrow>
          if ov_compatibility v \<noteq> compat_qualified then Inl PlanNotReady
          else case desiredVolume (fc_shares c) i of
            None \<Rightarrow> Inl PlanInvalidEvidence
          | Some expected \<Rightarrow>
              if ov_filesystem_uuid v \<noteq> vol_filesystem_uuid expected then Inl PlanInvalidEvidence
              else if i \<in> set (written_volumes c) \<and> ov_read_only v then Inl PlanNotReady
              else (case bind_volumes c observed order of
                  Inl e \<Rightarrow> Inl e
                | Inr bs \<Rightarrow> Inr (binding_for v # bs)))"

definition export_root :: "nfs_export \<Rightarrow> volume_binding \<Rightarrow> nfs_export_root" where
  "export_root e b =
     \<lparr>er_id = ex_id e, er_volume = b, er_relative_path = ex_relative_path e,
      er_read_only = list_all (\<lambda>k. cl_access k \<noteq> ''rw'') (ex_clients e),
      er_clients = sort_key cl_network (ex_clients e)\<rparr>"

fun collect_roots :: "volume_binding list \<Rightarrow> nfs_export list \<Rightarrow> plan_error + nfs_export_root list" where
  "collect_roots bs [] = Inr []"
| "collect_roots bs (e # es) =
     (case find (\<lambda>b. vb_volume_id b = ex_volume_id e) bs of
        None \<Rightarrow> Inl PlanInvalidEvidence
      | Some b \<Rightarrow> (case collect_roots bs es of Inl err \<Rightarrow> Inl err | Inr rs \<Rightarrow> Inr (export_root e b # rs)))"

definition nfsCandidateRoots :: "nfs_policy \<Rightarrow> volume_binding list \<Rightarrow> plan_error + nfs_export_root list" where
  "nfsCandidateRoots policy bs =
     (case collect_roots bs (slice (np_exports policy)) of
        Inl e \<Rightarrow> Inl e
      | Inr roots \<Rightarrow> Inr (sort_key er_id roots))"

definition cloneSambaPolicy :: "share_config \<Rightarrow> share_config" where
  "cloneSambaPolicy policy = policy"

definition candidate_only :: string where "candidate_only = ''candidate-only''"

definition plan_freshness :: "fs_config \<Rightarrow> u64 \<Rightarrow> identity_snapshot \<Rightarrow> storage_snapshot \<Rightarrow> freshness" where
  "plan_freshness c active ids storage =
     \<lparr>fr_policy_revision = fc_revision c, fr_active_revision = active,
      fr_identity_generation = ids_generation ids, fr_identity_fingerprint = ids_fingerprint ids,
      fr_storage_generation = ss_generation storage,
      fr_storage_fingerprint = fingerprintStorageSnapshot storage\<rparr>"

text \<open>The part of \<open>Build\<close> that binds the volumes and assembles the plan.\<close>

definition plan_assemble ::
  "string list \<Rightarrow> fs_config \<Rightarrow> u64 \<Rightarrow> identity_snapshot \<Rightarrow> storage_snapshot \<Rightarrow> fs_preview \<Rightarrow> samba_lookup \<Rightarrow>
   plan_error + plan" where
  "plan_assemble order c active ids storage preview docs =
     (case bind_volumes c (slice (ss_volumes storage)) order of
        Inl e \<Rightarrow> Inl e
      | Inr unsorted \<Rightarrow>
          let bs = sort_key vb_volume_id unsorted in
          (case nfsCandidateRoots (fc_nfs c) bs of
             Inl e \<Rightarrow> Inl e
           | Inr roots \<Rightarrow> Inr
               \<lparr>pl_schema_version = 1, pl_freshness = plan_freshness c active ids storage,
                pl_scope = candidate_only, pl_activation_available = False, pl_applied = False,
                pl_runtime_validated = False, pl_volumes = bs,
                pl_samba_config = sm_sections (fp_samba preview),
                pl_samba_policy = cloneSambaPolicy (fc_shares c),
                pl_samba_passwd = ld_passwd docs, pl_samba_group = ld_group docs, pl_samba_nss = ld_nss docs,
                pl_management_nss = sambaManagementLookup ids,
                pl_nfs_config = nv_table (fp_nfs preview), pl_nfs_roots = roots,
                pl_requirements = fp_requirements preview\<rparr>))"

definition plan_build ::
  "string list \<Rightarrow> fs_config \<Rightarrow> u64 \<Rightarrow> identity_snapshot \<Rightarrow> storage_snapshot \<Rightarrow> plan_error + plan" where
  "plan_build order c active ids storage =
     (if \<not> is_ok (fs_validate c) then Inl PlanInvalidPolicy
      else case fs_build (fc_shares c) (fc_nfs c) of
        Inl e \<Rightarrow> Inl PlanInvalidPolicy
      | Inr preview \<Rightarrow> (case validateIdentitySnapshot ids of
          Inl e \<Rightarrow> Inl e
        | Inr _ \<Rightarrow> (case validateStorageSnapshot storage (slice (sc_volumes (fc_shares c))) of
            Inl e \<Rightarrow> Inl e
          | Inr _ \<Rightarrow> (case validateSMBAccounts (fc_shares c) ids of
              Inl e \<Rightarrow> Inl e
            | Inr _ \<Rightarrow> (case renderSambaNSS (fc_shares c) (ids_registry ids) of
                Inl e \<Rightarrow> Inl e
              | Inr docs \<Rightarrow> (case validateNFSIdentities (fc_nfs c) ids of
                  Inl e \<Rightarrow> Inl e
                | Inr _ \<Rightarrow>
                    if nv_requires_kerberos (fp_nfs preview) \<and> \<not> ids_kerberos_ready ids then Inl PlanNotReady
                    else plan_assemble order c active ids storage preview docs))))))"

definition plan_fresh_against :: "plan \<Rightarrow> freshness \<Rightarrow> bool" where
  "plan_fresh_against p current \<longleftrightarrow> pl_scope p = candidate_only \<and> pl_freshness p = current"

subsection \<open>Candidates\<close>

record nfs_candidate =
  nk_table :: string
  nk_roots :: "nfs_export_root list"
  nk_freshness :: freshness
  nk_valid :: bool

definition NFSv3TCPCandidate :: "plan \<Rightarrow> plan_error + nfs_candidate" where
  "NFSv3TCPCandidate p =
     (if pl_scope p \<noteq> candidate_only then Inl PlanNotReady
      else if \<not> list_all (\<lambda>r. list_all (\<lambda>k. cl_security k = ''sys'') (er_clients r)) (pl_nfs_roots p)
      then Inl PlanNotReady
      else Inr \<lparr>nk_table = pl_nfs_config p, nk_roots = pl_nfs_roots p, nk_freshness = pl_freshness p, nk_valid = True\<rparr>)"

definition nfs_documents :: "nfs_candidate \<Rightarrow> plan_error + bool \<times> string \<times> nfs_export_root list" where
  "nfs_documents k =
     (if \<not> nk_valid k then Inl PlanNotReady
      else if nk_roots k = [] then Inr (False, [], [])
      else Inr (True, nk_table k, nk_roots k))"

definition nfs_fresh_against :: "nfs_candidate \<Rightarrow> freshness \<Rightarrow> bool" where
  "nfs_fresh_against k current \<longleftrightarrow> nk_valid k \<and> nk_freshness k = current"

definition FreshAgainstStorage :: "nfs_candidate \<Rightarrow> storage_snapshot \<Rightarrow> bool" where
  "FreshAgainstStorage k s \<longleftrightarrow>
     nk_valid k \<and> ss_complete s \<and> ss_generation s > 0 \<and> ss_volumes s \<noteq> None \<and>
     length (slice (ss_volumes s)) \<le> max_observed_volumes \<and>
     fr_storage_generation (nk_freshness k) = ss_generation s \<and>
     fr_storage_fingerprint (nk_freshness k) = fingerprintStorageSnapshot s"

definition SambaNSSCandidates :: "plan \<Rightarrow> plan_error + samba_lookup" where
  "SambaNSSCandidates p =
     (if pl_scope p \<noteq> candidate_only \<or> pl_samba_passwd p = [] \<or> pl_samba_group p = [] \<or> pl_samba_nss p = []
      then Inl PlanNotReady
      else Inr \<lparr>ld_passwd = pl_samba_passwd p, ld_group = pl_samba_group p, ld_nss = pl_samba_nss p\<rparr>)"

record samba_share_root =
  sr_id :: string
  sr_volume_id :: string
  sr_relative_path :: string
  sr_read_only :: bool

definition share_root :: "share \<Rightarrow> samba_share_root" where
  "share_root s =
     \<lparr>sr_id = share_id s, sr_volume_id = share_volume_id s, sr_relative_path = share_relative_path s,
      sr_read_only = (\<not> list_ex (\<lambda>g. grant_access g = ''rw'') (share_grants s))\<rparr>"

definition SambaShareCandidates :: "plan \<Rightarrow> plan_error + string \<times> samba_share_root list" where
  "SambaShareCandidates p =
     (if pl_scope p \<noteq> candidate_only then Inl PlanNotReady
      else case smb_build_isolated (pl_samba_policy p) of
        Inl e \<Rightarrow> Inl PlanNotReady
      | Inr preview \<Rightarrow>
          Inr (sm_sections preview, sort_key sr_id (map share_root (slice (sc_shares (pl_samba_policy p))))))"

record isolated_candidate =
  ic_passwd :: string
  ic_group :: string
  ic_nss :: string
  ic_sections :: string
  ic_roots :: "samba_share_root list"
  ic_freshness :: freshness
  ic_valid :: bool

definition SambaIsolatedCandidate :: "plan \<Rightarrow> plan_error + isolated_candidate" where
  "SambaIsolatedCandidate p =
     (case SambaNSSCandidates p of
        Inl e \<Rightarrow> Inl e
      | Inr docs \<Rightarrow> (case SambaShareCandidates p of
          Inl e \<Rightarrow> Inl PlanNotReady
        | Inr (sections, roots) \<Rightarrow>
            if roots = [] then Inl PlanNotReady
            else Inr \<lparr>ic_passwd = ld_passwd docs, ic_group = ld_group docs, ic_nss = ld_nss docs,
                   ic_sections = sections, ic_roots = roots, ic_freshness = pl_freshness p, ic_valid = True\<rparr>))"

definition isolated_documents ::
  "isolated_candidate \<Rightarrow> plan_error + samba_lookup \<times> string \<times> samba_share_root list" where
  "isolated_documents k =
     (if \<not> ic_valid k then Inl PlanNotReady
      else Inr (\<lparr>ld_passwd = ic_passwd k, ld_group = ic_group k, ld_nss = ic_nss k\<rparr>, ic_sections k, ic_roots k))"

definition isolated_fresh_against :: "isolated_candidate \<Rightarrow> freshness \<Rightarrow> bool" where
  "isolated_fresh_against k current \<longleftrightarrow> ic_valid k \<and> ic_freshness k = current"

record role_candidate =
  rc_management :: samba_lookup
  rc_service :: isolated_candidate
  rc_valid :: bool

definition SambaRoleCandidate :: "plan \<Rightarrow> plan_error + role_candidate" where
  "SambaRoleCandidate p =
     (if pl_scope p \<noteq> candidate_only \<or> ld_passwd (pl_management_nss p) = [] \<or>
         ld_group (pl_management_nss p) = [] \<or> ld_nss (pl_management_nss p) = []
      then Inl PlanNotReady
      else case SambaIsolatedCandidate p of
        Inl e \<Rightarrow> Inl e
      | Inr service \<Rightarrow> Inr \<lparr>rc_management = pl_management_nss p, rc_service = service, rc_valid = True\<rparr>)"

definition ManagementDocuments :: "role_candidate \<Rightarrow> plan_error + samba_lookup" where
  "ManagementDocuments k = (if \<not> rc_valid k then Inl PlanNotReady else Inr (rc_management k))"

definition ServiceCandidate :: "role_candidate \<Rightarrow> plan_error + isolated_candidate" where
  "ServiceCandidate k = (if \<not> rc_valid k then Inl PlanNotReady else Inr (rc_service k))"

definition role_fresh_against :: "role_candidate \<Rightarrow> freshness \<Rightarrow> bool" where
  "role_fresh_against k current \<longleftrightarrow> rc_valid k \<and> isolated_fresh_against (rc_service k) current"

subsection \<open>Evidence of the owners\<close>

record fs_passdb =
  fd_account_id :: string
  fd_observation :: observation

record fs_snapshot =
  fe_registry :: registry
  fe_native :: "ip_journal list option"
  fe_uids :: "u32 list option"
  fe_gids :: "u32 list option"
  fe_names :: "string list option"
  fe_samba :: "samba_identity list option"
  fe_passdb :: "fs_passdb list option"
  fe_fingerprint :: string

definition validOwnerObservation :: "account \<Rightarrow> observation \<Rightarrow> bool" where
  "validOwnerObservation a ob =
     (if \<not> ob_present ob
      then ob = \<lparr>ob_present = False, ob_name = [], ob_uid = 0, ob_gid = 0, ob_sid = [], ob_disabled = False\<rparr>
      else ob_name ob = acc_name a \<and> ob_uid ob = acc_uid a \<and> ob_gid ob = acc_gid a \<and> ob_sid ob \<noteq> [])"

definition owner_row_ok :: "account \<Rightarrow> ip_journal \<Rightarrow> fs_passdb \<Rightarrow> bool" where
  "owner_row_ok a j d \<longleftrightarrow>
     is_ok (ip_validate j) \<and> ip_phase j = ip_unix_confirmed \<and> sameAccountIdentity (ip_account j) a \<and>
     fd_account_id d = acc_id a \<and> validOwnerObservation a (fd_observation d)"

definition identityFromOwnerEvidence :: "fs_snapshot \<Rightarrow> plan_error + identity_snapshot" where
  "identityFromOwnerEvidence e =
     (case (fe_native e, fe_passdb e) of
        (Some native, Some passdb) \<Rightarrow>
          (let accounts = accounts_of (fe_registry e) in
           if \<not> is_ok (registry_validate (fe_registry e)) \<or> fe_fingerprint e = zero_fingerprint \<or>
              fe_uids e = None \<or> fe_gids e = None \<or> fe_names e = None \<or> fe_samba e = None \<or>
              length native \<noteq> length accounts \<or> length passdb \<noteq> length accounts
           then Inl PlanNotReady
           else if \<not> list_all (\<lambda>(a, j, d). owner_row_ok a j d) (zip accounts (zip native passdb))
           then Inl PlanInvalidEvidence
           else Inr \<lparr>ids_complete = True, ids_generation = reg_revision (fe_registry e),
                  ids_fingerprint = fe_fingerprint e, ids_registry = fe_registry e, ids_uids = fe_uids e,
                  ids_gids = fe_gids e, ids_samba = fe_samba e, ids_kerberos_ready = False\<rparr>)
      | _ \<Rightarrow> Inl PlanNotReady)"

text \<open>The lookup documents for enrollment, from the native journals alone.\<close>

record native_snapshot =
  ne_registry :: registry
  ne_native :: "ip_journal list option"
  ne_samba :: "sp_journal list option"
  ne_uids :: "u32 list option"
  ne_gids :: "u32 list option"
  ne_names :: "string list option"
  ne_fingerprint :: string

record enrollment_lookup =
  en_passwd :: string
  en_group :: string
  en_nss :: string
  en_fingerprint :: string

definition enrollable :: "native_snapshot \<Rightarrow> account \<Rightarrow> ip_journal \<Rightarrow> bool" where
  "enrollable e a j \<longleftrightarrow>
     acc_state a \<noteq> st_retired \<and> is_ok (ip_validate j) \<and> ip_phase j = ip_unix_confirmed \<and>
     sameAccountIdentity (ip_account j) a \<and> acc_uid a \<in> set (slice (ne_uids e)) \<and>
     acc_gid a \<in> set (slice (ne_gids e)) \<and> acc_name a \<in> set (slice (ne_names e))"

text \<open>The loop over the Samba journals, with the map of native journals and the identifiers seen.\<close>

fun check_enrolled :: "(string \<times> ip_journal) list \<Rightarrow> string list \<Rightarrow> sp_journal list \<Rightarrow> plan_error + unit" where
  "check_enrolled native seen [] = Inr ()"
| "check_enrolled native seen (j # js) =
     (case last_with fst native (acc_id (sp_account j)) of
        None \<Rightarrow> Inl PlanInvalidEvidence
      | Some (_, confirmed) \<Rightarrow>
          if acc_id (sp_account j) \<in> set seen \<or> \<not> is_ok (sp_validate j) \<or>
             \<not> sameAccountIdentity (sp_account j) (ip_account confirmed) \<or> sp_native_revision j \<noteq> ip_revision confirmed
          then Inl PlanInvalidEvidence
          else if sp_phase j \<notin> set [sp_reserved, sp_no_password, sp_credential_set, sp_enabled, sp_disabled]
          then Inl PlanNotReady
          else check_enrolled native (acc_id (sp_account j) # seen) js)"

definition sambaEnrollmentFromEvidence :: "native_snapshot \<Rightarrow> plan_error + enrollment_lookup" where
  "sambaEnrollmentFromEvidence e =
     (case (ne_native e, ne_samba e, ne_uids e, ne_gids e, ne_names e) of
        (Some native, Some samba, Some uids, Some gids, Some names) \<Rightarrow>
          (let accounts = accounts_of (ne_registry e) in
           if \<not> is_ok (registry_validate (ne_registry e)) \<or> ne_fingerprint e = zero_fingerprint \<or>
              length native \<noteq> length accounts \<or> length accounts > max_live \<or>
              length uids > 65536 \<or> length gids > 65536 \<or> length names > 65536
           then Inl PlanNotReady
           else if \<not> list_all (\<lambda>(a, j). enrollable e a j) (zip accounts native) then Inl PlanInvalidEvidence
           else (case check_enrolled (zip (map acc_id accounts) native) [] samba of
               Inl err \<Rightarrow> Inl err
             | Inr _ \<Rightarrow> (case renderNativeSambaNSS accounts of
                 Inl err \<Rightarrow> Inl err
               | Inr docs \<Rightarrow> Inr \<lparr>en_passwd = ld_passwd docs, en_group = ld_group docs, en_nss = ld_nss docs,
                     en_fingerprint = ne_fingerprint e\<rparr>)))
      | _ \<Rightarrow> Inl PlanNotReady)"

definition LookupDocuments :: "enrollment_lookup \<Rightarrow> plan_error + samba_lookup" where
  "LookupDocuments l =
     (if en_fingerprint l = zero_fingerprint \<or> en_passwd l = [] \<or> en_group l = [] \<or> en_nss l = [] then Inl PlanNotReady
      else Inr \<lparr>ld_passwd = en_passwd l, ld_group = en_group l, ld_nss = en_nss l\<rparr>)"

record mounted_volume =
  mv_volume_id :: string
  mv_filesystem_uuid :: string
  mv_mount_path :: string
  mv_compatibility :: string
  mv_generation :: u64
  mv_mount_id :: u64
  mv_device_major :: u32
  mv_device_minor :: u32
  mv_read_only :: bool

record mounted_set =
  ms_complete :: bool
  ms_generation :: u64
  ms_fingerprint :: string
  ms_volumes :: "mounted_volume list option"

definition mounted_complete :: "mounted_set \<Rightarrow> bool" where
  "mounted_complete e \<longleftrightarrow>
     ms_complete e \<and> ms_generation e \<noteq> 0 \<and> ms_fingerprint e \<noteq> zero_fingerprint \<and> ms_volumes e \<noteq> None"

definition mounted_ok :: "mounted_volume \<Rightarrow> bool" where
  "mounted_ok v \<longleftrightarrow>
     mv_compatibility v = compat_qualified \<and> mv_mount_path v = path_join [volume_mount_root, mv_volume_id v] \<and>
     mv_generation v \<noteq> 0 \<and> mv_mount_id v \<noteq> 0 \<and> mv_device_major v \<noteq> 0 \<and>
     is_ok (validateLogicalVolume (mv_volume_id v) (mv_filesystem_uuid v))"

definition observed_of :: "mounted_volume \<Rightarrow> observed_volume" where
  "observed_of v =
     \<lparr>ov_volume_id = mv_volume_id v, ov_filesystem_uuid = mv_filesystem_uuid v, ov_mount_path = mv_mount_path v,
      ov_compatibility = mv_compatibility v, ov_mount_id = mv_mount_id v, ov_device_major = mv_device_major v,
      ov_device_minor = mv_device_minor v, ov_read_only = mv_read_only v\<rparr>"

definition StorageFromMountedOwnerSet :: "mounted_set \<Rightarrow> plan_error + storage_snapshot" where
  "StorageFromMountedOwnerSet e =
     (let observed = slice (ms_volumes e) in
      if \<not> mounted_complete e \<or> ms_generation e = 0 \<or> ms_fingerprint e = zero_fingerprint \<or>
         ms_volumes e = None \<or> observed = [] \<or> length observed > max_observed_volumes
      then Inl PlanNotReady
      else if \<not> list_all mounted_ok observed then Inl PlanInvalidEvidence
      else
        (let s = \<lparr>ss_complete = True, ss_generation = ms_generation e, ss_owner_fingerprint = ms_fingerprint e,
                  ss_volumes = Some (map observed_of observed)\<rparr> in
         case validateStorageSnapshot s
                (map (\<lambda>v. \<lparr>vol_id = mv_volume_id v, vol_filesystem_uuid = mv_filesystem_uuid v\<rparr>) observed) of
           Inl err \<Rightarrow> Inl err
         | Inr _ \<Rightarrow> Inr s))"

text \<open>
  \<open>buildFromLockedOwners\<close>. Each owner collects its evidence under its lock and runs a callback on it;
  the two owners are arguments that take the callback and the variable \<open>candidate\<close> it assigns. \<open>live\<close>
  says for each of the three reads of \<open>ctx.Err()\<close> whether the context is still live there.
\<close>

datatype owners_error = OwnersPlan plan_error | OwnersOther string

type_synonym 'a inspect = "'a \<Rightarrow> plan \<Rightarrow> owners_error option \<times> plan"

definition zero_plan :: plan where
  "zero_plan =
     \<lparr>pl_schema_version = 0,
      pl_freshness = \<lparr>fr_policy_revision = 0, fr_active_revision = 0, fr_identity_generation = 0,
        fr_identity_fingerprint = zero_fingerprint, fr_storage_generation = 0,
        fr_storage_fingerprint = zero_fingerprint\<rparr>,
      pl_scope = [], pl_activation_available = False, pl_applied = False, pl_runtime_validated = False,
      pl_volumes = [], pl_samba_config = [],
      pl_samba_policy = \<lparr>sc_format = [], sc_schema_version = 0, sc_revision = 0, sc_volumes = None,
        sc_users = None, sc_shares = None\<rparr>,
      pl_samba_passwd = [], pl_samba_group = [], pl_samba_nss = [], pl_management_nss = no_lookup,
      pl_nfs_config = [], pl_nfs_roots = [], pl_requirements = []\<rparr>"

definition inspect_identity ::
  "(nat \<Rightarrow> bool) \<Rightarrow> string list \<Rightarrow> fs_config \<Rightarrow> u64 \<Rightarrow> storage_snapshot \<Rightarrow> fs_snapshot inspect" where
  "inspect_identity live order c active storage evidence candidate =
     (if \<not> live 2 then (Some (OwnersPlan PlanNotReady), candidate)
      else case identityFromOwnerEvidence evidence of
        Inl e \<Rightarrow> (Some (OwnersPlan e), candidate)
      | Inr ids \<Rightarrow> (case plan_build order c active ids storage of
          Inl e \<Rightarrow> (Some (OwnersPlan e), candidate)
        | Inr compiled \<Rightarrow> (None, compiled)))"

definition buildFromLockedOwners ::
  "(nat \<Rightarrow> bool) \<Rightarrow> string list \<Rightarrow> fs_config \<Rightarrow> u64 \<Rightarrow>
   (mounted_set inspect \<Rightarrow> plan \<Rightarrow> owners_error option \<times> plan) \<Rightarrow>
   (fs_snapshot inspect \<Rightarrow> plan \<Rightarrow> owners_error option \<times> plan) \<Rightarrow> owners_error + plan" where
  "buildFromLockedOwners live order c active with_evidence with_identity =
     (if \<not> live 0 then Inl (OwnersPlan PlanNotReady)
      else case with_evidence (\<lambda>mounted candidate.
          if \<not> live 1 then (Some (OwnersPlan PlanNotReady), candidate)
          else case StorageFromMountedOwnerSet mounted of
            Inl e \<Rightarrow> (Some (OwnersPlan e), candidate)
          | Inr storage \<Rightarrow> with_identity (inspect_identity live order c active storage) candidate) zero_plan of
        (Some e, _) \<Rightarrow> Inl e
      | (None, candidate) \<Rightarrow> Inr candidate)"

subsection \<open>When the checks pass\<close>

lemma find_SomeD: "find P xs = Some x \<Longrightarrow> x \<in> set xs \<and> P x"
  by (auto simp: find_Some_iff)

lemma last_with_iff:
  "distinct (map key xs) \<Longrightarrow> last_with key xs k = Some x \<longleftrightarrow> x \<in> set xs \<and> key x = k"
proof -
  assume d: "distinct (map key xs)"
  have "x \<in> set xs \<and> key x = k" if "last_with key xs k = Some x"
    using that find_SomeD [of "\<lambda>x. key x = k" "rev xs" x] by (simp add: last_with_def)
  then show ?thesis using find_distinct [of key "rev xs" x] d by (auto simp: last_with_def rev_map [symmetric])
qed

lemma last_with_None: "last_with key xs k = None \<longleftrightarrow> k \<notin> key ` set xs"
  by (auto simp: last_with_def find_None_iff)

lemma no_repeats_iff: "no_repeats seen ns \<longleftrightarrow> distinct ns \<and> set ns \<inter> set seen = {}"
  by (induction seen ns rule: no_repeats.induct) auto

definition samba_key :: "samba_identity \<Rightarrow> string" where
  "samba_key i = acc_id (sp_account (si_journal i))"

lemma check_samba_iff:
  assumes "distinct (map acc_id accounts)"
  shows "check_samba accounts seen is \<longleftrightarrow>
     distinct (map samba_key is) \<and> set (map samba_key is) \<inter> set seen = {} \<and>
     (\<forall>i \<in> set is. is_ok (sp_validate (si_journal i)) \<and>
        (\<exists>a \<in> set accounts. sameAccountIdentity (sp_account (si_journal i)) a))"
proof (induction "is" arbitrary: seen)
  case (Cons i "is")
  show ?case
  proof (cases "last_with acc_id accounts (samba_key i)")
    case None
    then have "\<not> (\<exists>a \<in> set accounts. sameAccountIdentity (sp_account (si_journal i)) a)"
      by (auto simp: samba_key_def last_with_None sameAccountIdentity_def image_iff)
    then show ?thesis using None by (simp add: Let_def samba_key_def)
  next
    case (Some a)
    then have a: "a \<in> set accounts" "acc_id a = samba_key i" using last_with_iff [OF assms] by auto
    have "b = a" if "b \<in> set accounts" "sameAccountIdentity (sp_account (si_journal i)) b" for b
      using that a assms by (auto simp: sameAccountIdentity_def samba_key_def distinct_map dest: inj_onD)
    then have "(\<exists>b \<in> set accounts. sameAccountIdentity (sp_account (si_journal i)) b) \<longleftrightarrow>
        sameAccountIdentity (sp_account (si_journal i)) a" using a by blast
    then show ?thesis using Some by (auto simp: Cons.IH Let_def samba_key_def)
  qed
qed simp

definition identities_wf :: "identity_snapshot \<Rightarrow> bool" where
  "identities_wf s \<longleftrightarrow>
     ids_complete s \<and> ids_generation s \<noteq> 0 \<and> registry_wf (ids_registry s) \<and> ids_fingerprint s \<noteq> zero_fingerprint \<and>
     (\<exists>uids gids samba. ids_uids s = Some uids \<and> ids_gids s = Some gids \<and> ids_samba s = Some samba \<and>
        length uids \<le> max_unix_identities \<and> length gids \<le> max_unix_identities \<and> length samba \<le> max_records \<and>
        distinct uids \<and> distinct gids \<and> distinct (map samba_key samba) \<and>
        (\<forall>i \<in> set samba. is_ok (sp_validate (si_journal i)) \<and>
           (\<exists>a \<in> set (accounts_of (ids_registry s)). sameAccountIdentity (sp_account (si_journal i)) a)))"

lemma registry_distinct_ids: "registry_wf r \<Longrightarrow> distinct (map acc_id (accounts_of r))"
  using registry_wf_accounts [of r] by (simp add: accounts_wf_def)

lemma validateIdentitySnapshot_iff: "validateIdentitySnapshot s = Inr () \<longleftrightarrow> identities_wf s"
  using check_samba_iff [OF registry_distinct_ids [of "ids_registry s"], of "[]"]
  by (auto simp: validateIdentitySnapshot_def identities_wf_def registry_validate_iff no_repeats_iff
      split: option.splits)

text \<open>An account is ready when its journal says enabled and the observed row is exactly its own.\<close>

definition account_ready :: "identity_snapshot \<Rightarrow> account \<Rightarrow> bool" where
  "account_ready s a \<longleftrightarrow>
     acc_uid a \<in> set (slice (ids_uids s)) \<and> acc_gid a \<in> set (slice (ids_gids s)) \<and>
     (\<exists>i \<in> set (slice (ids_samba s)). sameAccountIdentity (sp_account (si_journal i)) a \<and>
        sp_phase (si_journal i) = sp_enabled \<and> sp_sid (si_journal i) \<noteq> [] \<and>
        si_observation i = \<lparr>ob_present = True, ob_name = acc_name a, ob_uid = acc_uid a, ob_gid = acc_gid a,
          ob_sid = sp_sid (si_journal i), ob_disabled = False\<rparr>)"

definition identity_enabled :: "account \<Rightarrow> samba_identity \<Rightarrow> bool" where
  "identity_enabled a i \<longleftrightarrow>
     sp_phase (si_journal i) = sp_enabled \<and> sp_sid (si_journal i) \<noteq> [] \<and>
     si_observation i = \<lparr>ob_present = True, ob_name = acc_name a, ob_uid = acc_uid a, ob_gid = acc_gid a,
       ob_sid = sp_sid (si_journal i), ob_disabled = False\<rparr>"

lemma identity_enabled_iff:
  "identity_enabled a i \<longleftrightarrow>
     sp_phase (si_journal i) = sp_enabled \<and> ob_present (si_observation i) \<and> \<not> ob_disabled (si_observation i) \<and>
     ob_name (si_observation i) = acc_name a \<and> ob_uid (si_observation i) = acc_uid a \<and>
     ob_gid (si_observation i) = acc_gid a \<and> ob_sid (si_observation i) \<noteq> [] \<and>
     ob_sid (si_observation i) = sp_sid (si_journal i)"
  by (cases "si_observation i") (auto simp: identity_enabled_def)

lemma smb_account_ready_iff:
  assumes "distinct (map samba_key (slice (ids_samba s)))"
  shows "smb_account_ready s a \<longleftrightarrow> account_ready s a"
proof -
  have key: "acc_id \<circ> sp_account \<circ> si_journal = samba_key" by (auto simp: samba_key_def)
  let ?S = "set (slice (ids_samba s))" and ?same = "\<lambda>i. sameAccountIdentity (sp_account (si_journal i)) a"
  have lookup: "last_with samba_key (slice (ids_samba s)) (acc_id a) = Some i \<longleftrightarrow> i \<in> ?S \<and> samba_key i = acc_id a" for i
    by (rule last_with_iff [OF assms])
  have same: "?same i \<Longrightarrow> samba_key i = acc_id a" for i by (simp add: sameAccountIdentity_def samba_key_def)
  have "smb_account_ready s a \<longleftrightarrow> acc_uid a \<in> set (slice (ids_uids s)) \<and> acc_gid a \<in> set (slice (ids_gids s)) \<and>
      (\<exists>i. last_with samba_key (slice (ids_samba s)) (acc_id a) = Some i \<and> ?same i \<and> identity_enabled a i)"
    unfolding smb_account_ready_def key identity_enabled_iff
    by (cases "last_with samba_key (slice (ids_samba s)) (acc_id a)") (simp_all, blast)
  also have "\<dots> \<longleftrightarrow> account_ready s a"
    unfolding account_ready_def lookup identity_enabled_def [symmetric] using same by blast
  finally show ?thesis .
qed

lemma validateLogicalVolume_iff:
  "is_ok (validateLogicalVolume i u) \<longleftrightarrow> identifier_ok i \<and> filesystemUUID u"
proof -
  have "path_clean i = i \<and> CHR ''/'' \<notin> set i" if i: "identifier_ok i"
  proof -
    note e = identifier_elem [OF i]
    moreover have "hd i \<noteq> CHR ''/''" using e by (metis list.set_sel(1))
    ultimately show ?thesis by (simp add: path_clean_def path_elem_def split_on_single)
  qed
  then show ?thesis
    by (auto simp: validateLogicalVolume_def is_ok_unit share_validate_iff share_config_wf_def volume_wf_def
        max_volumes_def max_users_def max_shares_def)
qed

text \<open>One observed volume: known, mounted at its fixed anchor, of a known compatibility.\<close>

definition observed_wf :: "string set \<Rightarrow> observed_volume \<Rightarrow> bool" where
  "observed_wf known v \<longleftrightarrow>
     ov_volume_id v \<in> known \<and> identifier_ok (ov_volume_id v) \<and> filesystemUUID (ov_filesystem_uuid v) \<and>
     ov_mount_id v \<noteq> 0 \<and> ov_device_major v \<noteq> 0 \<and> ov_mount_path v = path_join [volume_mount_root, ov_volume_id v] \<and>
     ov_compatibility v \<in> {compat_qualified, compat_unqualified}"

definition storage_wf :: "storage_snapshot \<Rightarrow> string set \<Rightarrow> bool" where
  "storage_wf s known \<longleftrightarrow>
     ss_complete s \<and> ss_generation s \<noteq> 0 \<and>
     (\<exists>vs. ss_volumes s = Some vs \<and> length vs \<le> max_observed_volumes \<and> (\<forall>v \<in> set vs. observed_wf known v) \<and>
        distinct (map ov_volume_id vs) \<and> distinct (map ov_filesystem_uuid vs) \<and> distinct (map ov_mount_id vs) \<and>
        distinct (map device_of vs))"

text \<open>The keys of a list are distinct and new after those seen before.\<close>

definition apart :: "('a \<Rightarrow> 'k) \<Rightarrow> 'a list \<Rightarrow> 'a list \<Rightarrow> bool" where
  "apart f seen vs \<longleftrightarrow> distinct (map f vs) \<and> f ` set vs \<inter> f ` set seen = {}"

lemma apart_simps [simp]:
  "apart f seen []"
  "apart f seen (v # vs) \<longleftrightarrow> f v \<notin> f ` set seen \<and> apart f (v # seen) vs"
  "apart f [] vs \<longleftrightarrow> distinct (map f vs)"
  by (auto simp: apart_def)

lemma if_Inl_iff: "(if P then Inl e else r) = Inr x \<longleftrightarrow> \<not> P \<and> r = Inr x"
  by simp

lemma check_observed_iff:
  "check_observed known seen vs = Inr () \<longleftrightarrow>
     (\<forall>v \<in> set vs. observed_wf (set known) v) \<and> apart ov_volume_id seen vs \<and> apart ov_filesystem_uuid seen vs \<and>
     apart ov_mount_id seen vs \<and> apart device_of seen vs"
proof (induction vs arbitrary: seen)
  case (Cons v vs)
  have "check_observed known seen (v # vs) = Inr () \<longleftrightarrow>
      observed_wf (set known) v \<and> ov_volume_id v \<notin> ov_volume_id ` set seen \<and>
      ov_filesystem_uuid v \<notin> ov_filesystem_uuid ` set seen \<and> ov_mount_id v \<notin> ov_mount_id ` set seen \<and>
      device_of v \<notin> device_of ` set seen \<and> check_observed known (v # seen) vs = Inr ()"
    unfolding check_observed.simps validateLogicalVolume_iff observed_wf_def insert_iff empty_iff if_Inl_iff by blast
  then show ?case unfolding Cons.IH apart_simps list.set ball_simps by blast
qed simp

lemma validateStorageSnapshot_iff:
  "validateStorageSnapshot s vols = Inr () \<longleftrightarrow> storage_wf s (vol_id ` set vols)"
  by (auto simp: validateStorageSnapshot_def storage_wf_def check_observed_iff split: option.splits)

subsection \<open>Granted accounts and their lookup documents\<close>

text \<open>A user of the share policy is served by an account of the registry.\<close>

definition served_by :: "share_config \<Rightarrow> registry \<Rightarrow> grant \<Rightarrow> account \<Rightarrow> bool" where
  "served_by p r g a \<longleftrightarrow>
     a \<in> set (accounts_of r) \<and> acc_id a = grant_user_id g \<and> acc_state a = st_enabled \<and>
     (\<exists>u \<in> set (slice (sc_users p)). user_id u = acc_id a \<and> user_name u = acc_name a)"

lemma bind_shares_iff:
  assumes r: "registry_wf r" and p: "share_config_wf p"
  shows "is_ok (bind_shares r p) \<longleftrightarrow> (\<forall>g \<in> granted p. \<exists>a. served_by p r g a)"
proof -
  obtain us ss where us: "sc_users p = Some us" "distinct (map user_id us)" and ss: "sc_shares p = Some ss"
    using p by (auto simp: share_config_wf_def)
  have users: "g \<in> granted p \<Longrightarrow> grant_user_id g \<in> user_id ` set us" for g
    using p us ss by (auto simp: granted_def share_config_wf_def share_wf_def grants_wf_def)
  let ?A = "account_map (accounts_of r)" and ?U = "user_map us" and ?gs = "concat (map share_grants ss)"
  have gr: "set ?gs = granted p" using ss by (simp add: granted_def)
  have "grant_resolves ?A ?U g \<longleftrightarrow> (\<exists>a. served_by p r g a)" if g: "g \<in> granted p" for g
  proof -
    obtain n where n: "?U (grant_user_id g) = Some n" using user_map_total [OF users [OF g]] .
    have name: "(\<exists>u \<in> set us. user_id u = grant_user_id g \<and> user_name u = m) \<longleftrightarrow> m = n" for m
      using user_map_iff [OF us(2), of "grant_user_id g" m] n by auto
    have "served_by p r g a \<longleftrightarrow>
        a \<in> set (accounts_of r) \<and> acc_id a = grant_user_id g \<and> acc_state a = st_enabled \<and> acc_name a = n" for a
      unfolding name [symmetric] by (auto simp: served_by_def us slice_def)
    then show ?thesis
      by (auto simp: grant_resolves_def n account_map_iff [OF registry_distinct_ids [OF r]])
  qed
  moreover have "is_ok (bind_shares r p) \<longleftrightarrow> is_ok (bind_grants ?A ?U [] ?gs)"
    using r p us ss registry_wf_accounts [OF r]
    by (auto simp: bind_shares_def registry_validate_iff share_ok_iff split: sum.splits)
  ultimately show ?thesis unfolding bind_grants_ok_iff gr by blast
qed

lemma distinct_map_sub: "distinct ys \<Longrightarrow> set ys \<subseteq> set xs \<Longrightarrow> distinct (map f xs) \<Longrightarrow> distinct (map f ys)"
  by (auto simp: distinct_map inj_on_def)

lemma bound_accounts:
  assumes "bind_shares r p = Inr b"
  shows "set (bind_accounts b) = {a. \<exists>g \<in> granted p. served_by p r g a}"
    and "accounts_wf 1000 60000 (bind_accounts b)" "length (bind_accounts b) \<le> max_live"
    and "\<forall>a \<in> set (bind_accounts b). acc_state a = st_enabled"
proof -
  note b = bind_shares_result [OF assms]
  then have ex: "\<forall>g \<in> granted p. \<exists>a \<in> set (bind_accounts b). acc_id a = grant_user_id g \<and> acc_state a = st_enabled \<and>
      (\<exists>u us. sc_users p = Some us \<and> u \<in> set us \<and> user_id u = acc_id a \<and> user_name u = acc_name a)" by blast
  have r: "registry_wf r" using assms by (auto simp: bind_shares_def registry_validate_iff split: if_splits)
  note w = registry_wf_accounts [OF r]
  have same: "x = y" if "x \<in> set (accounts_of r)" "y \<in> set (accounts_of r)" "acc_id x = acc_id y" for x y
    using registry_distinct_ids [OF r] that by (auto simp: distinct_map dest: inj_onD)
  show set: "set (bind_accounts b) = {a. \<exists>g \<in> granted p. served_by p r g a}"
  proof (intro set_eqI iffI CollectI)
    fix a assume a: "a \<in> set (bind_accounts b)"
    then obtain g where g: "g \<in> granted p" "acc_id a = grant_user_id g" "a \<in> set (accounts_of r)" using b by auto
    then obtain a' u us where a': "a' \<in> set (bind_accounts b)" "acc_id a' = grant_user_id g" "acc_state a' = st_enabled"
      "sc_users p = Some us" "u \<in> set us" "user_id u = acc_id a'" "user_name u = acc_name a'" using ex by blast
    then have "a' = a" using same [of a' a] g b by auto
    then show "\<exists>g \<in> granted p. served_by p r g a" using g a' by (auto simp: served_by_def slice_def)
  next
    fix a assume "a \<in> {a. \<exists>g \<in> granted p. served_by p r g a}"
    then show "a \<in> set (bind_accounts b)" using b by (auto simp: served_by_def)
  qed
  show st: "\<forall>a \<in> set (bind_accounts b). acc_state a = st_enabled" unfolding set by (auto simp: served_by_def)
  have d: "distinct (map acc_id (bind_accounts b))" using b by (simp add: strict_sorted_iff)
  then have db: "distinct (bind_accounts b)" by (simp add: distinct_map)
  have sub: "set (bind_accounts b) \<subseteq> set (filter (\<lambda>a. acc_state a \<noteq> st_retired) (accounts_of r))"
    unfolding set by (auto simp: served_by_def)
  show "length (bind_accounts b) \<le> max_live"
    using card_mono [OF _ sub] card_length [of "filter (\<lambda>a. acc_state a \<noteq> st_retired) (accounts_of r)"] w
    by (simp add: distinct_card [OF db] live_count_def)
  have "account_wf 1000 60000 a" if "a \<in> set (bind_accounts b)" for a
  proof -
    have "account_wf (reg_first_id r) (reg_last_id r) a" using w sub that by (auto simp: accounts_wf_def)
    moreover have "1000 \<le> reg_first_id r" "reg_last_id r \<le> 60000" using r by (simp_all add: registry_wf_def)
    ultimately show ?thesis unfolding account_wf_def by (blast intro: order_trans)
  qed
  moreover have "set (bind_accounts b) \<subseteq> set (accounts_of r)" using sub by auto
  ultimately show "accounts_wf 1000 60000 (bind_accounts b)"
    using w d distinct_map_sub [OF db, of "accounts_of r" acc_name] distinct_map_sub [OF db, of "accounts_of r" acc_uid]
    by (simp add: accounts_wf_def)
qed

definition lookup_documents :: "account list \<Rightarrow> samba_lookup" where
  "lookup_documents accounts =
     (let sorted = sort_key acc_name accounts in
      \<lparr>ld_passwd = fixed_passwd @ concat (map passwd_line sorted),
       ld_group = fixed_group @ concat (map group_line sorted), ld_nss = sambaFilesOnlyNSS\<rparr>)"

lemma account_number_digits:
  assumes "account_wf 1000 60000 a"
  shows "length (format_uint (unat (acc_uid a))) \<le> 5" "acc_gid a = acc_uid a"
proof -
  have "unat (acc_uid a) \<le> unat (60000 :: u32)" using assms by (simp add: account_wf_def word_le_nat_alt)
  then show "length (format_uint (unat (acc_uid a))) \<le> 5" by (intro length_format_uint) simp_all
  show "acc_gid a = acc_uid a" using assms by (simp add: account_wf_def)
qed

lemma lookup_line_length:
  assumes "account_wf 1000 60000 a"
  shows "length (passwd_line a) \<le> 64" "length (group_line a) \<le> 42"
  using account_number_digits [OF assms] assms
  by (auto simp: passwd_line_def group_line_def account_wf_def accountName_def)

lemma concat_length_bound: "(\<And>x. x \<in> set xs \<Longrightarrow> length (f x) \<le> n) \<Longrightarrow> length (concat (map f xs)) \<le> n * length xs"
proof (induction xs)
  case (Cons x xs)
  have "length (f x) \<le> n" "length (concat (map f xs)) \<le> n * length xs" using Cons by simp_all
  then show ?case by simp
qed simp

text \<open>A valid set of live accounts always fits, so rendering fails only on invalid input.\<close>

lemma lookup_documents_size:
  assumes "accounts_wf 1000 60000 as" "length as \<le> max_live"
  shows "length (ld_passwd (lookup_documents as)) + length (ld_group (lookup_documents as)) +
     length (ld_nss (lookup_documents as)) \<le> max_samba_nss_bytes"
proof -
  have each: "account_wf 1000 60000 a" if "a \<in> set as" for a using assms(1) that by (simp add: accounts_wf_def)
  have "length (concat (map passwd_line (sort_key acc_name as))) \<le> 64 * length (sort_key acc_name as)"
    by (rule concat_length_bound) (simp add: lookup_line_length each)
  moreover have "length (concat (map group_line (sort_key acc_name as))) \<le> 42 * length (sort_key acc_name as)"
    by (rule concat_length_bound) (simp add: lookup_line_length each)
  moreover have "length fixed_passwd = 76" "length fixed_group = 26" "length sambaFilesOnlyNSS = 121"
    by (simp_all add: fixed_passwd_def fixed_group_def sambaFilesOnlyNSS_def)
  ultimately show ?thesis using assms(2)
    by (simp add: lookup_documents_def Let_def max_samba_nss_bytes_def max_live_def max_users_def)
qed

lemma render_native:
  assumes "accounts_wf 1000 60000 as" "length as \<le> max_live" "\<forall>a \<in> set as. acc_state a \<noteq> st_retired"
  shows "renderNativeSambaNSS as = Inr (lookup_documents as)"
proof -
  have live: "live_count as \<le> max_live"
    using assms(2) length_filter_le [of "\<lambda>a. acc_state a \<noteq> st_retired" as] unfolding live_count_def by linarith
  have rec: "length as \<le> max_records" using assms(2) by (simp add: max_live_def max_users_def max_records_def)
  have "is_ok (snd (registry_new 1000 60000))" "registry_wf ((fst (registry_new 1000 60000))\<lparr>reg_accounts := Some as\<rparr>)"
    using assms(1) live rec
    by (simp_all add: registry_new_def registry_validate_iff registry_wf_def accounts_wf_def Let_def)
  then show ?thesis using lookup_documents_size [OF assms(1,2)] assms(2,3)
    by (auto simp: renderNativeSambaNSS_def lookup_documents_def registry_validate_iff Let_def list_ex_iff
        split: prod.split)
qed

lemma render_bound:
  assumes "bind_shares r p = Inr b"
  shows "renderSambaNSS p r = Inr (lookup_documents (bind_accounts b))"
  using render_native [OF bound_accounts(2) [OF assms] bound_accounts(3) [OF assms]] bound_accounts(3,4) [OF assms] assms
  by (auto simp: renderSambaNSS_def max_live_def)

subsection \<open>Reading the lookup documents back\<close>

text \<open>Rows of colon-separated fields as \<open>unixidentity\<close> accepts them, and their document.\<close>

definition graphic :: "char \<Rightarrow> bool" where
  "graphic c \<longleftrightarrow> 33 \<le> (of_char c :: nat) \<and> (of_char c :: nat) < 127"

lemma graphic_colon: "graphic CHR '':''"
  by (simp add: graphic_def)

lemma graphic_char: "graphic c \<Longrightarrow> c \<noteq> nl \<and> row_char c \<and> (of_char c :: nat) < 128"
  by (cases "c = nl") (simp_all add: graphic_def row_char_def nl_def)

lemma newline_char: "row_char nl \<and> (of_char nl :: nat) < 128"
  by (simp add: row_char_def nl_def)

definition table_field :: "string \<Rightarrow> bool" where
  "table_field f \<longleftrightarrow> list_all graphic f \<and> CHR '':'' \<notin> set f"

definition table_row :: "nat \<Rightarrow> string list \<Rightarrow> bool" where
  "table_row n r \<longleftrightarrow> length r = n \<and> list_all table_field r \<and> r \<noteq> [] \<and> unix_name (r ! 0) \<and>
     length (join_with CHR '':'' r) \<le> ui_max_line_bytes"

definition table_text :: "string list list \<Rightarrow> string" where
  "table_text rs = concat (map (\<lambda>l. l @ [nl]) (map (join_with CHR '':'') rs))"

lemma table_row_chars:
  "table_row n r \<Longrightarrow> list_all graphic (join_with CHR '':'' r)"
  by (rule join_with_all) (simp_all add: graphic_colon table_row_def table_field_def list_all_iff)

lemma table_row_line:
  assumes "table_row n r"
  shows "split_on CHR '':'' (join_with CHR '':'' r) = r" "join_with CHR '':'' r \<noteq> []" "\<not> has_prefix (join_with CHR '':'' r) ''#''"
proof -
  show s: "split_on CHR '':'' (join_with CHR '':'' r) = r"
    using assms by (intro split_on_join) (auto simp: table_row_def table_field_def list_all_iff)
  obtain x xs where r: "r = x # xs" "unix_name x" using assms by (cases r) (auto simp: table_row_def)
  then have x: "x \<noteq> []" "list_all (\<lambda>c. unix_name_rune (of_char c)) x"
    using runes_all_ascii [of unix_name_rune x] unix_name_char by (auto simp: unix_name_def)
  obtain c cs where c: "x = c # cs" using x(1) by (cases x) auto
  have "c \<noteq> CHR ''#''" using x(2) c by (auto simp: unix_name_rune_def rune_class_defs)
  moreover have "\<exists>t. join_with CHR '':'' r = c # t" using r c by (cases xs) auto
  ultimately show "join_with CHR '':'' r \<noteq> []" "\<not> has_prefix (join_with CHR '':'' r) ''#''"
    by (auto simp: has_prefix_iff)
qed

lemma read_lines_table:
  "list_all (table_row n) rs \<Longrightarrow> distinct (map (\<lambda>r. r ! 0) rs) \<Longrightarrow> (\<lambda>r. r ! 0) ` set rs \<inter> set seen = {} \<Longrightarrow>
   k + length rs \<le> ui_max_records \<Longrightarrow> read_lines n seen k (map (join_with CHR '':'') rs @ [[]]) = Inr rs"
proof (induction rs arbitrary: seen k)
  case (Cons r rs)
  then have r: "table_row n r" by simp
  have rec: "read_lines n (r ! 0 # seen) (Suc k) (map (join_with CHR '':'') rs @ [[]]) = Inr rs"
    by (rule Cons.IH) (use Cons.prems in auto)
  show ?case using r table_row_line [OF r] rec Cons.prems by (simp add: table_row_def Let_def)
qed simp

lemma read_rows_table:
  assumes "list_all (table_row n) rs" "distinct (map (\<lambda>r. r ! 0) rs)" "length rs \<le> ui_max_records" "rs \<noteq> []"
    "length (table_text rs) \<le> ui_max_file_bytes"
  shows "read_rows (Some (reader_of (table_text rs))) n = Inr rs"
proof -
  have chars: "list_all graphic (join_with CHR '':'' r)" if "r \<in> set rs" for r
    using assms(1) that by (auto simp: list_all_iff [of "table_row n"] intro: table_row_chars)
  then have all: "c = nl \<or> graphic c" if "c \<in> set (table_text rs)" for c
    using that unfolding table_text_def list_all_iff by (auto split: if_splits)
  have "nl \<notin> set (join_with CHR '':'' r)" if "r \<in> set rs" for r
    using chars [OF that] graphic_char unfolding list_all_iff by blast
  then have "split_on nl (table_text rs) = map (join_with CHR '':'') rs @ [[]]"
    unfolding table_text_def by (intro split_lines) auto
  moreover have "ascii_string (table_text rs)" "list_all row_char (table_text rs)"
    using all graphic_char newline_char unfolding ascii_string_def list_all_iff by blast+
  ultimately show ?thesis using assms read_lines_table [OF assms(1,2), of "[]" 0]
    by (simp add: read_rows_def read_limited_whole valid_string_ascii nl_def [symmetric])
qed

definition passwd_row :: "string \<Rightarrow> u32 \<Rightarrow> u32 \<Rightarrow> string \<Rightarrow> string list" where
  "passwd_row name uid gid gecos =
     [name, ''!'', format_uint (unat uid), format_uint (unat gid), gecos, ''/'', ''/sbin/nologin'']"

definition group_row :: "string \<Rightarrow> u32 \<Rightarrow> string list" where
  "group_row name gid = [name, ''!'', format_uint (unat gid), []]"

definition account_row :: "account \<Rightarrow> string list" where
  "account_row a = passwd_row (acc_name a) (acc_uid a) (acc_gid a) []"

definition account_group :: "account \<Rightarrow> string list" where
  "account_group a = group_row (acc_name a) (acc_gid a)"

definition passwd_rows :: "account list \<Rightarrow> string list list" where
  "passwd_rows as = passwd_row ''root'' 0 0 ''root'' # passwd_row ''nobody'' 65534 65534 ''nobody'' # map account_row as"

definition group_rows :: "account list \<Rightarrow> string list list" where
  "group_rows as = group_row ''root'' 0 # group_row ''nobody'' 65534 # map account_group as"

lemma fixed_numbers: "format_uint 0 = ''0''" "format_uint 65534 = ''65534''"
  by code_simp+

lemma lookup_documents_rows:
  "lookup_documents as = \<lparr>ld_passwd = table_text (passwd_rows (sort_key acc_name as)),
     ld_group = table_text (group_rows (sort_key acc_name as)), ld_nss = sambaFilesOnlyNSS\<rparr>"
proof -
  have "passwd_line = (\<lambda>a. join_with CHR '':'' (account_row a) @ [nl])"
    "group_line = (\<lambda>a. join_with CHR '':'' (account_group a) @ [nl])"
    by (simp_all add: fun_eq_iff passwd_line_def group_line_def account_row_def account_group_def passwd_row_def group_row_def)
  then have "concat (map passwd_line as) = table_text (map account_row as)"
    "concat (map group_line as) = table_text (map account_group as)" for as
    by (simp_all add: table_text_def comp_def)
  then show ?thesis
    by (simp add: lookup_documents_def passwd_rows_def group_rows_def table_text_def fixed_passwd_def fixed_group_def
        passwd_row_def group_row_def fixed_numbers Let_def)
qed

lemma digit_graphic: "dec_digit c \<Longrightarrow> graphic c \<and> c \<noteq> CHR '':''"
  by (cases "c = CHR '':''") (simp_all add: dec_digit_def graphic_def)

lemma number_field: "table_field (format_uint n)"
  using format_uint_digits [of n] digit_graphic unfolding table_field_def list_all_iff by blast

text \<open>The characters of account names, on which folding is the identity.\<close>

definition lower_name :: "string \<Rightarrow> bool" where
  "lower_name s \<longleftrightarrow> list_all (\<lambda>c. lower_rune (of_char c) \<or> digit_rune (of_char c) \<or> of_char c = (45 :: nat) \<or> of_char c = (95 :: nat)) s"

lemma account_lower_name: "accountName s \<Longrightarrow> lower_name s"
  unfolding accountName_def lower_name_def
  by (subst runes_all_ascii [symmetric, of "\<lambda>r. lower_rune r \<or> digit_rune r \<or> r = 45 \<or> r = 95"]) (auto simp: rune_class_defs)

lemma lower_name_char:
  assumes "lower_name s" "c \<in> set s"
  shows "(of_char c :: nat) < 128" "unix_name_rune (of_char c)" "fold_rune (of_char c) = of_char c" "graphic c" "c \<noteq> CHR '':''"
proof -
  have c: "lower_rune (of_char c) \<or> digit_rune (of_char c) \<or> of_char c = (45 :: nat) \<or> of_char c = (95 :: nat)"
    using assms unfolding lower_name_def list_all_iff by blast
  then show "(of_char c :: nat) < 128" "unix_name_rune (of_char c)" "fold_rune (of_char c) = of_char c" "graphic c"
    by (auto simp: rune_class_defs unix_name_rune_def fold_rune_def graphic_def)
  show "c \<noteq> CHR '':''" using c by (auto simp: rune_class_defs)
qed

lemma lower_name_runes: "lower_name s \<Longrightarrow> runes s = bytes_of s"
  using lower_name_char(1) by (intro runes_ascii) (simp add: ascii_string_def list_all_iff)

lemma lower_name_fold: "lower_name s \<Longrightarrow> lower_name t \<Longrightarrow> equal_fold s t \<longleftrightarrow> s = t"
proof -
  have "map fold_rune (bytes_of s) = bytes_of s" if "lower_name s" for s
    using lower_name_char(3) [OF that] by (simp add: bytes_of_def)
  moreover have "bytes_of s = bytes_of t \<longleftrightarrow> s = t"
    by (simp add: bytes_of_def inj_map_eq_map inj_of_char)
  moreover assume "lower_name s" "lower_name t"
  ultimately show ?thesis by (simp add: equal_fold_def lower_name_runes)
qed

lemma lower_name_field: "lower_name s \<Longrightarrow> table_field s"
  using lower_name_char(4,5) [of s] unfolding table_field_def list_all_iff by blast

lemma lower_name_unix: "lower_name s \<Longrightarrow> s \<noteq> [] \<Longrightarrow> length s \<le> 256 \<Longrightarrow> unix_name s"
  using lower_name_char(2) [of s] by (simp add: unix_name_def lower_name_runes bytes_of_def list_all_iff)

lemma fixed_lower_names: "lower_name ''root''" "lower_name ''nobody''"
  by (simp_all add: lower_name_def rune_class_defs)

lemma unix_number_format:
  assumes "unat n \<le> 65534"
  shows "unix_number (format_uint (unat n)) = Inr n" "length (format_uint (unat n)) \<le> 5"
proof -
  show len: "length (format_uint (unat n)) \<le> 5" using assms by (intro length_format_uint) simp_all
  have "list_all digit_rune (runes (format_uint (unat n)))"
    using format_uint_digits [of "unat n"] by (subst runes_all_ascii) (auto simp: rune_class_defs dec_digit_def list_all_iff)
  then show "unix_number (format_uint (unat n)) = Inr n"
    using assms len parse_format_uint [of "unat n" 32] format_uint_digits [of "unat n"] by (simp add: unix_number_def)
qed

lemma passwd_row_ok:
  assumes "lower_name name" "name \<noteq> []" "length name \<le> 32" "lower_name gecos" "length gecos \<le> 32"
    "unat uid \<le> 65534" "unat gid \<le> 65534"
  shows "table_row 7 (passwd_row name uid gid gecos)"
  using assms unix_number_format(2) [of uid] unix_number_format(2) [of gid]
  by (simp add: table_row_def passwd_row_def lower_name_field lower_name_unix number_field ui_max_line_bytes_def
      table_field_def [of "''!''"] table_field_def [of "''/''"] table_field_def [of "''/sbin/nologin''"] graphic_def)

lemma group_row_ok:
  assumes "lower_name name" "name \<noteq> []" "length name \<le> 32" "unat gid \<le> 65534"
  shows "table_row 4 (group_row name gid)"
  using assms unix_number_format(2) [of gid]
  by (simp add: table_row_def group_row_def lower_name_field lower_name_unix number_field ui_max_line_bytes_def
      table_field_def [of "''!''"] table_field_def [of "[]"] graphic_def)

lemma lower_name_Nil: "lower_name []"
  by (simp add: lower_name_def)

lemma fixed_rows:
  "table_row 7 (passwd_row ''root'' 0 0 ''root'')" "table_row 7 (passwd_row ''nobody'' 65534 65534 ''nobody'')"
  "table_row 4 (group_row ''root'' 0)" "table_row 4 (group_row ''nobody'' 65534)"
  by (rule passwd_row_ok group_row_ok; simp add: fixed_lower_names)+

definition account_user :: "account \<Rightarrow> unix_user" where
  "account_user a = \<lparr>uu_name = acc_name a, uu_uid = acc_uid a, uu_gid = acc_gid a\<rparr>"

definition account_unix_group :: "account \<Rightarrow> unix_group" where
  "account_unix_group a = \<lparr>ug_name = acc_name a, ug_gid = acc_gid a, ug_members = []\<rparr>"

definition lookup_snapshot :: "account list \<Rightarrow> snapshot" where
  "lookup_snapshot as =
     \<lparr>snap_valid = True,
      snap_users = \<lparr>uu_name = ''root'', uu_uid = 0, uu_gid = 0\<rparr> #
        \<lparr>uu_name = ''nobody'', uu_uid = 65534, uu_gid = 65534\<rparr> # map account_user as,
      snap_groups = \<lparr>ug_name = ''root'', ug_gid = 0, ug_members = []\<rparr> #
        \<lparr>ug_name = ''nobody'', ug_gid = 65534, ug_members = []\<rparr> # map account_unix_group as\<rparr>"

lemma account_wf_facts:
  assumes "account_wf 1000 60000 a"
  shows "lower_name (acc_name a)" "acc_name a \<noteq> []" "length (acc_name a) \<le> 32" "acc_name a \<noteq> ''root'' \<and> acc_name a \<noteq> ''nobody''"
    "1000 \<le> unat (acc_uid a)" "unat (acc_uid a) \<le> 60000" "acc_gid a = acc_uid a"
  using assms account_lower_name [of "acc_name a"]
  by (auto simp: account_wf_def accountName_def first_lower_def word_le_nat_alt)

lemma parse_user_rows:
  assumes "\<And>a. a \<in> set as \<Longrightarrow> account_wf 1000 60000 a"
  shows "parse_users (map account_row as) = Inr (map account_user as)"
    and "parse_groups (map account_group as) = Inr (map account_unix_group as)"
  using assms
proof (induction as)
  case (Cons a as)
  {
    case 1
    note a = account_wf_facts [OF 1, of a]
    show ?case using Cons.IH(1) 1 a
      by (simp add: account_row_def passwd_row_def account_user_def unix_number_format)
  next
    case 2
    note a = account_wf_facts [OF 2, of a]
    show ?case using Cons.IH(2) 2 a
      by (simp add: account_group_def group_row_def account_unix_group_def unix_number_format)
  }
qed simp_all

lemma fixed_unix_numbers: "unix_number ''0'' = Inr 0" "unix_number ''65534'' = Inr 65534"
  using unix_number_format(1) [of 0] unix_number_format(1) [of 65534] by (simp_all add: fixed_numbers)

lemma not_in_image: "(\<And>a. a \<in> S \<Longrightarrow> f a \<noteq> x) \<Longrightarrow> x \<notin> f ` S"
  by auto

lemma lookup_parses:
  assumes "accounts_wf 1000 60000 as" "length as \<le> max_live"
  shows "snapshot_parse (Some (reader_of (ld_passwd (lookup_documents as)))) (Some (reader_of (ld_group (lookup_documents as)))) =
     Inr (lookup_snapshot (sort_key acc_name as))"
proof -
  define bs where "bs = sort_key acc_name as"
  have each: "account_wf 1000 60000 a" if "a \<in> set bs" for a using assms(1) that by (simp add: accounts_wf_def bs_def)
  note facts = account_wf_facts [OF each]
  have n: "length bs \<le> 128" using assms(2) by (simp add: bs_def max_live_def max_users_def)
  have dn: "distinct (map acc_name bs)" using assms(1) by (simp add: accounts_wf_def bs_def distinct_map)
  have row: "table_row 7 (account_row a)" "table_row 4 (account_group a)" if "a \<in> set bs" for a
    unfolding account_row_def account_group_def
    by (rule passwd_row_ok group_row_ok; use facts [OF that] in \<open>simp add: lower_name_Nil\<close>)+
  then have rows: "list_all (table_row 7) (passwd_rows bs)" "list_all (table_row 4) (group_rows bs)"
    unfolding passwd_rows_def group_rows_def list.pred_inject list.pred_map
    using fixed_rows by (auto simp only: list_all_iff comp_def)
  have "''root'' \<notin> acc_name ` set bs" "''nobody'' \<notin> acc_name ` set bs" by (rule not_in_image, simp add: facts(4))+
  moreover have "map (\<lambda>r. r ! 0) (map account_row bs) = map acc_name bs" "map (\<lambda>r. r ! 0) (map account_group bs) = map acc_name bs"
    by (simp_all add: account_row_def account_group_def passwd_row_def group_row_def)
  ultimately have heads: "distinct (map (\<lambda>r. r ! 0) (passwd_rows bs))" "distinct (map (\<lambda>r. r ! 0) (group_rows bs))"
    using dn by (simp_all add: passwd_rows_def group_rows_def passwd_row_def group_row_def del: map_map)
  have "length (table_text (passwd_rows bs)) \<le> ui_max_file_bytes" "length (table_text (group_rows bs)) \<le> ui_max_file_bytes"
    using lookup_documents_size [OF assms]
    by (simp_all add: lookup_documents_rows bs_def max_samba_nss_bytes_def ui_max_file_bytes_def)
  moreover have "length (passwd_rows bs) \<le> ui_max_records" "length (group_rows bs) \<le> ui_max_records"
    "passwd_rows bs \<noteq> []" "group_rows bs \<noteq> []"
    using n by (simp_all add: passwd_rows_def group_rows_def ui_max_records_def)
  ultimately have "read_rows (Some (reader_of (table_text (passwd_rows bs)))) 7 = Inr (passwd_rows bs)"
    "read_rows (Some (reader_of (table_text (group_rows bs)))) 4 = Inr (group_rows bs)"
    using read_rows_table [OF rows(1) heads(1)] read_rows_table [OF rows(2) heads(2)] by blast+
  moreover have "parse_users (passwd_rows bs) = Inr (snap_users (lookup_snapshot bs))"
    "parse_groups (group_rows bs) = Inr (snap_groups (lookup_snapshot bs))"
    using parse_user_rows [OF each]
    by (simp_all add: passwd_rows_def group_rows_def passwd_row_def group_row_def fixed_numbers fixed_unix_numbers
        lookup_snapshot_def)
  ultimately show ?thesis
    by (simp add: lookup_documents_rows bs_def [symmetric] snapshot_parse_def) (simp add: lookup_snapshot_def)
qed

lemma account_wf_native: "account_wf 1000 60000 a \<Longrightarrow> native_account a"
  by (simp add: account_wf_def native_account_def)

definition fixed_users :: "unix_user set" where
  "fixed_users = {\<lparr>uu_name = ''root'', uu_uid = 0, uu_gid = 0\<rparr>, \<lparr>uu_name = ''nobody'', uu_uid = 65534, uu_gid = 65534\<rparr>}"

definition fixed_groups :: "unix_group set" where
  "fixed_groups = {\<lparr>ug_name = ''root'', ug_gid = 0, ug_members = []\<rparr>, \<lparr>ug_name = ''nobody'', ug_gid = 65534, ug_members = []\<rparr>}"

lemma lookup_snapshot_sets:
  "set (snap_users (lookup_snapshot as)) = fixed_users \<union> account_user ` set as"
  "set (snap_groups (lookup_snapshot as)) = fixed_groups \<union> account_unix_group ` set as"
  by (simp_all add: lookup_snapshot_def fixed_users_def fixed_groups_def)

lemma fixed_entries_free:
  assumes "account_wf 1000 60000 a"
  shows "\<forall>u \<in> fixed_users. user_free a u" "\<forall>g \<in> fixed_groups. group_free a g"
proof -
  note fa = account_wf_facts [OF assms]
  have num: "acc_uid a \<noteq> 0" "acc_uid a \<noteq> 65534" using fa(5,6) by auto
  have fold: "\<not> equal_fold ''root'' (acc_name a)" "\<not> equal_fold ''nobody'' (acc_name a)"
    using fa(4) lower_name_fold [OF _ fa(1)] fixed_lower_names by metis+
  show "\<forall>u \<in> fixed_users. user_free a u" "\<forall>g \<in> fixed_groups. group_free a g"
    using num [symmetric] fa(7) fold by (simp_all add: fixed_users_def fixed_groups_def user_free_def group_free_def)
qed

lemma other_entries_free:
  assumes "account_wf 1000 60000 a" "account_wf 1000 60000 b" "acc_name b \<noteq> acc_name a" "acc_uid b \<noteq> acc_uid a"
  shows "user_free a (account_user b)" "group_free a (account_unix_group b)"
proof -
  note fa = account_wf_facts [OF assms(1)] and fb = account_wf_facts [OF assms(2)]
  have "\<not> equal_fold (acc_name b) (acc_name a)" using lower_name_fold [OF fb(1) fa(1)] assms(3) by simp
  then show "user_free a (account_user b)" "group_free a (account_unix_group b)"
    using assms(4) fa(7) fb(7) by (simp_all add: user_free_def group_free_def account_user_def account_unix_group_def)
qed

lemma own_entries_match: "user_match a (account_user a)" "group_match a (account_unix_group a)"
  by (simp_all add: user_match_def group_match_def account_user_def account_unix_group_def)

text \<open>Among accounts with distinct names and numbers, a snapshot of some of them knows exactly those.\<close>

lemma lookup_assess:
  assumes all: "accounts_wf 1000 60000 all" and sub: "set as \<subseteq> set all" and a: "a \<in> set all"
  shows "snapshot_assess (lookup_snapshot as) a = Inr (if a \<in> set as then id_observed else id_absent)"
proof -
  let ?s = "lookup_snapshot as"
  have each: "account_wf 1000 60000 b" if "b \<in> set all" for b using all that by (simp add: accounts_wf_def)
  note fixed = fixed_entries_free [OF each [OF a]]
  have dist: "inj_on acc_name (set all)" "inj_on acc_uid (set all)" using all by (simp_all add: accounts_wf_def distinct_map)
  have others: "user_free a (account_user b) \<and> group_free a (account_unix_group b)" if "b \<in> set as" "b \<noteq> a" for b
  proof -
    have b: "b \<in> set all" using that sub by blast
    show ?thesis using other_entries_free [OF each [OF a] each [OF b]] inj_onD [OF dist(1) _ b a] inj_onD [OF dist(2) _ b a] that(2)
      by blast
  qed
  have valid: "snapshot_assess ?s a = Inr (as_status (identity_verdict ?s a))"
    using account_wf_native [OF each [OF a]] by (simp add: snapshot_assess_def snapshot_inspect_eq lookup_snapshot_def)
  show ?thesis
  proof (cases "a \<in> set as")
    case False
    then have "identity_verdict ?s a = \<lparr>as_status = id_absent, as_user_present = False, as_group_present = False\<rparr>"
      using fixed others by (intro all_free_absent) (auto simp only: lookup_snapshot_sets)
    then show ?thesis using valid False by simp
  next
    case True
    have "\<not> (\<exists>u \<in> set (snap_users ?s). \<not> user_match a u \<and> \<not> user_free a u)"
      "\<not> (\<exists>g \<in> set (snap_groups ?s). \<not> group_match a g \<and> \<not> group_free a g)"
      unfolding lookup_snapshot_sets using fixed others own_entries_match by blast+
    moreover have "\<exists>u \<in> set (snap_users ?s). user_match a u" "\<exists>g \<in> set (snap_groups ?s). group_match a g"
      unfolding lookup_snapshot_sets using True own_entries_match by blast+
    ultimately have "as_status (identity_verdict ?s a) = id_observed"
      unfolding identity_verdict_def Let_def by (simp only: if_True if_False simp_thms assessment.simps)
    then show ?thesis using valid True by simp
  qed
qed

subsection \<open>Binding the volumes\<close>

lemma insort_map: "(\<And>x. g (f x) = x) \<Longrightarrow> insort_key g (f x) (map f xs) = map f (insort x xs)"
  by (induction xs) auto

lemma sort_map: "(\<And>x. g (f x) = x) \<Longrightarrow> sort_key g (map f xs) = map f (sort xs)"
  by (induction xs) (simp_all add: insort_map)

text \<open>What a used volume needs: observed, qualified, the desired filesystem, writable when written.\<close>

definition volume_ready :: "fs_config \<Rightarrow> observed_volume list \<Rightarrow> string \<Rightarrow> bool" where
  "volume_ready c vs i \<longleftrightarrow>
     (\<exists>v \<in> set vs. ov_volume_id v = i \<and> ov_compatibility v = compat_qualified \<and>
        (\<exists>w \<in> set (slice (sc_volumes (fc_shares c))). vol_id w = i \<and> vol_filesystem_uuid w = ov_filesystem_uuid v) \<and>
        (i \<in> set (written_volumes c) \<longrightarrow> \<not> ov_read_only v))"

definition zero_observed :: "string \<Rightarrow> observed_volume" where
  "zero_observed i = \<lparr>ov_volume_id = i, ov_filesystem_uuid = [], ov_mount_path = [], ov_compatibility = [],
     ov_mount_id = 0, ov_device_major = 0, ov_device_minor = 0, ov_read_only = False\<rparr>"

definition binding_at :: "observed_volume list \<Rightarrow> string \<Rightarrow> volume_binding" where
  "binding_at vs i = binding_for (case last_with ov_volume_id vs i of None \<Rightarrow> zero_observed i | Some v \<Rightarrow> v)"

lemma binding_at_id [simp]: "vb_volume_id (binding_at vs i) = i"
proof (cases "last_with ov_volume_id vs i")
  case (Some v)
  then have "ov_volume_id v = i" using find_SomeD [of "\<lambda>v. ov_volume_id v = i" "rev vs" v] by (simp add: last_with_def)
  then show ?thesis by (simp add: binding_at_def binding_for_def Some)
qed (simp add: binding_at_def binding_for_def zero_observed_def)

lemma bind_volumes_Cons:
  assumes vs: "distinct (map ov_volume_id vs)" and ws: "distinct (map vol_id (slice (sc_volumes (fc_shares c))))"
  shows "bind_volumes c vs (i # order) = Inr bs \<longleftrightarrow>
     volume_ready c vs i \<and> (\<exists>bs'. bind_volumes c vs order = Inr bs' \<and> bs = binding_at vs i # bs')"
proof (cases "last_with ov_volume_id vs i")
  case None
  then have "\<not> volume_ready c vs i" by (auto simp: volume_ready_def last_with_None)
  then show ?thesis using None by simp
next
  case (Some v)
  then have v: "v \<in> set vs" "ov_volume_id v = i" using last_with_iff [OF vs] by auto
  have only: "u = v" if "u \<in> set vs" "ov_volume_id u = i" for u using that v vs by (auto simp: distinct_map dest: inj_onD)
  have des: "desiredVolume (fc_shares c) i = Some w \<longleftrightarrow> w \<in> set (slice (sc_volumes (fc_shares c))) \<and> vol_id w = i" for w
    using find_SomeD [of "\<lambda>v. vol_id v = i" "slice (sc_volumes (fc_shares c))" w] find_distinct [OF ws, of w]
    by (auto simp: desiredVolume_def)
  have ready: "volume_ready c vs i \<longleftrightarrow> ov_compatibility v = compat_qualified \<and>
      (\<exists>w. desiredVolume (fc_shares c) i = Some w \<and> vol_filesystem_uuid w = ov_filesystem_uuid v) \<and>
      (i \<in> set (written_volumes c) \<longrightarrow> \<not> ov_read_only v)"
    unfolding volume_ready_def des using v only by blast
  have at: "binding_at vs i = binding_for v" by (simp add: binding_at_def Some)
  show ?thesis
    by (cases "desiredVolume (fc_shares c) i"; cases "bind_volumes c vs order")
      (auto simp: Some ready at)
qed

lemma bind_volumes_iff:
  assumes "distinct (map ov_volume_id vs)" "distinct (map vol_id (slice (sc_volumes (fc_shares c))))"
  shows "bind_volumes c vs order = Inr bs \<longleftrightarrow> (\<forall>i \<in> set order. volume_ready c vs i) \<and> bs = map (binding_at vs) order"
proof (induction order arbitrary: bs)
  case (Cons i order)
  show ?case unfolding bind_volumes_Cons [OF assms] Cons.IH by auto
qed auto

lemma find_binding:
  "i \<in> set is \<Longrightarrow> find (\<lambda>b. vb_volume_id b = i) (map (binding_at vs) is) = Some (binding_at vs i)"
  by (induction "is") auto

lemma collect_roots_all:
  "ex_volume_id ` set es \<subseteq> set is \<Longrightarrow>
   collect_roots (map (binding_at vs) is) es = Inr (map (\<lambda>e. export_root e (binding_at vs (ex_volume_id e))) es)"
  by (induction es) (auto simp: find_binding)

subsection \<open>When a plan exists\<close>

definition plan_ready :: "fs_config \<Rightarrow> identity_snapshot \<Rightarrow> storage_snapshot \<Rightarrow> bool" where
  "plan_ready c ids storage \<longleftrightarrow>
     fs_config_wf c \<and> identities_wf ids \<and> storage_wf storage (vol_id ` set (slice (sc_volumes (fc_shares c)))) \<and>
     (\<forall>g \<in> granted (fc_shares c). \<exists>a. served_by (fc_shares c) (ids_registry ids) g a \<and> account_ready ids a) \<and>
     (\<forall>e \<in> set (slice (np_exports (fc_nfs c))). \<forall>k \<in> set (ex_clients e).
        cl_anonymous_uid k \<in> set (slice (ids_uids ids)) \<and> cl_anonymous_gid k \<in> set (slice (ids_gids ids)) \<and>
        (cl_security k = ''sys'' \<or> ids_kerberos_ready ids)) \<and>
     (\<forall>i \<in> set (used_volumes c). volume_ready c (slice (ss_volumes storage)) i)"

lemma fs_config_parts:
  assumes "fs_config_wf c"
  shows "share_config_wf (fc_shares c)" "distinct (map vol_id (slice (sc_volumes (fc_shares c))))"
    and "\<exists>preview. fs_build (fc_shares c) (fc_nfs c) = Inr preview"
proof -
  have "fs_form c" using assms by (simp add: fs_config_wf_form)
  then show s: "share_config_wf (fc_shares c)" by (simp add: fs_form_def shares_buildable_def)
  then show "distinct (map vol_id (slice (sc_volumes (fc_shares c))))" by (auto simp: share_config_wf_def slice_def)
  show "\<exists>preview. fs_build (fc_shares c) (fc_nfs c) = Inr preview"
    using assms by (simp add: is_ok_iff [symmetric] fs_build_iff fs_config_wf_def)
qed

lemma preview_kerberos:
  assumes "fs_build shares nfs = Inr preview"
  shows "nv_requires_kerberos (fp_nfs preview) \<longleftrightarrow>
     (\<exists>e \<in> set (slice (np_exports nfs)). \<exists>k \<in> set (ex_clients e). cl_security k \<noteq> ''sys'')"
proof -
  obtain nv where nv: "nfs_build nfs shares = Inr nv" "fp_nfs preview = nv"
    using assms by (auto simp: fs_build_def split: sum.splits)
  then have "nfs_policy_wf nfs shares" using nfs_build_iff [of nfs shares] by simp
  then have es: "the (np_exports nfs) = slice (np_exports nfs)" by (auto simp: nfs_policy_wf_def slice_def)
  have "nv_requires_kerberos nv = list_ex (\<lambda>k. cl_security k \<noteq> ''sys'')
      (concat (map ep_clients (sort_key ep_id (map (preview_export (the (sc_volumes shares))) (the (np_exports nfs))))))"
    using nv(1) by (auto simp: nfs_build_def Let_def split: sum.splits)
  then have "nv_requires_kerberos nv \<longleftrightarrow> (\<exists>e \<in> set (the (np_exports nfs)). \<exists>k \<in> set (ex_clients e). cl_security k \<noteq> ''sys'')"
    by (simp add: list_ex_iff preview_export_def Let_def)
  then show ?thesis using nv(2) es by simp
qed

lemma validateSMBAccounts_iff:
  assumes "identities_wf ids" "share_config_wf p"
  shows "validateSMBAccounts p ids = Inr () \<longleftrightarrow>
     (\<forall>g \<in> granted p. \<exists>a. served_by p (ids_registry ids) g a \<and> account_ready ids a)"
proof -
  let ?r = "ids_registry ids"
  have r: "registry_wf ?r" "distinct (map samba_key (slice (ids_samba ids)))"
    using assms(1) by (auto simp: identities_wf_def slice_def)
  have only: "a = b" if "served_by p ?r g a" "served_by p ?r g b" for g a b
  proof -
    have "inj_on acc_id (set (accounts_of ?r))" using registry_distinct_ids [OF r(1)] by (simp add: distinct_map)
    from inj_onD [OF this] show ?thesis using that by (simp add: served_by_def)
  qed
  show ?thesis
  proof (cases "bind_shares ?r p")
    case (Inl e)
    then have "\<not> (\<forall>g \<in> granted p. \<exists>a. served_by p ?r g a)" using bind_shares_iff [OF r(1) assms(2)] by simp
    then show ?thesis by (auto simp: validateSMBAccounts_def Inl)
  next
    case (Inr b)
    have "\<forall>g \<in> granted p. \<exists>a. served_by p ?r g a" using bind_shares_iff [OF r(1) assms(2)] Inr by simp
    moreover have "validateSMBAccounts p ids = Inr () \<longleftrightarrow> (\<forall>a \<in> set (bind_accounts b). account_ready ids a)"
      by (simp add: validateSMBAccounts_def Inr list_all_iff smb_account_ready_iff [OF r(2)])
    ultimately show ?thesis unfolding bound_accounts(1) [OF Inr] using only by blast
  qed
qed

lemma validateNFSIdentities_iff:
  "validateNFSIdentities p ids = Inr () \<longleftrightarrow>
     (\<forall>e \<in> set (slice (np_exports p)). \<forall>k \<in> set (ex_clients e).
        cl_anonymous_uid k \<in> set (slice (ids_uids ids)) \<and> cl_anonymous_gid k \<in> set (slice (ids_gids ids)))"
  by (auto simp: validateNFSIdentities_def list_all_iff)

text \<open>The bindings and the NFS roots of a plan, in the order of their identifiers.\<close>

definition plan_bindings :: "fs_config \<Rightarrow> observed_volume list \<Rightarrow> volume_binding list" where
  "plan_bindings c vs = map (binding_at vs) (sorted_list_of_set (set (used_volumes c)))"

definition plan_roots :: "fs_config \<Rightarrow> observed_volume list \<Rightarrow> nfs_export_root list" where
  "plan_roots c vs =
     sort_key er_id (map (\<lambda>e. export_root e (binding_at vs (ex_volume_id e))) (slice (np_exports (fc_nfs c))))"

definition key_order :: "string list \<Rightarrow> fs_config \<Rightarrow> bool" where
  "key_order order c \<longleftrightarrow> distinct order \<and> set order = set (used_volumes c)"

definition plan_of ::
  "fs_config \<Rightarrow> u64 \<Rightarrow> identity_snapshot \<Rightarrow> storage_snapshot \<Rightarrow> fs_preview \<Rightarrow> samba_lookup \<Rightarrow> plan" where
  "plan_of c active ids storage preview docs =
     \<lparr>pl_schema_version = 1, pl_freshness = plan_freshness c active ids storage,
      pl_scope = candidate_only, pl_activation_available = False, pl_applied = False,
      pl_runtime_validated = False, pl_volumes = plan_bindings c (slice (ss_volumes storage)),
      pl_samba_config = sm_sections (fp_samba preview), pl_samba_policy = fc_shares c,
      pl_samba_passwd = ld_passwd docs, pl_samba_group = ld_group docs, pl_samba_nss = ld_nss docs,
      pl_management_nss = sambaManagementLookup ids, pl_nfs_config = nv_table (fp_nfs preview),
      pl_nfs_roots = plan_roots c (slice (ss_volumes storage)), pl_requirements = fp_requirements preview\<rparr>"

lemma plan_assemble_iff:
  assumes order: "key_order order c" and c: "fs_config_wf c"
    and st: "storage_wf storage known"
  shows "plan_assemble order c active ids storage preview docs = Inr p \<longleftrightarrow>
     (\<forall>i \<in> set (used_volumes c). volume_ready c (slice (ss_volumes storage)) i) \<and>
     p = plan_of c active ids storage preview docs"
proof -
  let ?vs = "slice (ss_volumes storage)"
  have d: "distinct (map ov_volume_id ?vs)" using st by (auto simp: storage_wf_def slice_def)
  note bind = bind_volumes_iff [OF d fs_config_parts(2) [OF c], of order]
  have sorted: "sort_key vb_volume_id (map (binding_at ?vs) order) = plan_bindings c ?vs"
    using order sorted_list_of_set_sort_remdups [of order]
    by (simp add: plan_bindings_def key_order_def sort_map distinct_remdups_id)
  have roots: "nfsCandidateRoots (fc_nfs c) (plan_bindings c ?vs) = Inr (plan_roots c ?vs)"
    using collect_roots_all [of "slice (np_exports (fc_nfs c))" "sorted_list_of_set (set (used_volumes c))" ?vs]
    by (simp add: nfsCandidateRoots_def plan_bindings_def plan_roots_def used_volumes_def)
  show ?thesis
  proof (cases "bind_volumes c ?vs order")
    case (Inl e)
    then have "\<not> (\<forall>i \<in> set (used_volumes c). volume_ready c ?vs i)" using bind order by (auto simp: key_order_def)
    then show ?thesis using Inl by (simp add: plan_assemble_def)
  next
    case (Inr bs)
    then have "\<forall>i \<in> set (used_volumes c). volume_ready c ?vs i" "bs = map (binding_at ?vs) order"
      using bind order by (auto simp: key_order_def)
    then show ?thesis using Inr sorted roots by (auto simp: plan_assemble_def plan_of_def cloneSambaPolicy_def Let_def)
  qed
qed

lemma plan_build_iff:
  assumes "key_order order c"
  shows "plan_build order c active ids storage = Inr p \<longleftrightarrow>
     plan_ready c ids storage \<and>
     (\<exists>preview b. fs_build (fc_shares c) (fc_nfs c) = Inr preview \<and> bind_shares (ids_registry ids) (fc_shares c) = Inr b \<and>
        p = plan_of c active ids storage preview (lookup_documents (bind_accounts b)))"
proof (cases "fs_config_wf c \<and> identities_wf ids \<and> storage_wf storage (vol_id ` set (slice (sc_volumes (fc_shares c))))")
  case False
  then show ?thesis
    using validateIdentitySnapshot_iff [of ids] validateStorageSnapshot_iff [of storage "slice (sc_volumes (fc_shares c))"]
    by (auto simp: plan_build_def plan_ready_def fs_validate_iff split: sum.splits)
next
  case True
  then have c: "fs_config_wf c" and i: "identities_wf ids"
    and s: "storage_wf storage (vol_id ` set (slice (sc_volumes (fc_shares c))))" by simp_all
  obtain preview where preview: "fs_build (fc_shares c) (fc_nfs c) = Inr preview" using fs_config_parts(3) [OF c] by blast
  note smb = validateSMBAccounts_iff [OF i fs_config_parts(1) [OF c]]
  show ?thesis
  proof (cases "bind_shares (ids_registry ids) (fc_shares c)")
    case (Inl e)
    then have v: "validateSMBAccounts (fc_shares c) ids = Inl PlanNotReady" by (simp add: validateSMBAccounts_def)
    then have "\<not> plan_ready c ids storage" using smb by (auto simp: plan_ready_def)
    then show ?thesis using v by (simp add: plan_build_def split: sum.splits)
  next
    case (Inr b)
    let ?docs = "lookup_documents (bind_accounts b)"
    have checks: "validateIdentitySnapshot ids = Inr ()"
      "validateStorageSnapshot storage (slice (sc_volumes (fc_shares c))) = Inr ()"
      "renderSambaNSS (fc_shares c) (ids_registry ids) = Inr ?docs" "is_ok (fs_validate c)"
      using i s c render_bound [OF Inr] validateIdentitySnapshot_iff validateStorageSnapshot_iff fs_validate_iff by auto
    have "plan_build order c active ids storage = Inr p \<longleftrightarrow>
        validateSMBAccounts (fc_shares c) ids = Inr () \<and> validateNFSIdentities (fc_nfs c) ids = Inr () \<and>
        \<not> (nv_requires_kerberos (fp_nfs preview) \<and> \<not> ids_kerberos_ready ids) \<and>
        plan_assemble order c active ids storage preview ?docs = Inr p"
      by (simp add: plan_build_def preview checks split: sum.split)
    then show ?thesis
      unfolding smb validateNFSIdentities_iff preview_kerberos [OF preview] plan_assemble_iff [OF assms c s]
        plan_ready_def preview Inr using True by auto
  qed
qed

lemma plan_ready_exists:
  assumes "plan_ready c ids storage"
  shows "\<exists>preview b. fs_build (fc_shares c) (fc_nfs c) = Inr preview \<and> bind_shares (ids_registry ids) (fc_shares c) = Inr b"
proof -
  have c: "fs_config_wf c" and r: "registry_wf (ids_registry ids)"
    and served: "\<forall>g \<in> granted (fc_shares c). \<exists>a. served_by (fc_shares c) (ids_registry ids) g a"
    using assms by (auto simp: plan_ready_def identities_wf_def)
  have "is_ok (bind_shares (ids_registry ids) (fc_shares c))"
    using bind_shares_iff [OF r fs_config_parts(1) [OF c]] served by simp
  then show ?thesis using fs_config_parts(3) [OF c] by (auto simp: is_ok_iff)
qed

subsection \<open>Properties\<close>

text \<open>
  C5: \<open>Build\<close> makes a plan exactly when the policy is valid, both snapshots are complete and consistent,
  every user with a grant is served by an enabled account of the same name whose journal says
  enabled and whose observed passdb row is its own, every anonymous identity exists, Kerberos is ready
  if a client asks for it, and every used volume is observed, qualified, of the desired
  filesystem and writable if the policy writes to it. Success and the plan itself
  do not depend on the order in which Go ranges over the map of used volumes.
\<close>

theorem plan_build_exact:
  assumes "key_order order c" "key_order order' c"
  shows "(is_ok (plan_build order c active ids storage) \<longleftrightarrow> plan_ready c ids storage) \<and>
     (\<forall>p. plan_build order c active ids storage = Inr p \<longleftrightarrow> plan_build order' c active ids storage = Inr p)"
  unfolding is_ok_iff plan_build_iff [OF assms(1)] plan_build_iff [OF assms(2)]
  using plan_ready_exists [of c ids storage] by blast

lemma map_insort_key: "map f (insort_key f x xs) = insort (f x) (map f xs)"
  by (induction xs) auto

lemma map_sort_key: "map f (sort_key f xs) = sort (map f xs)"
  by (induction xs) (simp_all add: map_insort_key)

text \<open>
  A binding is sound when it is a qualified observed volume with the desired filesystem at the fixed
  anchor, and writable if the policy writes to it.
\<close>

definition binding_sound :: "fs_config \<Rightarrow> observed_volume list \<Rightarrow> volume_binding \<Rightarrow> bool" where
  "binding_sound c vs b \<longleftrightarrow>
     (\<exists>v \<in> set vs. b = binding_for v \<and> ov_compatibility v = compat_qualified) \<and>
     vb_mount_path b = path_join [volume_mount_root, vb_volume_id b] \<and>
     (\<exists>w \<in> set (slice (sc_volumes (fc_shares c))). vol_id w = vb_volume_id b \<and> vol_filesystem_uuid w = vb_filesystem_uuid b) \<and>
     (vb_volume_id b \<in> set (written_volumes c) \<longrightarrow> \<not> vb_read_only b)"

lemma binding_ready:
  assumes "storage_wf storage known" "volume_ready c (slice (ss_volumes storage)) i"
  shows "binding_sound c (slice (ss_volumes storage)) (binding_at (slice (ss_volumes storage)) i)"
proof -
  let ?vs = "slice (ss_volumes storage)"
  have vs: "distinct (map ov_volume_id ?vs)" "\<forall>v \<in> set ?vs. observed_wf known v"
    using assms(1) by (auto simp: storage_wf_def slice_def)
  obtain v where v: "v \<in> set ?vs" "ov_volume_id v = i" "ov_compatibility v = compat_qualified"
    "\<exists>w \<in> set (slice (sc_volumes (fc_shares c))). vol_id w = i \<and> vol_filesystem_uuid w = ov_filesystem_uuid v"
    "i \<in> set (written_volumes c) \<longrightarrow> \<not> ov_read_only v" using assms(2) unfolding volume_ready_def by blast
  have "last_with ov_volume_id ?vs i = Some v" using last_with_iff [OF vs(1)] v(1,2) by blast
  then have "binding_at ?vs i = binding_for v" by (simp add: binding_at_def)
  moreover have "ov_mount_path v = path_join [volume_mount_root, i]" using vs(2) v(1,2) by (auto simp: observed_wf_def)
  ultimately show ?thesis using v by (auto simp: binding_sound_def binding_for_def)
qed

lemma export_written:
  "e \<in> set (slice (np_exports (fc_nfs c))) \<Longrightarrow> \<not> er_read_only (export_root e b) \<Longrightarrow> ex_volume_id e \<in> set (written_volumes c)"
  by (fastforce simp: export_root_def written_volumes_def list_all_iff)

text \<open>
  C6: the volumes of a plan are exactly the volumes the policy uses, once each and sorted; each is a
  qualified observed volume with the desired filesystem, mounted at its fixed anchor, and read-only
  only if the policy nowhere writes to it. The NFS roots of the plan are the exports of the policy,
  each on the binding of its own volume with its own clients, and a root that lets a client write
  is on a writable volume.
\<close>

theorem plan_bindings_sound:
  assumes "key_order order c" "plan_build order c active ids storage = Inr p"
  shows "map vb_volume_id (pl_volumes p) = sorted_list_of_set (set (used_volumes c)) \<and>
     (\<forall>b \<in> set (pl_volumes p). binding_sound c (slice (ss_volumes storage)) b) \<and>
     map er_id (pl_nfs_roots p) = sort (map ex_id (slice (np_exports (fc_nfs c)))) \<and>
     (\<forall>r \<in> set (pl_nfs_roots p). \<exists>e \<in> set (slice (np_exports (fc_nfs c))). \<exists>b \<in> set (pl_volumes p).
        r = export_root e b \<and> vb_volume_id b = ex_volume_id e \<and> (er_read_only r \<or> \<not> vb_read_only b))"
proof -
  let ?vs = "slice (ss_volumes storage)" and ?es = "slice (np_exports (fc_nfs c))"
  have ready: "plan_ready c ids storage" and p: "pl_volumes p = plan_bindings c ?vs" "pl_nfs_roots p = plan_roots c ?vs"
    using assms(2) plan_build_iff [OF assms(1), of active ids storage p] by (auto simp: plan_of_def)
  have set: "set (pl_volumes p) = binding_at ?vs ` set (used_volumes c)" by (simp add: p plan_bindings_def)
  have sound: "binding_sound c ?vs b" if "b \<in> set (pl_volumes p)" for b
    using that ready binding_ready [of storage _ c] unfolding set plan_ready_def by blast
  have "map vb_volume_id (pl_volumes p) = sorted_list_of_set (set (used_volumes c))"
    by (simp add: p plan_bindings_def comp_def)
  moreover have "map er_id (pl_nfs_roots p) = sort (map ex_id ?es)"
    by (simp add: p plan_roots_def map_sort_key comp_def export_root_def)
  moreover have "\<exists>e \<in> set ?es. \<exists>b \<in> set (pl_volumes p). r = export_root e b \<and> vb_volume_id b = ex_volume_id e \<and>
      (er_read_only r \<or> \<not> vb_read_only b)" if r: "r \<in> set (pl_nfs_roots p)" for r
  proof -
    obtain e where e: "e \<in> set ?es" "r = export_root e (binding_at ?vs (ex_volume_id e))"
      using r by (auto simp: p plan_roots_def)
    have b: "binding_at ?vs (ex_volume_id e) \<in> set (pl_volumes p)" using e(1) by (auto simp: set used_volumes_def)
    then show ?thesis using sound [OF b] export_written [OF e(1)] e(2)
      by (intro bexI [OF _ e(1)] bexI [OF _ b]) (auto simp: binding_sound_def)
  qed
  ultimately show ?thesis using sound by blast
qed

text \<open>The documents of a plan in terms of the accounts they come from.\<close>

lemma registry_wide: "registry_wf r \<Longrightarrow> accounts_wf 1000 60000 (accounts_of r)"
proof -
  assume r: "registry_wf r"
  have "1000 \<le> reg_first_id r" "reg_last_id r \<le> 60000" using r by (simp_all add: registry_wf_def)
  then show ?thesis using registry_wf_accounts [OF r] unfolding accounts_wf_def account_wf_def by (blast intro: order_trans)
qed

lemma lookup_documents_assess:
  assumes "accounts_wf 1000 60000 all" "set as \<subseteq> set all" "distinct as" "length as \<le> max_live"
  shows "\<exists>s. snapshot_parse (Some (reader_of (ld_passwd (lookup_documents as)))) (Some (reader_of (ld_group (lookup_documents as)))) = Inr s \<and>
     (\<forall>a \<in> set all. snapshot_assess s a = Inr (if a \<in> set as then id_observed else id_absent))"
proof -
  have "accounts_wf 1000 60000 as"
    using assms(1,2) distinct_map_sub [OF assms(3,2), of acc_id] distinct_map_sub [OF assms(3,2), of acc_name]
      distinct_map_sub [OF assms(3,2), of acc_uid] by (auto simp: accounts_wf_def)
  moreover have "snapshot_assess (lookup_snapshot (sort_key acc_name as)) a = Inr (if a \<in> set as then id_observed else id_absent)"
    if "a \<in> set all" for a
    using lookup_assess [OF assms(1), of "sort_key acc_name as"] that assms(2) by simp
  ultimately show ?thesis using lookup_parses [OF _ assms(4)] by blast
qed

lemma management_lookup:
  assumes "registry_wf (ids_registry ids)" "sambaManagementLookup ids \<noteq> no_lookup"
  shows "sambaManagementLookup ids =
     lookup_documents (filter (\<lambda>a. acc_state a \<noteq> st_retired) (accounts_of (ids_registry ids)))"
proof -
  let ?live = "filter (\<lambda>a. acc_state a \<noteq> st_retired) (accounts_of (ids_registry ids))"
  have w: "accounts_wf 1000 60000 ?live"
    using registry_wide [OF assms(1)] by (auto simp: accounts_wf_def distinct_map_filter)
  moreover have "length ?live \<le> max_live" using registry_wf_accounts [OF assms(1)] by (simp add: live_count_def)
  ultimately have "renderNativeSambaNSS ?live = Inr (lookup_documents ?live)" by (intro render_native) simp_all
  then show ?thesis using assms(2) by (auto simp: sambaManagementLookup_def Let_def split: if_splits)
qed

lemma management_assess:
  assumes "registry_wf (ids_registry ids)"
  shows "sambaManagementLookup ids = no_lookup \<or>
     (\<exists>s. snapshot_parse (Some (reader_of (ld_passwd (sambaManagementLookup ids))))
            (Some (reader_of (ld_group (sambaManagementLookup ids)))) = Inr s \<and>
       (\<forall>a \<in> set (accounts_of (ids_registry ids)).
          snapshot_assess s a = Inr (if acc_state a = st_retired then id_absent else id_observed)))"
proof (cases "sambaManagementLookup ids = no_lookup")
  case False
  let ?all = "accounts_of (ids_registry ids)"
  let ?live = "filter (\<lambda>a. acc_state a \<noteq> st_retired) ?all"
  have "distinct ?live" using registry_distinct_ids [OF assms] by (simp add: distinct_map)
  moreover have "length ?live \<le> max_live" using registry_wf_accounts [OF assms] by (simp add: live_count_def)
  ultimately obtain s where "snapshot_parse (Some (reader_of (ld_passwd (lookup_documents ?live))))
      (Some (reader_of (ld_group (lookup_documents ?live)))) = Inr s"
    "\<forall>a \<in> set ?all. snapshot_assess s a = Inr (if a \<in> set ?live then id_observed else id_absent)"
    using lookup_documents_assess [OF registry_wide [OF assms], of ?live] by auto
  then show ?thesis unfolding management_lookup [OF assms False] by auto
qed simp

text \<open>
  C7: read by the passwd and group parser of \<open>unixidentity\<close>, the lookup documents of a plan give a
  matching local identity to exactly the accounts of the registry that hold a grant and say
  nothing about any other account; the management documents, if the plan has them, do so
  for exactly the accounts that are not retired.
\<close>

theorem plan_lookup_matches:
  assumes "key_order order c" "plan_build order c active ids storage = Inr p"
  shows "(\<exists>s. snapshot_parse (Some (reader_of (pl_samba_passwd p))) (Some (reader_of (pl_samba_group p))) = Inr s \<and>
        (\<forall>a \<in> set (accounts_of (ids_registry ids)).
           snapshot_assess s a = Inr (if acc_id a \<in> grant_user_id ` granted (fc_shares c) then id_observed else id_absent))) \<and>
     (pl_management_nss p = no_lookup \<or>
      (\<exists>s. snapshot_parse (Some (reader_of (ld_passwd (pl_management_nss p))))
             (Some (reader_of (ld_group (pl_management_nss p)))) = Inr s \<and>
        (\<forall>a \<in> set (accounts_of (ids_registry ids)).
           snapshot_assess s a = Inr (if acc_state a = st_retired then id_absent else id_observed))))"
proof -
  let ?all = "accounts_of (ids_registry ids)"
  obtain b where r: "registry_wf (ids_registry ids)" and b: "bind_shares (ids_registry ids) (fc_shares c) = Inr b"
    and p: "pl_samba_passwd p = ld_passwd (lookup_documents (bind_accounts b))"
      "pl_samba_group p = ld_group (lookup_documents (bind_accounts b))" "pl_management_nss p = sambaManagementLookup ids"
    using assms(2) plan_build_iff [OF assms(1), of active ids storage p]
    by (auto simp: plan_of_def plan_ready_def identities_wf_def)
  note all = registry_wide [OF r]
  have set: "set (bind_accounts b) = {a \<in> set ?all. acc_id a \<in> grant_user_id ` granted (fc_shares c)}"
    "distinct (bind_accounts b)" using bind_shares_result [OF b] by (auto simp: strict_sorted_iff distinct_map)
  then have sub: "set (bind_accounts b) \<subseteq> set ?all" by blast
  have "\<exists>s. snapshot_parse (Some (reader_of (pl_samba_passwd p))) (Some (reader_of (pl_samba_group p))) = Inr s \<and>
      (\<forall>a \<in> set ?all. snapshot_assess s a = Inr (if a \<in> set (bind_accounts b) then id_observed else id_absent))"
    unfolding p by (rule lookup_documents_assess [OF all sub set(2) bound_accounts(3) [OF b]])
  moreover have "a \<in> set (bind_accounts b) \<longleftrightarrow> acc_id a \<in> grant_user_id ` granted (fc_shares c)" if "a \<in> set ?all" for a
    using that set(1) by blast
  moreover have "pl_management_nss p = no_lookup \<or> (\<exists>s. snapshot_parse (Some (reader_of (ld_passwd (pl_management_nss p))))
             (Some (reader_of (ld_group (pl_management_nss p)))) = Inr s \<and>
        (\<forall>a \<in> set ?all. snapshot_assess s a = Inr (if acc_state a = st_retired then id_absent else id_observed)))"
    using management_assess [OF r] p(3) by simp
  ultimately show ?thesis by auto
qed

text \<open>The enrollment documents know every account of the registry, and are never refused once made.\<close>

lemma lookup_documents_nonempty:
  "ld_passwd (lookup_documents as) \<noteq> []" "ld_group (lookup_documents as) \<noteq> []" "ld_nss (lookup_documents as) \<noteq> []"
  by (simp_all add: lookup_documents_def Let_def fixed_passwd_def fixed_group_def sambaFilesOnlyNSS_def)

lemma enrollment_documents:
  assumes "sambaEnrollmentFromEvidence e = Inr l"
  shows "\<exists>s. LookupDocuments l = Inr (lookup_documents (accounts_of (ne_registry e))) \<and>
     snapshot_parse (Some (reader_of (en_passwd l))) (Some (reader_of (en_group l))) = Inr s \<and>
     (\<forall>a \<in> set (accounts_of (ne_registry e)). snapshot_assess s a = Inr id_observed)"
proof -
  let ?all = "accounts_of (ne_registry e)"
  obtain native where r: "registry_wf (ne_registry e)" and n: "length ?all \<le> max_live" "length native = length ?all"
    and ok: "list_all (\<lambda>(a, j). enrollable e a j) (zip ?all native)" and f: "ne_fingerprint e \<noteq> zero_fingerprint"
    and l: "renderNativeSambaNSS ?all = Inr \<lparr>ld_passwd = en_passwd l, ld_group = en_group l, ld_nss = en_nss l\<rparr>"
      "en_fingerprint l = ne_fingerprint e"
    using assms by (auto simp: sambaEnrollmentFromEvidence_def registry_validate_iff Let_def
        split: option.splits if_splits sum.splits)
  have "acc_state a \<noteq> st_retired" if "a \<in> set ?all" for a
  proof -
    have "a \<in> set (map fst (zip ?all native))" using that n(2) by simp
    then show ?thesis using ok by (auto simp: list_all_iff enrollable_def)
  qed
  then have "renderNativeSambaNSS ?all = Inr (lookup_documents ?all)" by (intro render_native registry_wide r n(1)) simp
  then have docs: "lookup_documents ?all = \<lparr>ld_passwd = en_passwd l, ld_group = en_group l, ld_nss = en_nss l\<rparr>" using l(1) by simp
  then have doc: "ld_passwd (lookup_documents ?all) = en_passwd l" "ld_group (lookup_documents ?all) = en_group l"
    "ld_nss (lookup_documents ?all) = en_nss l" by simp_all
  have "LookupDocuments l = Inr (lookup_documents ?all)"
    using lookup_documents_nonempty [of ?all] f l(2) docs unfolding doc by (simp add: LookupDocuments_def)
  moreover have "distinct ?all" using registry_distinct_ids [OF r] by (simp add: distinct_map)
  ultimately show ?thesis using lookup_documents_assess [OF registry_wide [OF r] order_refl _ n(1)] unfolding doc by auto
qed

subsection \<open>What the storage fingerprint covers\<close>

lemma length_writeUint64 [simp]: "length (writeUint64 n) = 8"
  by (simp add: writeUint64_def)

lemma writeUint64_inj: "writeUint64 m = writeUint64 n \<Longrightarrow> m = n"
proof -
  assume eq: "writeUint64 m = writeUint64 n"
  have byte: "unat m div 256 ^ k mod 256 = unat n div 256 ^ k mod 256" if "k \<in> set [7, 6, 5, 4, 3, 2, 1, 0]" for k
  proof -
    have "(char_of (unat m div 256 ^ k) :: char) = char_of (unat n div 256 ^ k)"
      using eq that unfolding writeUint64_def map_eq_conv by blast
    then show ?thesis by (simp add: char_of_eq_iff take_bit_eq_mod)
  qed
  have digits: "x = y" if "x < 256 ^ n" "y < 256 ^ n" "\<And>k. k < n \<Longrightarrow> x div 256 ^ k mod 256 = y div 256 ^ k mod 256" for n and x y :: nat
    using that
  proof (induction n arbitrary: x y)
    case (Suc n)
    have "x div 256 = y div 256"
    proof (rule Suc.IH)
      show "x div 256 < 256 ^ n" "y div 256 < 256 ^ n" using Suc.prems(1,2) by (simp_all add: less_mult_imp_div_less mult.commute)
      show "x div 256 div 256 ^ k mod 256 = y div 256 div 256 ^ k mod 256" if "k < n" for k
        using Suc.prems(3) [of "Suc k"] that by (simp add: div_mult2_eq)
    qed
    moreover have "x mod 256 = y mod 256" using Suc.prems(3) [of 0] by simp
    ultimately show ?case by (metis div_mult_mod_eq)
  qed simp
  have "unat m = unat n"
  proof (rule digits [of _ 8])
    show "unat m < 256 ^ 8" "unat n < 256 ^ 8" using unsigned_less [of m, where 'a = nat] unsigned_less [of n, where 'a = nat] by simp_all
    show "unat m div 256 ^ k mod 256 = unat n div 256 ^ k mod 256" if "k < 8" for k
    proof -
      have "k \<in> set [7, 6, 5, 4, 3, 2, 1, 0]" using that by auto
      then show ?thesis by (rule byte)
    qed
  qed
  then show "m = n" by (rule unsigned_word_eqI)
qed

lemma writeUint64_prefix: "writeUint64 m @ x = writeUint64 n @ y \<longleftrightarrow> m = n \<and> x = y"
  using writeUint64_inj [of m n] by auto

lemma write_flag_prefix: "write_flag a @ x = write_flag b @ y \<longleftrightarrow> a = b \<and> x = y"
  by (auto simp: write_flag_def)

text \<open>Lengths of Go values fit an \<open>int\<close>, so that the 64-bit prefix is the length itself.\<close>

lemma of_nat_length: "(of_nat m :: u64) = of_nat n \<Longrightarrow> m < 2 ^ 63 \<Longrightarrow> n < 2 ^ 63 \<Longrightarrow> m = n"
proof -
  have "unat (of_nat k :: u64) = k" if "k < 2 ^ 63" for k using that by (simp add: unat_of_nat)
  moreover assume "(of_nat m :: u64) = of_nat n" "m < 2 ^ 63" "n < 2 ^ 63"
  ultimately show ?thesis by metis
qed

lemma writeString_prefix:
  assumes "length s < 2 ^ 63" "length t < 2 ^ 63"
  shows "writeString s @ x = writeString t @ y \<longleftrightarrow> s = t \<and> x = y"
proof -
  have "length s = length t" if "(of_nat (length s) :: u64) = of_nat (length t)"
    by (rule of_nat_length [OF that assms])
  then show ?thesis by (auto simp: writeString_def writeUint64_prefix)
qed

definition volume_sized :: "observed_volume \<Rightarrow> bool" where
  "volume_sized v \<longleftrightarrow> length (ov_volume_id v) < 2 ^ 63 \<and> length (ov_filesystem_uuid v) < 2 ^ 63 \<and>
     length (ov_mount_path v) < 2 ^ 63 \<and> length (ov_compatibility v) < 2 ^ 63"

definition storage_sized :: "storage_snapshot \<Rightarrow> bool" where
  "storage_sized s \<longleftrightarrow> length (ss_owner_fingerprint s) = 32 \<and> length (slice (ss_volumes s)) < 2 ^ 63 \<and>
     list_all volume_sized (slice (ss_volumes s))"

lemma write_volume_prefix:
  assumes "volume_sized v" "volume_sized w"
  shows "write_volume v @ x = write_volume w @ y \<longleftrightarrow> v = w \<and> x = y"
proof -
  have u: "(ucast m :: u64) = ucast n \<longleftrightarrow> m = n" for m n :: u32 by transfer simp
  show ?thesis
    using assms unfolding volume_sized_def write_volume_def append_assoc
    by (cases v; cases w) (auto simp: writeString_prefix writeUint64_prefix write_flag_prefix u)
qed

lemma write_volumes_inj:
  "list_all volume_sized vs \<Longrightarrow> list_all volume_sized ws \<Longrightarrow> length vs = length ws \<Longrightarrow>
   concat (map write_volume vs) = concat (map write_volume ws) \<Longrightarrow> vs = ws"
proof (induction vs arbitrary: ws)
  case (Cons v vs)
  then obtain w ws' where ws: "ws = w # ws'" by (cases ws) auto
  show ?case using Cons.prems Cons.IH [of ws'] write_volume_prefix [of v w] by (auto simp: ws)
qed simp

lemma storage_bytes_inj:
  assumes s: "storage_sized s" and t: "storage_sized t" and eq: "storage_bytes s = storage_bytes t"
  shows "ss_generation s = ss_generation t \<and> ss_owner_fingerprint s = ss_owner_fingerprint t \<and> ss_complete s = ss_complete t \<and>
     sort_key ov_volume_id (slice (ss_volumes s)) = sort_key ov_volume_id (slice (ss_volumes t))"
proof -
  let ?vs = "sort_key ov_volume_id (slice (ss_volumes s))" and ?ws = "sort_key ov_volume_id (slice (ss_volumes t))"
  have n: "length ?vs < 2 ^ 63" "length ?ws < 2 ^ 63" "length (ss_owner_fingerprint s) = length (ss_owner_fingerprint t)"
    using s t by (simp_all add: storage_sized_def)
  have "ss_generation s = ss_generation t \<and> ss_owner_fingerprint s = ss_owner_fingerprint t \<and> ss_complete s = ss_complete t \<and>
      (of_nat (length ?vs) :: u64) = of_nat (length ?ws) \<and> concat (map write_volume ?vs) = concat (map write_volume ?ws)"
    using eq n(3) unfolding storage_bytes_def Let_def
    by (simp only: writeUint64_prefix append_eq_append_conv write_flag_prefix simp_thms)
  moreover from this have "length ?vs = length ?ws"
    using of_nat_length n(1,2) by blast
  moreover have "list_all volume_sized ?vs" "list_all volume_sized ?ws" using s t by (simp_all add: storage_sized_def list_all_iff)
  ultimately show ?thesis using write_volumes_inj by blast
qed

text \<open>
  C40: the NFS candidate of a plan accepts the very storage snapshot it was planned on as fresh. It accepts
  any other snapshot only if that has the same generation, owner fingerprint and volumes, down to
  every mount and device number and in any order, or if the two encodings are a collision of SHA-256.
\<close>

theorem fresh_storage_unchanged:
  assumes "key_order order c" "plan_build order c active ids storage = Inr p" "NFSv3TCPCandidate p = Inr k"
    and "storage_sized storage" "storage_sized s"
  shows "FreshAgainstStorage k storage \<and>
     (FreshAgainstStorage k s \<longrightarrow>
        ss_complete s \<and> ss_generation s = ss_generation storage \<and> ss_owner_fingerprint s = ss_owner_fingerprint storage \<and>
        sort_key ov_volume_id (slice (ss_volumes s)) = sort_key ov_volume_id (slice (ss_volumes storage)) \<or>
        storage_bytes s \<noteq> storage_bytes storage \<and> sha256 (storage_bytes s) = sha256 (storage_bytes storage))"
proof -
  have ready: "plan_ready c ids storage" and p: "pl_freshness p = plan_freshness c active ids storage"
    using assms(2) plan_build_iff [OF assms(1), of active ids storage p] by (auto simp: plan_of_def)
  have k: "nk_freshness k = pl_freshness p" "nk_valid k"
    using assms(3) by (auto simp: NFSv3TCPCandidate_def split: if_splits)
  have "FreshAgainstStorage k storage"
    using ready by (auto simp: FreshAgainstStorage_def k p plan_freshness_def plan_ready_def storage_wf_def slice_def word_gt_0)
  moreover have "sha256 (storage_bytes s) = sha256 (storage_bytes storage)" "ss_complete s" if "FreshAgainstStorage k s"
    using that by (simp_all add: FreshAgainstStorage_def k p plan_freshness_def fingerprintStorageSnapshot_def)
  ultimately show ?thesis using storage_bytes_inj [OF assms(5,4)] by blast
qed

subsection \<open>A concrete plan\<close>

definition sample_account :: "string \<Rightarrow> string \<Rightarrow> u32 \<Rightarrow> string \<Rightarrow> account" where
  "sample_account i n u st = \<lparr>acc_id = i, acc_name = n, acc_uid = u, acc_gid = u, acc_state = st\<rparr>"

definition sample_accounts :: "account list" where
  "sample_accounts = [sample_account ''u1'' ''anna'' 1001 st_enabled, sample_account ''u2'' ''bert'' 1002 st_enabled,
     sample_account ''u3'' ''carl'' 1003 st_disabled]"

definition sample_samba :: "string \<Rightarrow> string \<Rightarrow> u32 \<Rightarrow> string \<Rightarrow> samba_identity" where
  "sample_samba i n u sid =
     \<lparr>si_journal = \<lparr>sp_format = sp_format_name, sp_schema_version = 1, sp_revision = 7, sp_native_revision = 5,
        sp_account = sample_account i n u st_disabled, sp_sid = sid, sp_phase = sp_enabled\<rparr>,
      si_observation = \<lparr>ob_present = True, ob_name = n, ob_uid = u, ob_gid = u, ob_sid = sid, ob_disabled = False\<rparr>\<rparr>"

definition sample_identities :: identity_snapshot where
  "sample_identities =
     \<lparr>ids_complete = True, ids_generation = 4, ids_fingerprint = replicate 32 (CHR 0x01),
      ids_registry = \<lparr>reg_format = registry_format, reg_schema_version = 1, reg_revision = 4, reg_first_id = 1000,
        reg_last_id = 2000, reg_accounts = Some sample_accounts\<rparr>,
      ids_uids = Some [0, 65534, 1001, 1002], ids_gids = Some [0, 65534, 1001, 1002],
      ids_samba = Some [sample_samba ''u1'' ''anna'' 1001 ''S-1-5-21-1-2-3-1001'',
        sample_samba ''u2'' ''bert'' 1002 ''S-1-5-21-1-2-3-1002''],
      ids_kerberos_ready = False\<rparr>"

definition sample_observed :: observed_volume where
  "sample_observed =
     \<lparr>ov_volume_id = ''data'', ov_filesystem_uuid = ''00000000-0000-0000-0000-00000000000a'',
      ov_mount_path = ''/srv/phantowd/volumes/data'', ov_compatibility = compat_qualified, ov_mount_id = 40,
      ov_device_major = 9, ov_device_minor = 1, ov_read_only = False\<rparr>"

definition sample_storage :: storage_snapshot where
  "sample_storage = \<lparr>ss_complete = True, ss_generation = 2, ss_owner_fingerprint = replicate 32 (CHR 0x02),
     ss_volumes = Some [sample_observed]\<rparr>"

lemma sample_used: "used_volumes sample_fs = [''data'', ''data'', ''data'']"
  by (simp add: used_volumes_def sample_fs_def sample_config_def sample_share_def sample_nfs_policy_def slice_def)

lemma sample_order: "key_order [''data''] sample_fs"
  by (simp add: key_order_def sample_used)

lemma sample_identities_ok: "validateIdentitySnapshot sample_identities = Inr ()"
  by code_simp

lemma sample_storage_ok: "validateStorageSnapshot sample_storage (slice (sc_volumes (fc_shares sample_fs))) = Inr ()"
  by code_simp

lemma sample_accounts_ok: "validateSMBAccounts (fc_shares sample_fs) sample_identities = Inr ()"
  by code_simp

lemma sample_nfs_ok: "validateNFSIdentities (fc_nfs sample_fs) sample_identities = Inr ()"
  by code_simp

lemma sample_volume_ok: "is_ok (bind_volumes sample_fs (slice (ss_volumes sample_storage)) [''data''])"
  by code_simp

lemma sample_plan_ready: "plan_ready sample_fs sample_identities sample_storage"
proof -
  have c: "fs_config_wf sample_fs" using sample_fs_ok fs_validate_iff [of sample_fs] by simp
  have i: "identities_wf sample_identities" using sample_identities_ok validateIdentitySnapshot_iff by blast
  have s: "storage_wf sample_storage (vol_id ` set (slice (sc_volumes (fc_shares sample_fs))))"
    using sample_storage_ok validateStorageSnapshot_iff by blast
  have "distinct (map ov_volume_id (slice (ss_volumes sample_storage)))" using s by (auto simp: storage_wf_def slice_def)
  from bind_volumes_iff [OF this fs_config_parts(2) [OF c]]
  have v: "volume_ready sample_fs (slice (ss_volumes sample_storage)) ''data''"
    using sample_volume_ok unfolding is_ok_iff by (metis list.set_intros(1))
  have sys: "cl_security k = ''sys''" if "e \<in> set (slice (np_exports (fc_nfs sample_fs)))" "k \<in> set (ex_clients e)" for e k
    using that by (auto simp: sample_fs_def sample_nfs_policy_def sample_nfs_client_def slice_def)
  show ?thesis
    using c i s v sys sample_accounts_ok sample_nfs_ok
    unfolding plan_ready_def validateSMBAccounts_iff [OF i fs_config_parts(1) [OF c]] validateNFSIdentities_iff
    by (auto simp: sample_used)
qed

theorem plan_build_exact_witness: "is_ok (plan_build [''data''] sample_fs 0 sample_identities sample_storage)"
  using plan_build_exact [OF sample_order sample_order] sample_plan_ready by blast

lemma sample_plan: "\<exists>p. plan_build [''data''] sample_fs 0 sample_identities sample_storage = Inr p"
  unfolding plan_build_iff [OF sample_order] using sample_plan_ready plan_ready_exists by blast

theorem plan_bindings_sound_witness:
  "\<exists>p. plan_build [''data''] sample_fs 0 sample_identities sample_storage = Inr p \<and>
     map vb_volume_id (pl_volumes p) = [''data'']"
proof -
  obtain p where p: "plan_build [''data''] sample_fs 0 sample_identities sample_storage = Inr p" using sample_plan by blast
  then show ?thesis using plan_bindings_sound [OF sample_order p] by (simp add: sample_used)
qed

theorem plan_lookup_matches_witness:
  "\<exists>p s. plan_build [''data''] sample_fs 0 sample_identities sample_storage = Inr p \<and>
     snapshot_parse (Some (reader_of (pl_samba_passwd p))) (Some (reader_of (pl_samba_group p))) = Inr s \<and>
     snapshot_assess s (sample_account ''u1'' ''anna'' 1001 st_enabled) = Inr id_observed \<and>
     snapshot_assess s (sample_account ''u3'' ''carl'' 1003 st_disabled) = Inr id_absent"
proof -
  obtain p where p: "plan_build [''data''] sample_fs 0 sample_identities sample_storage = Inr p" using sample_plan by blast
  have g: "grant_user_id ` granted (fc_shares sample_fs) = {''u1'', ''u2''}"
    by (simp add: granted_def sample_fs_def sample_config_def sample_share_def)
  have a: "sample_account ''u1'' ''anna'' 1001 st_enabled \<in> set (accounts_of (ids_registry sample_identities))"
    "sample_account ''u3'' ''carl'' 1003 st_disabled \<in> set (accounts_of (ids_registry sample_identities))"
    by (simp_all add: accounts_of_def sample_identities_def sample_accounts_def)
  have i: "acc_id (sample_account i n u st) = i" for i n u st by (simp add: sample_account_def)
  obtain s where s: "snapshot_parse (Some (reader_of (pl_samba_passwd p))) (Some (reader_of (pl_samba_group p))) = Inr s"
    "\<forall>x \<in> set (accounts_of (ids_registry sample_identities)).
       snapshot_assess s x = Inr (if acc_id x \<in> {''u1'', ''u2''} then id_observed else id_absent)"
    using conjunct1 [OF plan_lookup_matches [OF sample_order p]] unfolding g by blast
  show ?thesis using p s(1) bspec [OF s(2) a(1)] bspec [OF s(2) a(2)] by (auto simp: i)
qed

lemma sample_storage_sized: "storage_sized sample_storage"
  by (simp add: storage_sized_def volume_sized_def sample_storage_def sample_observed_def slice_def compat_qualified_def)

theorem fresh_storage_unchanged_witness:
  "\<exists>p k. plan_build [''data''] sample_fs 0 sample_identities sample_storage = Inr p \<and> NFSv3TCPCandidate p = Inr k \<and>
     FreshAgainstStorage k sample_storage"
proof -
  obtain p where p: "plan_build [''data''] sample_fs 0 sample_identities sample_storage = Inr p" using sample_plan by blast
  then have roots: "pl_scope p = candidate_only" "pl_nfs_roots p = plan_roots sample_fs (slice (ss_volumes sample_storage))"
    using plan_build_iff [OF sample_order] by (auto simp: plan_of_def)
  have "list_all (\<lambda>r. list_all (\<lambda>k. cl_security k = ''sys'') (er_clients r)) (pl_nfs_roots p)"
    unfolding roots by (auto simp: plan_roots_def export_root_def list_all_iff sample_fs_def sample_nfs_policy_def
        sample_nfs_client_def slice_def)
  then obtain k where k: "NFSv3TCPCandidate p = Inr k" using roots(1) by (auto simp: NFSv3TCPCandidate_def)
  show ?thesis using fresh_storage_unchanged [OF sample_order p k sample_storage_sized sample_storage_sized] p k by blast
qed

end
