(* ===== verification/Spec2Isabelle.thy ===== *)
theory Spec2Isabelle
  imports Owned_Store MD_Metadata Mcu_Proto File_Service_Plan
begin

text \<open>
  \<^bold>\<open>PhantoWD EX4: the configuration and identity core of the appliance.\<close>

  The program (\<^verbatim>\<open>src/src/phantowd-api\<close>, Go) turns a network storage appliance's desired state
  into durable documents, native accounts and candidate daemon configuration.  Its parts, from the
  bottom up:

  \<^item> \<^emph>\<open>Documents.\<close>  Every piece of desired state is one strict JSON document with a revision.
    \<^verbatim>\<open>internal/configjson\<close> reads it, \<^verbatim>\<open>internal/revisionstore\<close> replaces it atomically on disk
    (compare-and-swap on the revision, rename and fsync), and an owner holds the store for the
    lifetime of a service and hands out leases.
  \<^item> \<^emph>\<open>Identities.\<close>  \<^verbatim>\<open>serviceaccounts\<close> is an append-only registry of accounts, \<^verbatim>\<open>unixidentity\<close>
    reads the passwd and group files, \<^verbatim>\<open>identityprovision\<close> creates the Unix user and group of one
    account, and \<^verbatim>\<open>internal/smbprovision\<close> enrolls it with Samba; both write a journal before
    every native command.
  \<^item> \<^emph>\<open>Policies.\<close>  \<^verbatim>\<open>shareconfig\<close> and \<^verbatim>\<open>nfsconfig\<close> are the desired SMB shares and NFS exports,
    \<^verbatim>\<open>smbconfig\<close> and \<^verbatim>\<open>nfsconfig\<close> render them, and \<^verbatim>\<open>fileservice\<close> holds both in one document.
  \<^item> \<^emph>\<open>Activation.\<close>  \<^verbatim>\<open>internal/fileserviceplan\<close> checks a policy against complete evidence on
    identities and mounted volumes and compiles the candidate a service owner may start.
  \<^item> \<^emph>\<open>Devices.\<close>  \<^verbatim>\<open>mdmetadata\<close> inspects RAID superblocks, and \<^verbatim>\<open>mcuproto\<close> of the laboratory
    tools decodes the front-panel controller's serial protocol.

  \<^bold>\<open>Conventions.\<close>  A Go string or byte slice is a \<^typ>\<open>string\<close>, one character for a byte; an unsigned
  integer of fixed width is a word of that width; \<^verbatim>\<open>int\<close> is \<^typ>\<open>int\<close> or \<^typ>\<open>nat\<close> where only sizes
  occur.  A slice whose nil-ness the code tests is a list option.  An error is the left value of a
  sum type with the constructors of the package's error variables, or \<open>None\<close> where the code has
  one error only.  A Go map that is only looked up is the list of its insertions, and a loop is
  recursion over what it ranges over.  Where the code ranges over a map, whose order Go leaves open,
  the order is an argument.  Kernel calls, child processes and clocks are arguments of the definitions
  that use them; the theorems quantify over every behaviour of theirs, or name the behaviour they
  need as an interface (a locale) that is interpreted in the same theory.

  \<^bold>\<open>Theories.\<close>

  \<^item> \<open>Go_Base\<close>: strings, decimal numbers, sorting, byte and rune lemmas that all components share.
    \<open>Go_Net\<close>: \<^verbatim>\<open>net/netip\<close> addresses and prefixes and \<^verbatim>\<open>path.Join\<close>.  \<open>Sha256\<close>: the hash function.
    \<open>Json_Text\<close>: the grammar and printer of \<^verbatim>\<open>encoding/json\<close>.
  \<^item> \<open>Config_Json\<close> (\<^verbatim>\<open>internal/configjson/decode.go\<close>) and \<open>Raw_Json\<close> (\<^verbatim>\<open>envelope.go\<close>): strict
    decoding.  The decoder of a Go struct is an argument; the lemma \<open>config_decode_print\<close> reduces
    the round trip of a document to that of its decoder.
  \<^item> \<open>Revision_Store\<close> (\<^verbatim>\<open>internal/revisionstore/store_linux.go\<close>): Open, Load, Commit and Close over an
    arbitrary kernel.  The state is the directory as the running system sees it and the set of
    directories a power cut can leave.  Commits are durable or reported uncertain, and
    opening settles an uncertain outcome.
    \<open>Owned_Store\<close> (\<^verbatim>\<open>owner_linux.go\<close>): the lifetime owner and its leases as a step relation; what a
    lease pins, what a commit does and the invariant of all reachable states.
    \<open>Journal_Store\<close>: the interface by which a component keeps one document in such a store, with
    the history of documents proved once for all its users.
  \<^item> \<open>Service_Accounts\<close> (\<^verbatim>\<open>serviceaccounts/registry.go\<close>): validation, Create, SetState and BindShares;
    exact preconditions, effects and termination of Create, and the invariant over all histories.
    \<open>Account_Store\<close> (\<^verbatim>\<open>serviceaccountstore\<close>): the durable registry, its document round trip and
    that it only moves by accepted changes.
    \<open>Unix_Identity\<close> (\<^verbatim>\<open>unixidentity/snapshot.go\<close>): Parse, Reservations, Assess and Inspect against a
    declarative reading of the files.
  \<^item> \<open>Identity_Provision\<close> (\<^verbatim>\<open>identityprovision\<close>) and \<open>Smb_Provision\<close> (\<^verbatim>\<open>internal/smbprovision\<close>): the
    two journaled state machines.  No native command runs without its durable intent, no interrupted
    intent is replayed, journals only move forward whatever fails, success means that the state was
    observed, and on a host that does not fail every enrollment completes.
  \<^item> \<open>Share_Config\<close> and \<open>Share_Store\<close> (\<^verbatim>\<open>shareconfig\<close>, \<^verbatim>\<open>sharestore\<close>), \<open>Nfs_Config\<close> (\<^verbatim>\<open>nfsconfig\<close>),
    \<open>Smb_Config\<close> (\<^verbatim>\<open>smbconfig\<close>), \<open>File_Service\<close> (\<^verbatim>\<open>fileservice\<close>, \<^verbatim>\<open>fileservicestore\<close>): validation
    of the policies and the rendered text.  The texts are read back by the documented grammar of
    their daemons and give exactly what the policy grants; an accepted NFS policy has at most
    one rule for any path and address; backups restore; and a stored NFS identifier never changes
    its source.
  \<^item> \<open>File_Service_Plan\<close> (\<^verbatim>\<open>internal/fileserviceplan\<close>): Build, its checks on the evidence of the identity and
    mount owners, the candidates for Samba and NFS, and the evaluation under both owners.  A plan
    exists exactly when a declarative condition on policy and evidence holds, whatever the order of Go's map
    iteration; its volumes are the used ones and sound; its passwd and group documents, read by the
    parser of \<open>Unix_Identity\<close>, know exactly the granted accounts; and a storage snapshot that passes for
    fresh is the planned one unless SHA-256 collides.
  \<^item> \<open>MD_Metadata\<close> (\<^verbatim>\<open>mdmetadata\<close>): no read outside the partition, no slice out of range, and exact
    descriptions of accepted components and arrays.
    \<open>Mcu_Proto\<close> (\<^verbatim>\<open>tools/phantowd-lab/mcuproto\<close>): the stream decoder refines a description of frames
    that does not depend on how the capture is cut, and its counters account for every marker.

  \<^bold>\<open>Bounds and termination.\<close>  No definition uses fuel.  Loops over slices are structural recursion, and
  the others (lexing, decimal printing) are total functions with a
  measure, so a theorem about a result is also a theorem that the code returns.  The one loop that
  could run forever, the search for a free number over a wrapping counter, is also modelled as
  it runs, and proved to return.  The limits of
  the code (document sizes, nesting depth, table sizes) are definitions with the source's values.
  Reading a file is modelled as the bytes it yields and whether it fails.

  \<^bold>\<open>Not modelled.\<close>  Everything whose meaning is a system call or a child process on live kernel objects:
  mounts and pinned block devices (\<^verbatim>\<open>mountowner\<close>, \<^verbatim>\<open>mountguard\<close>, \<^verbatim>\<open>backingpin\<close>), the service launcher
  and runtime bundle (\<^verbatim>\<open>processowner\<close>, \<^verbatim>\<open>runtimebundle\<close>, \<^verbatim>\<open>phantowd-service-launcher\<close>), kernel NFS
  control, Samba command execution, the identity owner's RPC, storage and network discovery, SMART,
  the volume probe, HTTP, TLS, sessions and password hashing, the dashboard, the firmware build,
  test programs and vendored modules.  Locks are not modelled either: each operation is one step, which
  is what the mutexes of the stores and owners provide.  Comparisons of inode and device numbers that
  guard an open store against replacement are outcomes of the kernel argument.  SHA-256 is computed,
  and no theorem assumes that it has no collisions.
\<close>

end
